(* ===== verification/Prelude.thy ===== *)
theory Prelude
  imports Main "HOL-Library.Word"
begin

text \<open>
  Shared vocabulary of the development: the names of Rust's integer types, the
  outcome type of fallible code, the integer operations of Rust's standard
  library that the sources use, and the generic lemmas on words, lists and
  sums that the component theories rest on.

  Arithmetic follows the release profile of the workspace (\<^verbatim>\<open>Cargo.toml\<close> sets
  \<^verbatim>\<open>debug-assertions = false\<close>): the plain operators wrap, shift amounts are
  reduced modulo the width, \<^verbatim>\<open>debug_assert!\<close> and the MIRAI annotations
  (\<^verbatim>\<open>assume!\<close>, \<^verbatim>\<open>precondition!\<close>, \<^verbatim>\<open>checked_precondition!\<close>) do nothing.
\<close>

unbundle bit_operations_syntax

section \<open>Types\<close>

type_synonym u8 = "8 word"
type_synonym u16 = "16 word"
type_synonym u32 = "32 word"
type_synonym u64 = "64 word"

text \<open>
  A call either returns a value, returns \<^verbatim>\<open>Err\<close> with an error, or panics
  (\<^verbatim>\<open>assert!\<close>, \<^verbatim>\<open>expect\<close>, \<^verbatim>\<open>unwrap\<close>, \<^verbatim>\<open>unreachable!\<close>).
\<close>

datatype 'e fault = Panic | Err 'e

type_synonym ('a, 'e) outcome = "'e fault + 'a"

section \<open>Sequencing fallible calls\<close>

text \<open>The \<open>?\<close> operator: the first fault ends the computation.\<close>

fun obind :: "('a, 'e) outcome \<Rightarrow> ('a \<Rightarrow> ('b, 'e) outcome) \<Rightarrow> ('b, 'e) outcome" where
  "obind (Inl e) f = Inl e"
| "obind (Inr x) f = f x"

text \<open>\<^verbatim>\<open>ok_or_else\<close> and \<^verbatim>\<open>expect\<close> on an \<^verbatim>\<open>Option\<close>.\<close>

fun ok_or :: "'a option \<Rightarrow> 'e \<Rightarrow> ('a, 'e) outcome" where
  "ok_or None e = Inl (Err e)"
| "ok_or (Some x) e = Inr x"

fun expect :: "'a option \<Rightarrow> ('a, 'e) outcome" where
  "expect None = Inl Panic"
| "expect (Some x) = Inr x"

text \<open>\<^verbatim>\<open>ensure!\<close> and \<^verbatim>\<open>assert!\<close>.\<close>

definition ensure :: "bool \<Rightarrow> 'e \<Rightarrow> (unit, 'e) outcome" where
  "ensure b e = (if b then Inr () else Inl (Err e))"

definition assert_that :: "bool \<Rightarrow> (unit, 'e) outcome" where
  "assert_that b = (if b then Inr () else Inl Panic)"

text \<open>\<^verbatim>\<open>iter().map(f).collect::<Result<Vec<_>>>()\<close>: stops at the first fault.\<close>

fun omap :: "('a \<Rightarrow> ('b, 'e) outcome) \<Rightarrow> 'a list \<Rightarrow> ('b list, 'e) outcome" where
  "omap f [] = Inr []"
| "omap f (x # xs) = obind (f x) (\<lambda>y. obind (omap f xs) (\<lambda>ys. Inr (y # ys)))"

lemma option_ext: "(\<And>b. x = Some b \<longleftrightarrow> y = Some b) \<Longrightarrow> x = y"
  by (cases x; cases y) auto

lemma omap_total: "(\<And>x. x \<in> set xs \<Longrightarrow> f x = Inr (g x)) \<Longrightarrow> omap f xs = Inr (map g xs)"
  by (induction xs) auto

lemma obind_eq_Inr [simp]: "obind m f = Inr y \<longleftrightarrow> (\<exists>x. m = Inr x \<and> f x = Inr y)"
  by (cases m) auto

lemma obind_cong [fundef_cong]:
  "m = m' \<Longrightarrow> (\<And>x. m' = Inr x \<Longrightarrow> f x = f' x) \<Longrightarrow> obind m f = obind m' f'"
  by (cases m') auto

lemma ensure_eq_Inr [simp]: "ensure b e = Inr x \<longleftrightarrow> b"
  by (simp add: ensure_def)

lemma ensure_True [simp]: "ensure True e = Inr ()"
  by (simp add: ensure_def)

lemma ensure_False [simp]: "ensure False e = Inl (Err e)"
  by (simp add: ensure_def)

lemma assert_that_eq_Inr [simp]: "assert_that b = Inr x \<longleftrightarrow> b"
  by (simp add: assert_that_def)

lemma assert_that_True [simp]: "assert_that True = Inr ()"
  by (simp add: assert_that_def)

lemma assert_that_False [simp]: "assert_that False = Inl Panic"
  by (simp add: assert_that_def)

lemma ok_or_eq_Inr [simp]: "ok_or m e = Inr x \<longleftrightarrow> m = Some x"
  by (cases m) auto

lemma expect_eq_Inr [simp]: "expect m = Inr x \<longleftrightarrow> m = Some x"
  by (cases m) auto

lemma omap_eq_Inr: "omap f xs = Inr ys \<longleftrightarrow> list_all2 (\<lambda>x y. f x = Inr y) xs ys"
  by (induction xs arbitrary: ys) (auto simp: list_all2_Cons1)

lemma omap_Inr: "(\<And>x. x \<in> set xs \<Longrightarrow> f x = Inr (g x)) \<Longrightarrow> omap f xs = Inr (map g xs)"
  by (induction xs) auto

text \<open>Indexing a vector: out of range is a panic.\<close>

definition vec_index :: "'a list \<Rightarrow> nat \<Rightarrow> ('a, 'e) outcome" where
  "vec_index xs i = (if i < length xs then Inr (xs ! i) else Inl Panic)"

lemma vec_index_eq_Inr [simp]: "vec_index xs i = Inr x \<longleftrightarrow> i < length xs \<and> xs ! i = x"
  by (auto simp: vec_index_def)

lemma vec_index_ok: "i < length xs \<Longrightarrow> vec_index xs i = Inr (xs ! i)"
  by simp

text \<open>A loop over a list whose body may fail.\<close>

fun ofold :: "('a \<Rightarrow> 's \<Rightarrow> ('s, 'e) outcome) \<Rightarrow> 'a list \<Rightarrow> 's \<Rightarrow> ('s, 'e) outcome" where
  "ofold f [] s = Inr s"
| "ofold f (x # xs) s = obind (f x s) (ofold f xs)"

lemma ofold_inv:
  assumes "I s" "\<And>x s. x \<in> set xs \<Longrightarrow> I s \<Longrightarrow> \<exists>s'. f x s = Inr s' \<and> I s'"
  shows "\<exists>s'. ofold f xs s = Inr s' \<and> I s'"
  using assms
proof (induction xs arbitrary: s)
  case (Cons x xs)
  obtain s1 where s1: "f x s = Inr s1" "I s1" using Cons.prems by force
  have "\<exists>s'. ofold f xs s1 = Inr s' \<and> I s'"
    using s1(2) Cons.prems(2) by (intro Cons.IH) auto
  then show ?case using s1(1) by simp
qed simp

text \<open>A loop that also marks what it has done: \<open>I done s\<close> with the elements visited so far.\<close>

lemma ofold_done:
  assumes "I {} s" "\<And>x s A. x \<in> set xs \<Longrightarrow> I A s \<Longrightarrow> \<exists>s'. f x s = Inr s' \<and> I (insert x A) s'"
  shows "\<exists>s'. ofold f xs s = Inr s' \<and> I (set xs) s'"
proof -
  have "\<exists>s'. ofold f ys s = Inr s' \<and> I (A \<union> set ys) s'" if "set ys \<subseteq> set xs" "I A s" for ys A s
    using that
  proof (induction ys arbitrary: A s)
    case (Cons y ys)
    obtain s1 where s1: "f y s = Inr s1" "I (insert y A) s1"
      using assms(2) [of y A s] Cons.prems by force
    have "\<exists>s'. ofold f ys s1 = Inr s' \<and> I (insert y A \<union> set ys) s'"
      using s1(2) Cons.prems(1) by (intro Cons.IH) auto
    then show ?case using s1(1) by simp
  qed simp
  from this [of xs "{}" s] show ?thesis using assms(1) by simp
qed

text \<open>\<^verbatim>\<open>Vec::pop\<close>: the last element and the rest.\<close>

definition vec_pop :: "'a list \<Rightarrow> ('a \<times> 'a list) option" where
  "vec_pop xs = (if xs = [] then None else Some (last xs, butlast xs))"

lemma vec_pop_snoc [simp]: "vec_pop (xs @ [x]) = Some (x, xs)"
  by (simp add: vec_pop_def)

lemma vec_pop_Nil [simp]: "vec_pop [] = None"
  by (simp add: vec_pop_def)

lemma vec_pop_single [simp]: "vec_pop [x] = Some (x, [])"
  by (simp add: vec_pop_def)

text \<open>
  Methods that take \<^verbatim>\<open>&mut self\<close>: the state after the call comes with the outcome,
  also when the call fails.
\<close>

definition sbind :: "('s \<Rightarrow> ('a, 'e) outcome \<times> 's) \<Rightarrow> ('a \<Rightarrow> 's \<Rightarrow> ('b, 'e) outcome \<times> 's)
    \<Rightarrow> 's \<Rightarrow> ('b, 'e) outcome \<times> 's" where
  "sbind m f s = (case m s of (Inl e, s') \<Rightarrow> (Inl e, s') | (Inr x, s') \<Rightarrow> f x s')"

fun smap :: "('a \<Rightarrow> 's \<Rightarrow> ('b, 'e) outcome \<times> 's) \<Rightarrow> 'a list \<Rightarrow> 's \<Rightarrow> ('b list, 'e) outcome \<times> 's" where
  "smap f [] s = (Inr [], s)"
| "smap f (x # xs) s = sbind (f x) (\<lambda>y. sbind (smap f xs) (\<lambda>ys s. (Inr (y # ys), s))) s"

lemma sbind_Inr: "m s = (Inr x, s') \<Longrightarrow> sbind m f s = f x s'"
  by (simp add: sbind_def)

lemma smap_map: "smap f (map g ys) s = smap (\<lambda>y. f (g y)) ys s"
  by (induction ys arbitrary: s) (auto simp: sbind_def split: prod.splits sum.splits)

lemma map_nth_upt: "b \<le> length xs \<Longrightarrow> map (nth xs) [a..<b] = drop a (take b xs)"
  by (rule nth_equalityI) auto

text \<open>A monadic map over calls that keep an invariant and return a given value.\<close>

lemma smap_ok:
  assumes "I s" and "\<And>x s. x \<in> set xs \<Longrightarrow> I s \<Longrightarrow> \<exists>s'. f x s = (Inr (g x), s') \<and> I s'"
  shows "\<exists>s'. smap f xs s = (Inr (map g xs), s') \<and> I s'"
  using assms
proof (induction xs arbitrary: s)
  case (Cons x xs)
  obtain s1 where s1: "f x s = (Inr (g x), s1)" "I s1" using Cons.prems by auto
  obtain s2 where "smap f xs s1 = (Inr (map g xs), s2)" "I s2"
    using Cons.IH [OF s1(2)] Cons.prems(2) by auto
  then show ?case using s1 by (simp add: sbind_def)
qed simp

section \<open>Integer operations of the standard library\<close>

definition checked_add :: "'a::len word \<Rightarrow> 'a word \<Rightarrow> 'a word option" where
  "checked_add a b = (if unat a + unat b < 2 ^ LENGTH('a) then Some (a + b) else None)"

definition checked_sub :: "'a::len word \<Rightarrow> 'a word \<Rightarrow> 'a word option" where
  "checked_sub a b = (if b \<le> a then Some (a - b) else None)"

definition checked_mul :: "'a::len word \<Rightarrow> 'a word \<Rightarrow> 'a word option" where
  "checked_mul a b = (if unat a * unat b < 2 ^ LENGTH('a) then Some (a * b) else None)"

definition checked_div :: "'a::len word \<Rightarrow> 'a word \<Rightarrow> 'a word option" where
  "checked_div a b = (if b = 0 then None else Some (a div b))"

definition saturating_add :: "'a::len word \<Rightarrow> 'a word \<Rightarrow> 'a word" where
  "saturating_add a b = (if unat a + unat b < 2 ^ LENGTH('a) then a + b else - 1)"

definition saturating_sub :: "'a::len word \<Rightarrow> 'a word \<Rightarrow> 'a word" where
  "saturating_sub a b = (if b \<le> a then a - b else 0)"

text \<open>Shifts: the amount is reduced modulo the width.\<close>

definition shl :: "'a::len word \<Rightarrow> nat \<Rightarrow> 'a word" where
  "shl a n = push_bit (n mod LENGTH('a)) a"

definition shr :: "'a::len word \<Rightarrow> nat \<Rightarrow> 'a word" where
  "shr a n = drop_bit (n mod LENGTH('a)) a"

definition trailing_zeros :: "'a::len word \<Rightarrow> nat" where
  "trailing_zeros a = length (takeWhile (\<lambda>i. \<not> bit a i) [0..<LENGTH('a)])"

definition leading_zeros :: "'a::len word \<Rightarrow> nat" where
  "leading_zeros a = length (takeWhile (\<lambda>i. \<not> bit a i) (rev [0..<LENGTH('a)]))"

definition count_ones :: "'a::len word \<Rightarrow> nat" where
  "count_ones a = length (filter (bit a) [0..<LENGTH('a)])"

lemma checked_add_SomeD: "checked_add a b = Some c \<Longrightarrow> c = a + b \<and> unat c = unat a + unat b"
  by (auto simp: checked_add_def unat_word_ariths split: if_splits)

lemma unat_saturating_add:
  "unat (saturating_add a b) = min (unat a + unat b) (2 ^ LENGTH('a) - 1)"
  for a b :: "'a::len word"
  by (auto simp: saturating_add_def unat_word_ariths unsigned_minus_1_eq_mask mask_eq_exp_minus_1)

lemma unat_saturating_sub: "unat (saturating_sub a b) = unat a - unat b"
  by (auto simp: saturating_sub_def unat_sub word_le_nat_alt)

section \<open>Words\<close>

lemma unat_of_nat_eq: "n < 2 ^ LENGTH('a) \<Longrightarrow> unat (word_of_nat n :: 'a::len word) = n"
  by (simp add: unat_of_nat)

lemma word_of_nat_eq_0: "n < 2 ^ LENGTH('a) \<Longrightarrow> (word_of_nat n :: 'a::len word) = 0 \<longleftrightarrow> n = 0"
  using unat_of_nat_eq [of n, where 'a = 'a] by auto

lemma unat_exp: "n < LENGTH('a) \<Longrightarrow> unat (2 ^ n :: 'a::len word) = 2 ^ n"
  using unat_of_nat_eq [of "2 ^ n", where 'a = 'a] by simp

lemma takeWhile_upt_first:
  "m < n \<Longrightarrow> (\<And>i. i < m \<Longrightarrow> P i) \<Longrightarrow> \<not> P m \<Longrightarrow> length (takeWhile P [0..<n]) = m"
proof -
  assume a: "m < n" "\<And>i. i < m \<Longrightarrow> P i" "\<not> P m"
  have "[0..<n] = [0..<m] @ m # [Suc m..<n]"
    using a(1) upt_add_eq_append [of 0 m "n - m"] by (simp add: upt_conv_Cons)
  then show ?thesis using a(2,3) by (simp add: takeWhile_append)
qed

lemma trailing_zeros_eqI:
  "n < LENGTH('a) \<Longrightarrow> (\<And>i. i < n \<Longrightarrow> \<not> bit a i) \<Longrightarrow> bit a n \<Longrightarrow> trailing_zeros a = n"
  for a :: "'a::len word"
  unfolding trailing_zeros_def by (rule takeWhile_upt_first) auto

lemma bit_nat_div2: "bit ((p::nat) div 2) k \<longleftrightarrow> bit p (Suc k)"
  by (simp add: bit_Suc)

lemma bit_nat_Suc_double: "bit (Suc (2 * p)) k \<longleftrightarrow> k = 0 \<or> bit p (k - 1)"
  by (cases k) (simp_all add: bit_Suc bit_0)

lemma bit_nat_Suc_even: "even (p::nat) \<Longrightarrow> bit (Suc p) k \<longleftrightarrow> k = 0 \<or> bit p k"
  using even_bit_succ_iff [of p k] by auto

lemma bit_nat_pred_odd: "odd (p::nat) \<Longrightarrow> bit (p - Suc 0) k \<longleftrightarrow> k \<noteq> 0 \<and> bit p k"
  by (cases k) (auto elim!: oddE simp: bit_Suc bit_0)

lemma bit_nat_mult_exp: "bit ((p::nat) * 2 ^ l) k \<longleftrightarrow> l \<le> k \<and> bit p (k - l)"
  by (simp add: bit_simps flip: push_bit_eq_mult)

lemmas bit_nat_simps =
  bit_nat_div2 bit_nat_Suc_double bit_nat_Suc_even bit_nat_pred_odd bit_nat_mult_exp

lemma word_clear_bit: "bit w m \<Longrightarrow> w AND NOT (2 ^ m) = w - 2 ^ m" for w :: "'a::len word"
proof -
  assume b: "bit w m"
  have "(w AND NOT (2 ^ m)) + 2 ^ m = (w AND NOT (2 ^ m)) OR 2 ^ m"
    by (rule disjunctive_add_eq_or) (auto intro!: bit_eqI simp: bit_simps)
  also have "\<dots> = w" using b by (auto intro!: bit_eqI simp: bit_simps)
  finally show ?thesis by (simp add: algebra_simps)
qed

lemma shl_less: "n < LENGTH('a) \<Longrightarrow> shl a n = push_bit n a" for a :: "'a::len word"
  by (simp add: shl_def)

lemma shr_less: "n < LENGTH('a) \<Longrightarrow> shr a n = drop_bit n a" for a :: "'a::len word"
  by (simp add: shr_def)

lemma bit_shl:
  "n < LENGTH('a) \<Longrightarrow> bit (shl a n) i \<longleftrightarrow> n \<le> i \<and> i < LENGTH('a) \<and> bit a (i - n)"
  for a :: "'a::len word"
  by (simp add: shl_less bit_push_bit_iff)

lemma bit_shr: "n < LENGTH('a) \<Longrightarrow> bit (shr a n) i \<longleftrightarrow> bit a (n + i)" for a :: "'a::len word"
  by (simp add: shr_less bit_drop_bit_eq)

lemma shl_one: "n < LENGTH('a) \<Longrightarrow> shl (1 :: 'a::len word) n = 2 ^ n"
  by (simp add: shl_less push_bit_eq_mult)

section \<open>Bit length\<close>

text \<open>The number of binary digits of a natural number.\<close>

fun blen :: "nat \<Rightarrow> nat" where
  "blen n = (if n = 0 then 0 else Suc (blen (n div 2)))"

declare blen.simps [simp del]

lemma blen_0 [simp]: "blen 0 = 0"
  by (simp add: blen.simps)

lemma blen_pos: "0 < n \<Longrightarrow> blen n = Suc (blen (n div 2))"
  by (simp add: blen.simps [of n])

lemma blen_eq_0 [simp]: "blen n = 0 \<longleftrightarrow> n = 0"
  by (cases "n = 0") (simp_all add: blen_pos)

lemma blen_le_iff: "blen n \<le> L \<longleftrightarrow> n < 2 ^ L"
proof (induction n arbitrary: L rule: blen.induct)
  case (1 n)
  show ?case
  proof (cases "n = 0 \<or> L = 0")
    case False
    then obtain K where K: "L = Suc K" "0 < n" by (cases L) auto
    have "blen n \<le> L \<longleftrightarrow> n div 2 < 2 ^ K"
      using K 1 by (simp add: blen_pos)
    also have "\<dots> \<longleftrightarrow> n < 2 ^ L" using K by auto
    finally show ?thesis .
  qed auto
qed

lemma less_exp_blen: "n < 2 ^ blen n"
  by (simp flip: blen_le_iff)

lemma exp_blen_le: "0 < n \<Longrightarrow> 2 ^ (blen n - 1) \<le> n"
  using blen_le_iff [of n "blen n - 1"] blen_eq_0 [of n] by linarith

lemma blen_unat: "blen (unat w) \<le> LENGTH('a)" for w :: "'a::len word"
  unfolding blen_le_iff by (rule unsigned_less)

lemma bit_blen: "blen n \<le> i \<Longrightarrow> \<not> bit n i" for n :: nat
  by (simp add: bit_iff_odd blen_le_iff)

lemma bit_blen_pred: "0 < n \<Longrightarrow> bit n (blen n - 1)"
proof -
  assume n: "0 < n"
  let ?m = "blen n - 1"
  have "n < 2 ^ ?m * 2"
    using less_exp_blen [of n] n by (cases "blen n") auto
  then have "n div 2 ^ ?m = 1"
    using exp_blen_le [OF n] by (intro div_nat_eqI) auto
  then show ?thesis by (simp add: bit_iff_odd)
qed

lemma blen_eqI: "2 ^ m \<le> n \<Longrightarrow> n < 2 ^ Suc m \<Longrightarrow> blen n = Suc m"
  by (metis blen_le_iff le_antisym not_less not_less_eq_eq)

lemma leading_zeros_blen: "leading_zeros a = LENGTH('a) - blen (unat a)"
  for a :: "'a::len word"
proof -
  let ?n = "LENGTH('a)" and ?b = "blen (unat a)"
  have b: "?b \<le> ?n" by (simp add: blen_le_iff)
  have split: "[0..<?n] = [0..<?b] @ [?b..<?n]"
    using b upt_add_eq_append [of 0 ?b "?n - ?b"] by simp
  have high: "takeWhile (\<lambda>i. \<not> bit a i) (rev [?b..<?n]) = rev [?b..<?n]"
    using bit_blen [of "unat a"] by (simp add: bit_unsigned_iff)
  have low: "takeWhile (\<lambda>i. \<not> bit a i) (rev [0..<?b]) = []"
  proof (cases "?b = 0")
    case False
    then have "bit a (?b - 1)" using bit_blen_pred [of "unat a"] by (simp add: bit_unsigned_iff)
    then show ?thesis using False by (cases ?b) simp_all
  qed simp
  have "leading_zeros a = length (takeWhile (\<lambda>i. \<not> bit a i) (rev ([0..<?b] @ [?b..<?n])))"
    by (simp only: leading_zeros_def split)
  also have "\<dots> = ?n - ?b"
    using high low by (simp only: rev_append takeWhile_append) simp
  finally show ?thesis .
qed

text \<open>The positions of the ones in a number's binary digits, highest first.\<close>

fun ones :: "nat \<Rightarrow> nat list" where
  "ones n = (if n = 0 then [] else map Suc (ones (n div 2)) @ (if odd n then [0] else []))"

declare ones.simps [simp del]

lemma ones_0 [simp]: "ones 0 = []"
  by (simp add: ones.simps)

lemma ones_even: "ones (2 * n) = map Suc (ones n)"
  by (cases "n = 0") (simp_all add: ones.simps [of "2 * n"])

lemma ones_odd: "ones (Suc (2 * n)) = map Suc (ones n) @ [0]"
  by (subst ones.simps) simp

lemma set_ones: "i \<in> set (ones n) \<longleftrightarrow> bit n i"
proof (induction n arbitrary: i rule: ones.induct)
  case (1 n)
  show ?case
  proof (cases "n = 0")
    case False
    then have "i \<in> set (ones n) \<longleftrightarrow> (\<exists>k. i = Suc k \<and> bit (n div 2) k) \<or> (i = 0 \<and> odd n)"
      using 1 by (subst ones.simps) auto
    then show ?thesis by (cases i) (auto simp: bit_Suc bit_0)
  qed simp
qed

lemma ones_high: "0 < n \<Longrightarrow> ones n = (blen n - 1) # ones (n - 2 ^ (blen n - 1))"
proof (induction n rule: ones.induct)
  case (1 n)
  show ?case
  proof (cases "n = 1")
    case True
    then show ?thesis by (simp add: ones.simps [of "Suc 0"] blen_pos)
  next
    case False
    let ?h = "n div 2"
    have h: "0 < ?h" using 1(2) False by auto
    obtain m where m: "blen ?h = Suc m" using h by (cases "blen ?h") auto
    have n: "blen n - 1 = Suc m" using 1(2) m by (simp add: blen_pos [of n])
    have le: "2 ^ m \<le> ?h" using exp_blen_le [OF h] m by simp
    have "ones n = map Suc (ones ?h) @ (if odd n then [0] else [])"
      using 1(2) by (subst ones.simps) simp
    also have "ones ?h = m # ones (?h - 2 ^ m)" using 1(1) 1(2) h m by simp
    also have "map Suc (m # ones (?h - 2 ^ m)) @ (if odd n then [0] else []) =
        Suc m # ones (n - 2 ^ Suc m)"
    proof (cases "odd n")
      case True
      then have "n - 2 ^ Suc m = Suc (2 * (?h - 2 ^ m))" using le by (auto elim!: oddE)
      then show ?thesis using True by (simp add: ones_odd del: power_Suc)
    next
      case False
      then have "n - 2 ^ Suc m = 2 * (?h - 2 ^ m)" by auto
      then show ?thesis using False by (simp add: ones_even del: power_Suc)
    qed
    finally show ?thesis by (simp only: n)
  qed
qed

lemma ones_exp: "ones (2 ^ L) = [L]"
proof (induction L)
  case (Suc L)
  then show ?case by (simp add: ones_even)
qed (use ones_odd [of 0] in simp)

lemma ones_eq_Nil: "ones n = [] \<longleftrightarrow> n = 0"
  using ones_high [of n] by (cases "n = 0") auto

lemma ones_single: "ones n = [x] \<Longrightarrow> n = 2 ^ x"
proof -
  assume a: "ones n = [x]"
  then have n: "0 < n" by (cases "n = 0") auto
  have "x = blen n - 1" "ones (n - 2 ^ x) = []" using a ones_high [OF n] by auto
  then show "n = 2 ^ x" using exp_blen_le [OF n] by (simp add: ones_eq_Nil)
qed

section \<open>Trailing ones and trailing zeros\<close>

text \<open>The number of trailing ones.\<close>

function tones :: "nat \<Rightarrow> nat" where
  "tones n = (if odd n then Suc (tones (n div 2)) else 0)"
  by pat_completeness auto

termination
  by (relation "measure id") (auto elim!: oddE)

declare tones.simps [simp del]

lemma exp_tones_le: "2 ^ tones n \<le> n + 1"
proof (induction n rule: tones.induct)
  case (1 n)
  show ?case
  proof (cases "odd n")
    case True
    then show ?thesis using 1 by (subst tones.simps) (auto elim!: oddE)
  qed (simp add: tones.simps)
qed

lemma bit_tones: "i < tones n \<Longrightarrow> bit n i"
proof (induction n arbitrary: i rule: tones.induct)
  case (1 n)
  then show ?case
    by (cases i; cases "odd n") (auto simp: tones.simps [of n] bit_0 bit_Suc)
qed

lemma not_bit_tones: "\<not> bit n (tones n)"
proof (induction n rule: tones.induct)
  case (1 n)
  then show ?case by (cases "odd n") (auto simp: tones.simps [of n] bit_0 bit_Suc)
qed

lemma trailing_ones_eq:
  assumes "n + 1 < 2 ^ 64"
  shows "trailing_zeros (NOT (word_of_nat n) :: u64) = tones n"
proof (rule trailing_zeros_eqI)
  have "2 ^ tones n < (2 ^ 64 :: nat)" using exp_tones_le [of n] assms by linarith
  then show len: "tones n < LENGTH(64)" by (simp only: power_strict_increasing_iff) simp
  show "bit (NOT (word_of_nat n) :: u64) (tones n)"
    using not_bit_tones len by (simp add: bit_simps)
qed (auto simp: bit_simps dest: bit_tones)

text \<open>The number of trailing zeros, and the odd factor they leave.\<close>

fun tzeros :: "nat \<Rightarrow> nat" where
  "tzeros n = (if n = 0 \<or> odd n then 0 else Suc (tzeros (n div 2)))"

declare tzeros.simps [simp del]

lemma tzeros_odd: "odd m \<Longrightarrow> tzeros (m * 2 ^ t) = t"
proof (induction t)
  case (Suc t)
  have "m \<noteq> 0" using Suc.prems by (cases m) auto
  then show ?case using Suc by (subst tzeros.simps) (simp add: mult.left_commute)
qed (simp add: tzeros.simps)

lemma tzeros_factor: "0 < n \<Longrightarrow> odd (n div 2 ^ tzeros n) \<and> n = n div 2 ^ tzeros n * 2 ^ tzeros n"
proof (induction n rule: tzeros.induct)
  case (1 n)
  show ?case
  proof (cases "odd n")
    case False
    let ?t = "tzeros (n div 2)"
    have t: "tzeros n = Suc ?t" using False 1(2) by (subst tzeros.simps) simp
    have n: "n = 2 * (n div 2)" "0 < n div 2" using False 1(2) by auto
    have IH: "odd (n div 2 div 2 ^ ?t)" "n div 2 = n div 2 div 2 ^ ?t * 2 ^ ?t"
      using 1(1) [OF _ n(2)] False 1(2) by blast+
    have "n = 2 * (n div 2 div 2 ^ ?t * 2 ^ ?t)" using n(1) IH(2) by presburger
    then have "n = n div 2 ^ Suc ?t * 2 ^ Suc ?t" by (simp add: div_mult2_eq)
    then show ?thesis using IH(1) by (simp add: t div_mult2_eq)
  qed (simp add: tzeros.simps)
qed

lemma tzeros_exp_le: "0 < n \<Longrightarrow> 2 ^ t dvd n \<Longrightarrow> t \<le> tzeros n"
proof (induction n arbitrary: t rule: tzeros.induct)
  case (1 n)
  show ?case
  proof (cases t)
    case (Suc u)
    then have e: "even n" and u: "2 ^ u dvd n div 2" using 1(3) by auto
    then have "u \<le> tzeros (n div 2)" using 1(1) [of u] 1(2) by auto
    then show ?thesis using Suc e 1(2) by (subst tzeros.simps) simp
  qed simp
qed

lemma odd_factor:
  assumes "0 < (n::nat)"
  obtains m t where "n = m * 2 ^ t" and "odd m"
  using tzeros_factor [OF assms] by blast

lemma trailing_zeros_odd_factor:
  assumes "m * 2 ^ t < 2 ^ 64" and "odd m"
  shows "trailing_zeros (word_of_nat (m * 2 ^ t) :: u64) = t" and "t < 64" and "m < 2 ^ 64"
proof -
  have m: "0 < m" using assms(2) by (cases m) auto
  have "2 ^ t \<le> m * 2 ^ t" "m \<le> m * 2 ^ t" using m by simp_all
  then have "2 ^ t < (2 ^ 64 :: nat)" and "m < 2 ^ 64" using assms(1) by (blast intro: le_less_trans)+
  then show t: "t < 64" and "m < 2 ^ 64" using power_strict_increasing_iff [of "2::nat" t 64] by simp_all
  show "trailing_zeros (word_of_nat (m * 2 ^ t) :: u64) = t"
  proof (rule trailing_zeros_eqI)
    show "t < LENGTH(64)" using t by simp
    show "\<not> bit (word_of_nat (m * 2 ^ t) :: u64) i" if "i < t" for i
      using that by (simp add: bit_of_nat_iff bit_nat_mult_exp del: of_nat_mult)
    show "bit (word_of_nat (m * 2 ^ t) :: u64) t"
      using t assms(2) by (simp add: bit_of_nat_iff bit_nat_mult_exp bit_0 del: of_nat_mult)
  qed
qed

lemma shr_odd_factor:
  assumes "m * 2 ^ t < 2 ^ 64" and "odd m"
  shows "shr (word_of_nat (m * 2 ^ t) :: u64) t = word_of_nat m"
proof (rule word_unat_eq_iff [THEN iffD2])
  note f = trailing_zeros_odd_factor(2,3) [OF assms]
  have "unat (drop_bit t (word_of_nat (m * 2 ^ t) :: u64)) = drop_bit t (m * 2 ^ t)"
    using assms(1) by (simp add: unsigned_drop_bit_eq take_bit_nat_eq_self unat_of_nat_eq del: of_nat_mult)
  then show "unat (shr (word_of_nat (m * 2 ^ t) :: u64) t) = unat (word_of_nat m :: u64)"
    using f by (simp add: shr_less drop_bit_eq_div unat_of_nat_eq del: of_nat_mult)
qed

lemma trailing_zeros_eq:
  assumes "0 < n" and "n < 2 ^ 64"
  shows "trailing_zeros (word_of_nat n :: u64) = tzeros n" and "tzeros n < 64"
  using tzeros_factor [OF assms(1)] trailing_zeros_odd_factor [of "n div 2 ^ tzeros n" "tzeros n"]
    assms(2) by auto

lemma tzeros_next: "tzeros ((m + 1) * 2 ^ t) = t + tones m"
proof (induction m arbitrary: t rule: tones.induct)
  case (1 m)
  show ?case
  proof (cases "odd m")
    case True
    then obtain q where q: "m = Suc (2 * q)" by (auto elim!: oddE)
    have "(m + 1) * 2 ^ t = (q + 1) * 2 ^ Suc t" by (simp add: q algebra_simps)
    then have "tzeros ((m + 1) * 2 ^ t) = Suc t + tones q"
      using 1 [of "Suc t"] True q by (simp only:) simp
    then show ?thesis by (simp add: q tones.simps [of "Suc (2 * q)"])
  next
    case False
    then show ?thesis using tzeros_odd [of "m + 1" t] by (simp add: tones.simps [of m])
  qed
qed

lemma ones_add: "r < 2 ^ t \<Longrightarrow> ones (m * 2 ^ t + r) = ones (m * 2 ^ t) @ ones r"
proof (induction t arbitrary: r)
  case (Suc t)
  let ?h = "r div 2"
  have IH: "ones (m * 2 ^ t + ?h) = ones (m * 2 ^ t) @ ones ?h" using Suc by auto
  have m: "m * 2 ^ Suc t = 2 * (m * 2 ^ t)" by simp
  show ?case
  proof (cases "odd r")
    case True
    then have r: "r = Suc (2 * ?h)" by simp
    then have e: "m * 2 ^ Suc t + r = Suc (2 * (m * 2 ^ t + ?h))" by (simp add: algebra_simps)
    have "ones r = map Suc (ones ?h) @ [0]" using ones_odd [of ?h] r by simp
    then show ?thesis unfolding e by (simp only: m ones_odd ones_even IH map_append append_assoc)
  next
    case False
    then have r: "r = 2 * ?h" by simp
    then have e: "m * 2 ^ Suc t + r = 2 * (m * 2 ^ t + ?h)" by (simp add: algebra_simps)
    have "ones r = map Suc (ones ?h)" using ones_even [of ?h] r by simp
    then show ?thesis unfolding e by (simp only: m ones_even IH map_append)
  qed
qed simp

lemma unat_shr_one: "unat (shr bm (Suc 0)) = unat bm div 2" for bm :: u64
  by (simp add: shr_less drop_bit_eq_div unat_div_distrib)

lemma even_word_of_nat: "(word_of_nat n :: u64) AND 1 \<noteq> 0 \<longleftrightarrow> odd n"
proof -
  have "(word_of_nat n :: u64) AND 1 \<noteq> 0 \<longleftrightarrow> bit (word_of_nat n :: u64) 0"
    by (simp add: and_one_eq mod_2_eq_odd bit_0)
  then show ?thesis by (simp add: bit_simps) (simp add: bit_0)
qed

lemma shr_word_of_nat: "n < 2 ^ 64 \<Longrightarrow> shr (word_of_nat n :: u64) (Suc 0) = word_of_nat (n div 2)"
  by (rule word_unat_eq_iff [THEN iffD2])
    (simp add: unat_shr_one unat_of_nat_eq)

lemma count_ones_eq: "count_ones w = length (ones (unat w))" for w :: "'a::len word"
proof -
  have d: "distinct (ones n)" for n
    by (induction n rule: ones.induct) (subst ones.simps, auto simp: distinct_map)
  have "count_ones w = card (set (filter (bit w) [0..<LENGTH('a)]))"
    unfolding count_ones_def by (rule distinct_card [symmetric]) simp
  also have "set (filter (bit w) [0..<LENGTH('a)]) = set (ones (unat w))"
    by (auto simp: set_ones bit_unsigned_iff dest: bit_imp_le_length)
  also have "card (set (ones (unat w))) = length (ones (unat w))"
    by (rule distinct_card [OF d])
  finally show ?thesis .
qed

end
