(* ===== verification/Node_Index.thy ===== *)
theory Node_Index
  imports Prelude
begin

text \<open>
  The in-order numbering of the accumulator tree, \<^verbatim>\<open>node_index.rs\<close>: a node at level
  \<open>l\<close> (leaves are level 0) and position \<open>p\<close> on its level has the number whose binary
  digits are those of \<open>p\<close>, a zero, and \<open>l\<close> ones. The code computes levels, parents,
  children, siblings and frozen subtrees by bit manipulation on that number; the
  lemmas here relate each of these to the coordinates \<open>(l, p)\<close>. The children of an index
  are asserted by \<^verbatim>\<open>checked_precondition!\<close> to be taken of an inner node only; the functions here
  are total, and every statement about children is for a level above 0.
\<close>

section \<open>Definitions\<close>

type_synonym NodeIndex = u64
type_synonym LeafCount = u64
type_synonym NodeCount = u64

datatype NodeDirection = Left | Right

definition MAX_ACCUMULATOR_PROOF_DEPTH :: nat where
  "MAX_ACCUMULATOR_PROOF_DEPTH = 63"

definition MAX_ACCUMULATOR_LEAVES :: LeafCount where
  "MAX_ACCUMULATOR_LEAVES = shl 1 MAX_ACCUMULATOR_PROOF_DEPTH"

definition NODE_ERROR_INDEX :: NodeIndex where
  "NODE_ERROR_INDEX = - 1"

definition smear_ones_for_u64 :: "u64 \<Rightarrow> u64" where
  "smear_ones_for_u64 v =
     (let n = v;
          n = n OR shr n 1;
          n = n OR shr n 2;
          n = n OR shr n 4;
          n = n OR shr n 8;
          n = n OR shr n 16;
          n = n OR shr n 32
      in n)"

definition isolate_rightmost_zero_bit :: "u64 \<Rightarrow> u64" where
  "isolate_rightmost_zero_bit v = NOT v AND (v + 1)"

definition turn_off_right_most_n_bits :: "u64 \<Rightarrow> nat \<Rightarrow> u64" where
  "turn_off_right_most_n_bits v n = shl (shr v n) n"

definition is_leaf :: "NodeIndex \<Rightarrow> bool" where
  "is_leaf i \<longleftrightarrow> i AND 1 = 0"

definition level :: "NodeIndex \<Rightarrow> nat" where
  "level i = trailing_zeros (NOT i)"

definition from_level_and_pos :: "nat \<Rightarrow> u64 \<Rightarrow> NodeIndex" where
  "from_level_and_pos lvl pos =
     (let level_one_bits = shl 1 lvl - 1;
          shifted_pos = shl pos (lvl + 1)
      in shifted_pos OR level_one_bits)"

definition from_leaf_index :: "u64 \<Rightarrow> NodeIndex" where
  "from_leaf_index leaf_index = from_level_and_pos 0 leaf_index"

definition left_most_child :: "NodeIndex \<Rightarrow> NodeIndex" where
  "left_most_child i = turn_off_right_most_n_bits i (level i)"

definition right_most_child :: "NodeIndex \<Rightarrow> NodeIndex" where
  "right_most_child i = i + shl 1 (level i) - 1"

definition is_freezable :: "NodeIndex \<Rightarrow> u64 \<Rightarrow> bool" where
  "is_freezable i leaf_index \<longleftrightarrow> right_most_child i \<le> from_leaf_index leaf_index"

definition root_from_leaf_index :: "u64 \<Rightarrow> NodeIndex" where
  "root_from_leaf_index leaf_index = shr (smear_ones_for_u64 (from_leaf_index leaf_index)) 1"

definition root_from_leaf_count :: "LeafCount \<Rightarrow> (NodeIndex, 'e) outcome" where
  "root_from_leaf_count leaf_count =
     obind (assert_that (leaf_count > 0)) (\<lambda>_. Inr (root_from_leaf_index (leaf_count - 1)))"

definition root_level_from_leaf_count :: "LeafCount \<Rightarrow> (nat, 'e) outcome" where
  "root_level_from_leaf_count leaf_count =
     obind (assert_that (leaf_count > 0))
       (\<lambda>_. Inr (MAX_ACCUMULATOR_PROOF_DEPTH + 1 - leading_zeros (leaf_count - 1)))"

definition leaves_count_end_from_index :: "u64 \<Rightarrow> u64" where
  "leaves_count_end_from_index leaf_index =
     fold (\<lambda>index count. if is_leaf (word_of_nat index) then count + 1 else count)
       [0..<unat leaf_index] 0"

definition is_placeholder :: "NodeIndex \<Rightarrow> u64 \<Rightarrow> bool" where
  "is_placeholder i leaf_index =
     (let leaf = from_leaf_index leaf_index
      in if i \<le> leaf then False
         else if left_most_child i \<le> leaf then False
         else True)"

definition parent :: "NodeIndex \<Rightarrow> NodeIndex" where
  "parent i = (i OR isolate_rightmost_zero_bit i) AND NOT (shl (isolate_rightmost_zero_bit i) 1)"

definition child :: "NodeIndex \<Rightarrow> NodeDirection \<Rightarrow> NodeIndex" where
  "child i dir =
     (let direction_bit = (case dir of Left \<Rightarrow> 0 | Right \<Rightarrow> isolate_rightmost_zero_bit i)
      in (i OR direction_bit) AND NOT (shr (isolate_rightmost_zero_bit i) 1))"

definition left_child :: "NodeIndex \<Rightarrow> NodeIndex" where
  "left_child i = child i Left"

definition right_child :: "NodeIndex \<Rightarrow> NodeIndex" where
  "right_child i = child i Right"

definition sibling :: "NodeIndex \<Rightarrow> NodeIndex" where
  "sibling i = i XOR shl (isolate_rightmost_zero_bit i) 1"

definition is_left_child :: "NodeIndex \<Rightarrow> bool" where
  "is_left_child i \<longleftrightarrow> i AND shl (isolate_rightmost_zero_bit i) 1 = 0"

definition is_right_child :: "NodeIndex \<Rightarrow> bool" where
  "is_right_child i \<longleftrightarrow> \<not> is_left_child i"

text \<open>
  The iterators: their state as a record, \<^verbatim>\<open>next\<close> as a function that returns the item
  and the advanced iterator. The frozen-subtree iterators are collected by running
  \<^verbatim>\<open>next\<close> until it returns \<^verbatim>\<open>None\<close>; the ancestor-sibling iterator never ends and is
  used through \<^verbatim>\<open>take\<close>.
\<close>

record FrozenSubTreeIterator =
  bitmap :: u64
  seen_leaves :: u64

definition frozen_subtree_iter_new :: "LeafCount \<Rightarrow> FrozenSubTreeIterator" where
  "frozen_subtree_iter_new num_leaves = \<lparr>bitmap = num_leaves, seen_leaves = 0\<rparr>"

definition frozen_subtree_next ::
  "FrozenSubTreeIterator \<Rightarrow> (NodeIndex \<times> FrozenSubTreeIterator) option" where
  "frozen_subtree_next it =
     (if bitmap it = 0 then None
      else
        let root_offset = shr (smear_ones_for_u64 (bitmap it)) 1;
            num_leaves = root_offset + 1;
            leftmost_leaf = from_leaf_index (seen_leaves it);
            root = leftmost_leaf + root_offset
        in Some (root, it\<lparr>bitmap := bitmap it AND NOT num_leaves,
                          seen_leaves := seen_leaves it + num_leaves\<rparr>))"

record AncestorSiblingIterator =
  node_index :: NodeIndex

definition iter_ancestor_sibling :: "NodeIndex \<Rightarrow> AncestorSiblingIterator" where
  "iter_ancestor_sibling i = \<lparr>node_index = i\<rparr>"

definition ancestor_sibling_next ::
  "AncestorSiblingIterator \<Rightarrow> NodeIndex \<times> AncestorSiblingIterator" where
  "ancestor_sibling_next it =
     (sibling (node_index it), it\<lparr>node_index := parent (node_index it)\<rparr>)"

fun ancestor_sibling_take :: "nat \<Rightarrow> AncestorSiblingIterator \<Rightarrow> NodeIndex list" where
  "ancestor_sibling_take 0 it = []"
| "ancestor_sibling_take (Suc n) it =
     (case ancestor_sibling_next it of (i, it') \<Rightarrow> i # ancestor_sibling_take n it')"

record FrozenSubtreeSiblingIterator =
  current_num_leaves :: LeafCount
  remaining_new_leaves :: LeafCount

definition frozen_sibling_iter_new ::
  "LeafCount \<Rightarrow> LeafCount \<Rightarrow> (FrozenSubtreeSiblingIterator, 'e) outcome" where
  "frozen_sibling_iter_new cur new =
     obind (assert_that (new \<le> MAX_ACCUMULATOR_LEAVES)) (\<lambda>_.
     obind (assert_that (cur \<le> new)) (\<lambda>_.
     Inr \<lparr>current_num_leaves = cur, remaining_new_leaves = new - cur\<rparr>))"

definition next_new_leaf_batch :: "FrozenSubtreeSiblingIterator \<Rightarrow> LeafCount" where
  "next_new_leaf_batch it =
     shl 1 (MAX_ACCUMULATOR_PROOF_DEPTH - leading_zeros (remaining_new_leaves it))"

definition frozen_sibling_next ::
  "FrozenSubtreeSiblingIterator \<Rightarrow> (NodeIndex \<times> FrozenSubtreeSiblingIterator) option" where
  "frozen_sibling_next it =
     (if remaining_new_leaves it = 0 then None
      else
        let next_subtree_leaves =
              (if current_num_leaves it > 0
               then let rightmost = shl 1 (trailing_zeros (current_num_leaves it))
                    in if remaining_new_leaves it \<ge> rightmost then rightmost
                       else next_new_leaf_batch it
               else next_new_leaf_batch it);
            first_leaf_index = current_num_leaves it;
            last_leaf_index = first_leaf_index + next_subtree_leaves - 1
        in Some (first_leaf_index + last_leaf_index,
                 \<lparr>current_num_leaves = current_num_leaves it + next_subtree_leaves,
                  remaining_new_leaves = remaining_new_leaves it - next_subtree_leaves\<rparr>))"

section \<open>Coordinates\<close>

text \<open>The number of the node at level \<open>l\<close> and position \<open>p\<close>.\<close>

definition NI :: "nat \<Rightarrow> nat \<Rightarrow> NodeIndex" where
  "NI l p = push_bit (Suc l) (word_of_nat p) OR mask l"

lemma bit_NI: "bit (NI l p) i \<longleftrightarrow> i < 64 \<and> (i < l \<or> l < i \<and> bit p (i - Suc l))"
  by (auto simp: NI_def bit_simps Suc_le_eq simp del: push_bit_Suc)

lemma isolate_NI:
  assumes "l < 64"
  shows "isolate_rightmost_zero_bit (NI l p) = push_bit l 1"
proof -
  let ?q = "push_bit (Suc l) (word_of_nat p) :: u64"
  have "NI l p + 1 = ?q + (mask l + 1)"
    unfolding NI_def
    by (subst disjunctive_add_eq_or [symmetric])
      (auto intro!: bit_eqI simp: bit_simps simp del: push_bit_Suc)
  also have "\<dots> = ?q + push_bit l 1"
    by (simp add: inc_mask_eq_exp push_bit_eq_mult)
  also have "\<dots> = ?q OR push_bit l 1"
    by (subst disjunctive_add_eq_or) (auto intro!: bit_eqI simp: bit_simps simp del: push_bit_Suc)
  finally show ?thesis using assms
    by (auto intro!: bit_eqI simp: isolate_rightmost_zero_bit_def bit_NI bit_simps Suc_le_eq
        simp del: push_bit_Suc)
qed

lemma level_NI: "l < 64 \<Longrightarrow> level (NI l p) = l"
  unfolding level_def by (rule trailing_zeros_eqI) (auto simp: bit_NI bit_simps)

lemma from_level_and_pos_NI: "l < 63 \<Longrightarrow> from_level_and_pos l (word_of_nat p) = NI l p"
  by (simp add: from_level_and_pos_def NI_def Let_def mask_eq_exp_minus_1 shl_one)
    (simp add: shl_def)

lemma from_leaf_index_NI: "from_leaf_index (word_of_nat p) = NI 0 p"
  by (simp add: from_leaf_index_def from_level_and_pos_NI)

lemma bit_isolate_NI: "l < 64 \<Longrightarrow> bit (isolate_rightmost_zero_bit (NI l p)) n \<longleftrightarrow> n = l"
  by (auto simp: isolate_NI bit_simps)

lemma bit_shl_isolate_NI:
  "l < 63 \<Longrightarrow> bit (shl (isolate_rightmost_zero_bit (NI l p)) 1) n \<longleftrightarrow> n = Suc l"
  by (auto simp: bit_isolate_NI bit_shl)

lemma bit_shr_isolate_NI:
  "l < 63 \<Longrightarrow> bit (shr (isolate_rightmost_zero_bit (NI (Suc l) p)) 1) n \<longleftrightarrow> n = l"
  by (auto simp: bit_isolate_NI bit_shr)

lemmas NI_bits = bit_isolate_NI bit_shl_isolate_NI [simplified] bit_shr_isolate_NI [simplified] bit_NI bit_nat_simps
  bit_or_iff bit_and_iff bit_xor_iff bit_not_iff

lemma parent_NI: "l < 63 \<Longrightarrow> parent (NI l p) = NI (Suc l) (p div 2)"
  unfolding parent_def by (rule bit_eqI) (auto simp: NI_bits Suc_diff_Suc)

lemma left_child_NI: "l < 63 \<Longrightarrow> left_child (NI (Suc l) p) = NI l (2 * p)"
  unfolding left_child_def child_def Let_def
  by (rule bit_eqI) (auto simp: NI_bits bit_double_iff)

lemma right_child_NI: "l < 63 \<Longrightarrow> right_child (NI (Suc l) p) = NI l (2 * p + 1)"
  unfolding right_child_def child_def Let_def
  by (rule bit_eqI) (auto simp: NI_bits)

lemma sibling_NI: "l < 63 \<Longrightarrow> sibling (NI l p) = NI l (if even p then p + 1 else p - 1)"
  unfolding sibling_def by (rule bit_eqI) (auto simp: NI_bits bit_0)

lemma is_left_child_NI: "l < 63 \<Longrightarrow> is_left_child (NI l p) \<longleftrightarrow> even p"
  unfolding is_left_child_def bit_eq_iff by (auto simp: NI_bits bit_0 dest: spec [of _ "Suc l"])

lemma left_most_child_NI: "l < 64 \<Longrightarrow> left_most_child (NI l p) = NI 0 (p * 2 ^ l)"
  by (rule bit_eqI)
    (auto simp: left_most_child_def turn_off_right_most_n_bits_def level_NI NI_bits
      bit_shl bit_shr)

section \<open>Coordinates as numbers\<close>

text \<open>All leaves below the node are within the accumulator's \<open>2 ^ 63\<close> leaves.\<close>

definition valid :: "nat \<Rightarrow> nat \<Rightarrow> bool" where
  "valid l p \<longleftrightarrow> l < 64 \<and> p < 2 ^ (63 - l)"

lemma valid_level: "valid l p \<Longrightarrow> l < 64"
  by (simp add: valid_def)

lemma valid_bound: "valid l p \<Longrightarrow> (p + 1) * 2 ^ l \<le> 2 ^ 63"
proof -
  assume v: "valid l p"
  then have "p + 1 \<le> 2 ^ (63 - l)" by (simp add: valid_def)
  then have "(p + 1) * 2 ^ l \<le> 2 ^ (63 - l) * 2 ^ l" by (rule mult_le_mono1)
  also have "\<dots> = 2 ^ 63" using v by (simp add: valid_def flip: power_add)
  finally show ?thesis .
qed

lemma valid_boundI: "(p + 1) * 2 ^ l \<le> 2 ^ 63 \<Longrightarrow> valid l p"
proof -
  assume b: "(p + 1) * 2 ^ l \<le> 2 ^ 63"
  have "2 ^ l \<le> (p + 1) * 2 ^ l" by simp
  then have "(2::nat) ^ l \<le> 2 ^ 63" using b by linarith
  then have l: "l \<le> 63" by (simp only: power_increasing_iff)
  then have "(2::nat) ^ 63 = 2 ^ (63 - l) * 2 ^ l" by (simp flip: power_add)
  then have "p + 1 \<le> 2 ^ (63 - l)" using b by (simp only: mult_le_cancel2) auto
  then show ?thesis using l by (simp add: valid_def)
qed

lemma valid_leaf: "k < 2 ^ 63 \<Longrightarrow> valid 0 k"
  by (simp add: valid_def)

lemma NI_arith: "NI l p + 1 = word_of_nat ((2 * p + 1) * 2 ^ l)"
proof -
  have "NI l p = push_bit (Suc l) (word_of_nat p) + mask l"
    unfolding NI_def
    by (subst disjunctive_add_eq_or)
      (auto intro!: bit_eqI simp: bit_simps simp del: push_bit_Suc)
  then show ?thesis
    by (simp add: push_bit_eq_mult mask_eq_exp_minus_1 algebra_simps)
qed

lemma unat_NI:
  assumes "valid l p"
  shows "unat (NI l p) + 1 = (2 * p + 1) * 2 ^ l"
proof -
  let ?n = "(2 * p + 1) * 2 ^ l"
  have "?n < 2 * ((p + 1) * 2 ^ l)" by simp
  also have "\<dots> \<le> 2 ^ 64" using valid_bound [OF assms] by simp
  finally have n: "?n < 2 ^ 64" .
  have "NI l p = word_of_nat ?n - 1" using NI_arith [of l p] by (simp add: algebra_simps)
  also have "\<dots> = word_of_nat (?n - 1)" by (subst of_nat_diff) (simp_all add: Suc_le_eq)
  finally have "unat (NI l p) = ?n - 1" using n by (simp add: unat_of_nat_eq)
  moreover have "0 < ?n" by simp
  ultimately show ?thesis by linarith
qed

lemma NI_le:
  "valid l p \<Longrightarrow> valid k q \<Longrightarrow> NI l p \<le> NI k q \<longleftrightarrow> (2 * p + 1) * 2 ^ l \<le> (2 * q + 1) * 2 ^ k"
  using unat_NI [of l p] unat_NI [of k q] unfolding word_le_nat_alt by linarith

lemma exp_63_minus: "l < 63 \<Longrightarrow> (2::nat) ^ (63 - l) = 2 * 2 ^ (62 - l)"
  by (simp flip: power_Suc add: Suc_diff_le)

lemma valid_parent: "valid l p \<Longrightarrow> l < 63 \<Longrightarrow> valid (Suc l) (p div 2)"
  by (auto simp: valid_def exp_63_minus)

lemma valid_children: "valid (Suc l) p \<Longrightarrow> valid l (2 * p) \<and> valid l (2 * p + 1)"
  by (auto simp: valid_def exp_63_minus)

lemma right_most_child_NI:
  assumes "l < 64"
  shows "right_most_child (NI l p) = NI 0 ((p + 1) * 2 ^ l - 1)"
proof -
  have "right_most_child (NI l p) + 2 = (NI l p + 1) + 2 ^ l"
    using assms by (simp add: right_most_child_def level_NI shl_one)
  also have "\<dots> = word_of_nat (2 * ((p + 1) * 2 ^ l))"
    unfolding NI_arith by (simp add: algebra_simps)
  also have "\<dots> = NI 0 ((p + 1) * 2 ^ l - 1) + 2"
  proof -
    have "0 < (p + 1) * 2 ^ l" by simp
    then have "2 * ((p + 1) * 2 ^ l) = (2 * ((p + 1) * 2 ^ l - 1) + 1) * 2 ^ 0 + 1"
      unfolding power_0 mult_1_right by linarith
    also have "word_of_nat \<dots> = NI 0 ((p + 1) * 2 ^ l - 1) + 2"
      unfolding of_nat_add NI_arith [symmetric] by simp
    finally show ?thesis .
  qed
  finally show ?thesis by simp
qed

text \<open>The predicates on a node and the last leaf, read off the coordinates.\<close>

lemma is_placeholder_NI:
  assumes v: "valid l p" and k: "k < 2 ^ 63"
  shows "is_placeholder (NI l p) (word_of_nat k) \<longleftrightarrow> k < p * 2 ^ l"
proof -
  have "p * 2 ^ l < (p + 1) * 2 ^ l" by simp
  then have vl: "valid 0 (p * 2 ^ l)" using valid_bound [OF v] by (intro valid_leaf) linarith
  have "left_most_child (NI l p) = NI 0 (p * 2 ^ l)"
    using valid_level [OF v] by (rule left_most_child_NI)
  moreover have "2 * (p * 2 ^ l) + 1 \<le> (2 * p + 1) * 2 ^ l" by (simp add: algebra_simps)
  ultimately show ?thesis
    unfolding is_placeholder_def Let_def from_leaf_index_NI
    by (auto simp: NI_le v vl valid_leaf [OF k])
qed

lemma is_freezable_NI:
  assumes v: "valid l p" and k: "k < 2 ^ 63"
  shows "is_freezable (NI l p) (word_of_nat k) \<longleftrightarrow> (p + 1) * 2 ^ l \<le> k + 1"
proof -
  have "0 < (p + 1) * 2 ^ l" by simp
  moreover have "valid 0 ((p + 1) * 2 ^ l - 1)"
    using valid_bound [OF v] calculation by (intro valid_leaf) linarith
  ultimately show ?thesis
    unfolding is_freezable_def from_leaf_index_NI right_most_child_NI [OF valid_level [OF v]]
    by (auto simp: NI_le valid_leaf [OF k])
qed

lemma is_leaf_NI: "l < 64 \<Longrightarrow> is_leaf (NI l p) \<longleftrightarrow> l = 0"
  using bit_NI [of l p 0] by (auto simp: is_leaf_def and_one_eq bit_0 even_iff_mod_2_eq_zero)

lemma NI_inject:
  assumes "valid l p" "valid k q"
  shows "NI l p = NI k q \<longleftrightarrow> l = k \<and> p = q"
proof
  assume e: "NI l p = NI k q"
  then have lk: "l = k" using level_NI valid_level assms by metis
  then have "(2 * p + 1) * 2 ^ l = (2 * q + 1) * 2 ^ l" using e unat_NI assms by metis
  then show "l = k \<and> p = q" using lk by simp
qed simp

section \<open>Smearing and the root\<close>

text \<open>\<open>n\<close> has bit \<open>i\<close> set if \<open>v\<close> has one of the \<open>k\<close> bits from \<open>i\<close> on set.\<close>

definition smeared :: "nat \<Rightarrow> u64 \<Rightarrow> u64 \<Rightarrow> bool" where
  "smeared k v n \<longleftrightarrow> (\<forall>i. bit n i \<longleftrightarrow> (\<exists>j. i \<le> j \<and> j < i + k \<and> bit v j))"

lemma smeared_step:
  assumes n: "smeared k v n" and k: "k < 64" and m: "m = 2 * k"
  shows "smeared m v (n OR shr n k)"
proof -
  have split: "i \<le> j \<and> j < i + m \<longleftrightarrow> (i \<le> j \<and> j < i + k) \<or> (k + i \<le> j \<and> j < k + i + k)" for i j
    using m by linarith
  have "bit (n OR shr n k) i \<longleftrightarrow>
      (\<exists>j. i \<le> j \<and> j < i + k \<and> bit v j) \<or> (\<exists>j. k + i \<le> j \<and> j < k + i + k \<and> bit v j)" for i
    using n k by (simp add: bit_or_iff bit_shr smeared_def)
  then show ?thesis unfolding smeared_def using split by blast
qed

lemma bit_smear: "bit (smear_ones_for_u64 v) i \<longleftrightarrow> (\<exists>j\<ge>i. bit v j)"
proof -
  have 0: "smeared 1 v v"
    by (auto simp: smeared_def less_Suc_eq_le intro: le_antisym)
  have "smeared 64 v (smear_ones_for_u64 v)"
    unfolding smear_ones_for_u64_def Let_def
    by (rule smeared_step [where k = 32], rule smeared_step [where k = 16],
        rule smeared_step [where k = 8], rule smeared_step [where k = 4],
        rule smeared_step [where k = 2], rule smeared_step [OF 0]) simp_all
  then show ?thesis using bit_imp_le_length [of v] unfolding smeared_def by fastforce
qed

lemma smear_eq_mask: "smear_ones_for_u64 v = mask (blen (unat v))"
proof (rule bit_eqI)
  fix i
  have "(\<exists>j\<ge>i. bit v j) \<longleftrightarrow> i < blen (unat v)"
  proof
    assume "\<exists>j\<ge>i. bit v j"
    then obtain j where "i \<le> j" "bit (unat v) j"
      by (auto simp: bit_unsigned_iff dest: bit_imp_le_length)
    then show "i < blen (unat v)" using bit_blen [of "unat v" j] by linarith
  next
    assume i: "i < blen (unat v)"
    then have "bit v (blen (unat v) - 1)"
      using bit_blen_pred [of "unat v"] by (cases "unat v = 0") (auto simp: bit_unsigned_iff)
    moreover have "i \<le> blen (unat v) - 1" using i by simp
    ultimately show "\<exists>j\<ge>i. bit v j" by blast
  qed
  then show "bit (smear_ones_for_u64 v) i \<longleftrightarrow> bit (mask (blen (unat v)) :: u64) i"
    using blen_unat [of v] by (auto simp: bit_smear bit_mask_iff)
qed

text \<open>The level of the root over \<open>n\<close> leaves: the least \<open>L\<close> with \<open>n \<le> 2 ^ L\<close>.\<close>

definition rlevel :: "nat \<Rightarrow> nat" where
  "rlevel n = blen (n - 1)"

lemma rlevel_le_iff: "rlevel n \<le> L \<longleftrightarrow> n \<le> 2 ^ L"
  by (cases n) (auto simp: rlevel_def blen_le_iff)

lemma root_from_leaf_index_NI:
  assumes "k < 2 ^ 63"
  shows "root_from_leaf_index (word_of_nat k) = NI (blen k) 0"
proof -
  have "unat (NI 0 k) = 2 * k" using unat_NI [of 0 k] valid_leaf [OF assms] by simp
  then have "root_from_leaf_index (word_of_nat k) = shr (mask (blen (2 * k))) 1"
    by (simp add: root_from_leaf_index_def from_leaf_index_NI smear_eq_mask)
  also have "blen (2 * k) = (if k = 0 then 0 else Suc (blen k))" by (simp add: blen_pos)
  also have "shr (mask \<dots>) 1 = (mask (blen k) :: u64)"
    using assms blen_le_iff [of k 63]
    by (auto intro!: bit_eqI simp: bit_shr [simplified] bit_mask_iff)
  finally show ?thesis by (simp add: NI_def)
qed

lemma root_from_leaf_count_NI:
  "0 < n \<Longrightarrow> n \<le> 2 ^ 63 \<Longrightarrow> root_from_leaf_count (word_of_nat n) = Inr (NI (rlevel n) 0)"
proof -
  assume n: "0 < n" "n \<le> 2 ^ 63"
  have "(word_of_nat n :: u64) - 1 = word_of_nat (n - 1)" using n by simp
  moreover have "(0 :: u64) < word_of_nat n"
    using n by (simp add: word_less_nat_alt unat_of_nat_eq)
  ultimately show ?thesis
    using n root_from_leaf_index_NI [of "n - 1"] by (simp add: root_from_leaf_count_def rlevel_def)
qed

lemma root_level_from_leaf_count_eq:
  "0 < n \<Longrightarrow> n \<le> 2 ^ 63 \<Longrightarrow> root_level_from_leaf_count (word_of_nat n) = Inr (rlevel n)"
proof -
  assume n: "0 < n" "n \<le> 2 ^ 63"
  have 1: "(word_of_nat n :: u64) - 1 = word_of_nat (n - 1)" using n by simp
  have 2: "(0 :: u64) < word_of_nat n"
    using n by (simp add: word_less_nat_alt unat_of_nat_eq)
  have 3: "unat (word_of_nat (n - 1) :: u64) = n - 1" using n by (intro unat_of_nat_eq) simp
  have "rlevel n \<le> 64" using n by (simp add: rlevel_le_iff)
  then show ?thesis
    unfolding root_level_from_leaf_count_def 1 leading_zeros_blen 3
    using 2 by (simp add: rlevel_def MAX_ACCUMULATOR_PROOF_DEPTH_def)
qed

section \<open>The frozen-subtree iterator\<close>

text \<open>The coordinates of the full subtrees of an accumulator with \<open>n\<close> leaves, left to right.\<close>

definition fcoords :: "nat \<Rightarrow> (nat \<times> nat) list" where
  "fcoords n = map (\<lambda>l. (l, n div 2 ^ l - 1)) (ones n)"

lemma frozen_subtree_next_Some:
  assumes "bitmap it \<noteq> 0" and m: "m = blen (unat (bitmap it)) - 1"
  shows "frozen_subtree_next it =
    Some (from_leaf_index (seen_leaves it) + mask m,
      it\<lparr>bitmap := bitmap it - 2 ^ m, seen_leaves := seen_leaves it + 2 ^ m\<rparr>)"
proof -
  let ?b = "unat (bitmap it)"
  have b: "0 < ?b" using assms(1) by (simp add: unat_gt_0)
  have b64: "blen ?b \<le> 64" using blen_unat [of "bitmap it"] by simp
  have bS: "blen ?b = Suc m" using b m by (cases "blen ?b") auto
  have off: "shr (smear_ones_for_u64 (bitmap it)) 1 = (mask m :: u64)"
    using b64 bS by (auto intro!: bit_eqI simp: smear_eq_mask bit_shr [simplified] bit_mask_iff)
  have "bit (bitmap it) m"
    using bit_blen_pred [OF b] m by (simp add: bit_unsigned_iff)
  then show ?thesis
    using assms(1) unfolding frozen_subtree_next_def
    by (simp add: off [simplified] Let_def inc_mask_eq_exp word_clear_bit)
qed

lemma unat_clear_msb:
  fixes w :: u64
  assumes "w \<noteq> 0"
  shows "unat (w - 2 ^ (blen (unat w) - 1)) = unat w - 2 ^ (blen (unat w) - 1)"
proof -
  let ?m = "blen (unat w) - 1"
  have le: "2 ^ ?m \<le> unat w" using exp_blen_le [of "unat w"] assms by (simp add: unat_gt_0)
  have "?m < 64"
    using blen_unat [of w] assms by (simp add: unat_gt_0 less_le_trans)
  then have "unat (2 ^ ?m :: u64) = 2 ^ ?m" by (simp add: unat_exp)
  then show ?thesis using le by (simp add: unat_sub word_le_nat_alt)
qed

function frozen_subtree_collect :: "FrozenSubTreeIterator \<Rightarrow> NodeIndex list" where
  "frozen_subtree_collect it =
     (case frozen_subtree_next it of
        None \<Rightarrow> []
      | Some (i, it') \<Rightarrow> i # frozen_subtree_collect it')"
  by pat_completeness auto
termination
proof (relation "measure (\<lambda>it. unat (bitmap it))")
  fix it x i it'
  assume n: "frozen_subtree_next it = Some x" "(i, it') = x"
  have b: "bitmap it \<noteq> 0"
    using n by (auto simp: frozen_subtree_next_def split: if_splits)
  then have "unat (bitmap it') = unat (bitmap it) - 2 ^ (blen (unat (bitmap it)) - 1)"
    using n frozen_subtree_next_Some [OF b refl] unat_clear_msb [OF b] by auto
  then show "(it', it) \<in> measure (\<lambda>it. unat (bitmap it))"
    using b by (simp add: unat_gt_0)
qed simp

declare frozen_subtree_collect.simps [simp del]

lemma fcoords_step:
  assumes b: "0 < b" and s: "2 ^ blen b dvd s"
  defines "m \<equiv> blen b - 1"
  shows "map (\<lambda>l. (l, (s + b) div 2 ^ l - 1)) (ones b) =
    (m, s div 2 ^ m) # map (\<lambda>l. (l, (s + 2 ^ m + (b - 2 ^ m)) div 2 ^ l - 1)) (ones (b - 2 ^ m))"
proof -
  have bm: "blen b = Suc m" using b unfolding m_def by (cases "blen b") auto
  have le: "2 ^ m \<le> b" using exp_blen_le [OF b] by (simp add: m_def)
  have "b < 2 ^ m * 2" using less_exp_blen [of b] bm by simp
  then have "b div 2 ^ m = 1" using le by (intro div_nat_eqI) auto
  moreover have "2 ^ m dvd s" using s bm by (metis dvd_mult_right power_Suc)
  ultimately have "(s + b) div 2 ^ m = s div 2 ^ m + 1" by (simp add: div_plus_div_distrib_dvd_left)
  then show ?thesis using ones_high [OF b] le by (simp add: m_def)
qed

lemma blen_clear_msb: "0 < b \<Longrightarrow> blen (b - 2 ^ (blen b - 1)) \<le> blen b - 1"
proof -
  assume b: "0 < b"
  have "b < 2 ^ (blen b - 1) * 2" using less_exp_blen [of b] b by (cases "blen b") auto
  then show ?thesis using exp_blen_le [OF b] by (simp add: blen_le_iff)
qed

lemma frozen_subtree_collect_NI:
  assumes "b < 2 ^ 64" and "2 ^ blen b dvd s"
  shows "frozen_subtree_collect \<lparr>bitmap = word_of_nat b, seen_leaves = word_of_nat s\<rparr> =
    map (\<lambda>(l, p). NI l p) (map (\<lambda>l. (l, (s + b) div 2 ^ l - 1)) (ones b))"
  using assms
proof (induction b arbitrary: s rule: less_induct)
  case (less b)
  let ?m = "blen b - 1"
  let ?it = "\<lparr>bitmap = word_of_nat b, seen_leaves = word_of_nat s\<rparr>"
  have u: "unat (word_of_nat b :: u64) = b" using less.prems by (intro unat_of_nat_eq) simp
  show ?case
  proof (cases "b = 0")
    case True
    then show ?thesis
      by (subst frozen_subtree_collect.simps) (simp add: frozen_subtree_next_def)
  next
    case False
    then have b: "0 < b" and w: "(word_of_nat b :: u64) \<noteq> 0" using u by (auto simp: unat_gt_0)
    have le: "2 ^ ?m \<le> b" by (rule exp_blen_le [OF b])
    have dvd: "2 ^ ?m dvd s" using less.prems(2) b
      by (metis dvd_mult_right power_Suc blen_pos diff_Suc_1)
    have "(2 * (s div 2 ^ ?m) + 1) * 2 ^ ?m = 2 * s + 2 ^ ?m"
      using dvd by (auto simp: algebra_simps)
    then have "NI ?m (s div 2 ^ ?m) + 1 = word_of_nat (2 * s + 2 ^ ?m)"
      by (simp only: NI_arith)
    also have "\<dots> = NI 0 s + mask ?m + 1"
      using NI_arith [of 0 s] by (simp add: add.assoc inc_mask_eq_exp)
    finally have root: "from_leaf_index (word_of_nat s) + mask ?m = NI ?m (s div 2 ^ ?m)"
      by (simp add: from_leaf_index_NI)
    have dvd': "2 ^ blen (b - 2 ^ ?m) dvd s + 2 ^ ?m"
      using blen_clear_msb [OF b] dvd by (meson dvd_add dvd_trans le_imp_power_dvd dvd_refl)
    have IH: "frozen_subtree_collect \<lparr>bitmap = word_of_nat (b - 2 ^ ?m),
        seen_leaves = word_of_nat (s + 2 ^ ?m)\<rparr> =
      map (\<lambda>(l, p). NI l p)
        (map (\<lambda>l. (l, (s + 2 ^ ?m + (b - 2 ^ ?m)) div 2 ^ l - 1)) (ones (b - 2 ^ ?m)))"
      using less.prems b dvd' by (intro less.IH) auto
    have "frozen_subtree_next ?it = Some (NI ?m (s div 2 ^ ?m),
        \<lparr>bitmap = word_of_nat (b - 2 ^ ?m), seen_leaves = word_of_nat (s + 2 ^ ?m)\<rparr>)"
      using frozen_subtree_next_Some [of ?it ?m] w u root le by simp
    then show ?thesis
      unfolding fcoords_step [OF b less.prems(2)] using IH
      by (simp add: frozen_subtree_collect.simps [of ?it] del: map_map)
  qed
qed

lemma frozen_subtrees_NI:
  "n < 2 ^ 64 \<Longrightarrow> frozen_subtree_collect (frozen_subtree_iter_new (word_of_nat n)) =
    map (\<lambda>(l, p). NI l p) (fcoords n)"
  using frozen_subtree_collect_NI [of n 0]
  by (simp add: frozen_subtree_iter_new_def fcoords_def)

text \<open>Every number below the last one has coordinates.\<close>

lemma NI_exists:
  assumes "i \<noteq> - 1"
  obtains l p where "i = NI l p" and "valid l p"
proof -
  let ?u = "unat i + 1"
  have lt: "?u < 2 ^ 64"
  proof -
    have "unat i \<noteq> unat (- 1 :: u64)" using assms by (simp add: word_unat_eq_iff)
    moreover have "unat i < 2 ^ 64" using unsigned_less [of i, where 'a = nat] by simp
    ultimately show ?thesis by (simp add: unsigned_minus_1_eq_mask mask_eq_exp_minus_1)
  qed
  obtain m t where m: "?u = m * 2 ^ t" "odd m" by (rule odd_factor [of ?u]) auto
  then obtain p where p: "m = 2 * p + 1" by (auto elim!: oddE)
  have "NI t p + 1 = word_of_nat ?u" by (simp only: NI_arith m(1) p)
  then have "i = NI t p" by simp
  moreover have "valid t p"
  proof -
    have "(2 * p + 1) * 2 ^ t < 2 ^ 64" using lt m(1) p by simp
    moreover have t: "t < 64" using trailing_zeros_odd_factor(2) [of m t] m lt by simp
    moreover have "(2 ^ 64 :: nat) = 2 * 2 ^ (63 - t) * 2 ^ t"
      using t by (simp flip: power_add power_Suc)
    ultimately have "2 * p + 1 < 2 * 2 ^ (63 - t)" by (metis mult_less_cancel2)
    then show ?thesis using t by (simp add: valid_def)
  qed
  ultimately show thesis by (rule that)
qed

lemma NI_not_max: "valid l p \<Longrightarrow> NI l p \<noteq> - 1"
proof
  assume v: "valid l p" and "NI l p = - 1"
  then have "bit (NI l p) l" using valid_level [OF v] by (simp add: bit_simps)
  then show False by (simp add: bit_NI)
qed

lemma shl_isolate_top: "shl (isolate_rightmost_zero_bit (NI 63 p)) 1 = 0"
  by (rule bit_eqI) (auto simp: bit_shl bit_isolate_NI)

lemma parent_top: "parent (NI 63 0) = - 1" and parent_max: "parent (- 1) = - 1"
proof -
  have "bit (parent (NI 63 0)) i \<longleftrightarrow> bit (- 1 :: u64) i" for i
    using shl_isolate_top [of 0] by (auto simp: parent_def bit_isolate_NI bit_NI bit_simps)
  then show "parent (NI 63 0) = - 1" by (simp add: bit_eq_iff)
  show "parent (- 1) = - 1" by (simp add: parent_def isolate_rightmost_zero_bit_def shl_def)
qed

text \<open>A right child has a larger number than its parent.\<close>

lemma parent_less: "is_right_child i \<Longrightarrow> unat (parent i) < unat i"
proof (cases "i = - 1")
  case True
  assume "is_right_child i"
  then show ?thesis
    using True by (simp add: is_right_child_def is_left_child_def isolate_rightmost_zero_bit_def shl_def)
next
  case False
  assume r: "is_right_child i"
  obtain l p where i: "i = NI l p" and v: "valid l p" by (rule NI_exists [OF False])
  have l: "l < 63"
  proof (rule ccontr)
    assume "\<not> l < 63"
    then have "l = 63" "p = 0" using v by (auto simp: valid_def)
    then have "is_left_child i" using shl_isolate_top [of 0] by (simp add: is_left_child_def i)
    then show False using r by (simp add: is_right_child_def)
  qed
  then have "odd p" using r by (simp add: is_right_child_def i is_left_child_NI)
  then obtain q where q: "p = Suc (2 * q)" by (auto elim!: oddE)
  have "unat (NI l p) + 1 = (2 * p + 1) * 2 ^ l" by (rule unat_NI [OF v])
  moreover have "unat (NI (Suc l) q) + 1 = (2 * q + 1) * 2 ^ Suc l"
    using valid_parent [OF v l] q by (intro unat_NI) simp
  moreover have "(2 * q + 1) * 2 ^ Suc l < (2 * p + 1) * 2 ^ l" by (simp add: q algebra_simps)
  ultimately have "unat (NI (Suc l) q) < unat (NI l p)" by linarith
  then show ?thesis by (simp add: q i parent_NI [OF l])
qed

section \<open>Frozen siblings\<close>

text \<open>
  The coordinates of the subtrees that the sibling iterator yields when \<open>r\<close> leaves are
  added to \<open>n\<close>: as long as enough leaves remain, the sibling of the rightmost frozen
  subtree, then the binary digits of what is left.
\<close>

definition sibling_level :: "nat \<Rightarrow> nat \<Rightarrow> nat" where
  "sibling_level n r = (if 0 < n \<and> 2 ^ tzeros n \<le> r then tzeros n else blen r - 1)"

function scoords :: "nat \<Rightarrow> nat \<Rightarrow> (nat \<times> nat) list" where
  "scoords n r =
     (if r = 0 then []
      else let l = sibling_level n r
           in (l, n div 2 ^ l) # scoords (n + 2 ^ l) (r - 2 ^ l))"
  by pat_completeness auto
termination
  by (relation "measure snd") auto

declare scoords.simps [simp del]

lemma next_new_leaf_batch_eq:
  assumes "0 < r" and "r < 2 ^ 64"
  shows "next_new_leaf_batch \<lparr>current_num_leaves = c, remaining_new_leaves = word_of_nat r\<rparr> =
    word_of_nat (2 ^ (blen r - 1))"
proof -
  have u: "unat (word_of_nat r :: u64) = r" using assms(2) by (intro unat_of_nat_eq) simp
  have "blen r \<le> 64" using assms(2) by (simp add: blen_le_iff)
  moreover have "blen r \<noteq> 0" using assms(1) by simp
  ultimately have "MAX_ACCUMULATOR_PROOF_DEPTH - leading_zeros (word_of_nat r :: u64) = blen r - 1"
    "blen r - 1 < 64"
    by (auto simp: MAX_ACCUMULATOR_PROOF_DEPTH_def leading_zeros_blen u)
  then show ?thesis by (simp add: next_new_leaf_batch_def shl_one)
qed

lemma scoords_step:
  "0 < r \<Longrightarrow> scoords n r = (sibling_level n r, n div 2 ^ sibling_level n r) #
     scoords (n + 2 ^ sibling_level n r) (r - 2 ^ sibling_level n r)"
  by (subst scoords.simps) (simp add: Let_def)

lemma sibling_level_le: "0 < r \<Longrightarrow> 2 ^ sibling_level n r \<le> r"
  using exp_blen_le [of r] by (auto simp: sibling_level_def)

lemma sibling_level_dvd: "0 < r \<Longrightarrow> 2 ^ sibling_level n r dvd n"
proof (cases "n = 0")
  case False
  assume r: "0 < r"
  have f: "2 ^ tzeros n dvd n" using tzeros_factor [of n] False by (metis dvd_triv_right gr0I)
  have "sibling_level n r \<le> tzeros n"
  proof (cases "2 ^ tzeros n \<le> r")
    case False
    then have "blen r \<le> tzeros n" by (simp add: blen_le_iff)
    then show ?thesis using False by (simp add: sibling_level_def)
  qed (simp add: sibling_level_def \<open>n \<noteq> 0\<close>)
  then show ?thesis using f by (meson dvd_trans le_imp_power_dvd)
qed simp

lemma frozen_sibling_next_NI:
  assumes "0 < r" and "n + r < 2 ^ 64"
  defines "l \<equiv> sibling_level n r"
  shows "frozen_sibling_next \<lparr>current_num_leaves = word_of_nat n, remaining_new_leaves = word_of_nat r\<rparr> =
    Some (NI l (n div 2 ^ l),
      \<lparr>current_num_leaves = word_of_nat (n + 2 ^ l), remaining_new_leaves = word_of_nat (r - 2 ^ l)\<rparr>)"
proof -
  let ?it = "\<lparr>current_num_leaves = word_of_nat n, remaining_new_leaves = word_of_nat r\<rparr>"
  have un: "unat (word_of_nat n :: u64) = n" and ur: "unat (word_of_nat r :: u64) = r"
    using assms(2) by (simp_all add: unat_of_nat_eq)
  have le: "2 ^ l \<le> r" unfolding l_def by (rule sibling_level_le [OF assms(1)])
  have pos: "(word_of_nat n :: u64) > 0 \<longleftrightarrow> 0 < n" and r0: "(word_of_nat r :: u64) \<noteq> 0"
    using un ur assms(1) by (auto simp: word_less_nat_alt)
  have right: "shl (1 :: u64) (trailing_zeros (word_of_nat n :: u64)) = word_of_nat (2 ^ tzeros n)"
    "(word_of_nat (2 ^ tzeros n) :: u64) \<le> word_of_nat r \<longleftrightarrow> 2 ^ tzeros n \<le> r" if "0 < n"
  proof -
    have "n < 2 ^ 64" using assms(2) by linarith
    note t = trailing_zeros_eq [OF that this]
    show "shl (1 :: u64) (trailing_zeros (word_of_nat n :: u64)) = word_of_nat (2 ^ tzeros n)"
      using t by (simp add: shl_one)
    show "(word_of_nat (2 ^ tzeros n) :: u64) \<le> word_of_nat r \<longleftrightarrow> 2 ^ tzeros n \<le> r"
      using t(2) ur by (simp add: word_le_nat_alt unat_exp)
  qed
  have size: "(if word_of_nat n > (0 :: u64) then
        if word_of_nat r \<ge> shl (1 :: u64) (trailing_zeros (word_of_nat n :: u64))
        then shl 1 (trailing_zeros (word_of_nat n :: u64)) else next_new_leaf_batch ?it
      else next_new_leaf_batch ?it) = word_of_nat (2 ^ l)"
    using right assms next_new_leaf_batch_eq [of r]
    by (simp add: pos l_def sibling_level_def Let_def del: of_nat_power)
  have "(2 * (n div 2 ^ l) + 1) * 2 ^ l = 2 * n + 2 ^ l"
    using sibling_level_dvd [OF assms(1), of n] by (auto simp: algebra_simps l_def)
  then have "NI l (n div 2 ^ l) + 1 = word_of_nat (2 * n + 2 ^ l)" by (simp only: NI_arith)
  then have item: "word_of_nat n + (word_of_nat n + word_of_nat (2 ^ l) - 1) = NI l (n div 2 ^ l)"
    by (simp add: algebra_simps)
  have sub: "word_of_nat r - word_of_nat (2 ^ l) = (word_of_nat (r - 2 ^ l) :: u64)"
    using le by simp
  show ?thesis
    unfolding frozen_sibling_next_def
    by (simp only: FrozenSubtreeSiblingIterator.simps r0 if_False size Let_def item sub of_nat_add)
qed

lemma frozen_sibling_next_decreases:
  assumes "frozen_sibling_next it = Some (i, it')"
  shows "unat (remaining_new_leaves it') < unat (remaining_new_leaves it)"
proof -
  have r: "remaining_new_leaves it \<noteq> 0"
    using assms by (auto simp: frozen_sibling_next_def split: if_splits)
  obtain s where s: "s \<noteq> 0" "s \<le> remaining_new_leaves it"
    "remaining_new_leaves it' = remaining_new_leaves it - s"
  proof -
    let ?r = "unat (remaining_new_leaves it)"
    have r': "0 < ?r" "?r < 2 ^ 64" using r unsigned_less [of "remaining_new_leaves it"]
      by (simp_all add: unat_gt_0)
    have "next_new_leaf_batch it = word_of_nat (2 ^ (blen ?r - 1))"
      using next_new_leaf_batch_eq [OF r', of "current_num_leaves it"] by (cases it) simp
    moreover have "unat (word_of_nat (2 ^ (blen ?r - 1)) :: u64) = 2 ^ (blen ?r - 1)"
      using exp_blen_le [OF r'(1)] r'(2) by (intro unat_of_nat_eq) (simp add: le_less_trans)
    ultimately have batch: "unat (next_new_leaf_batch it) = 2 ^ (blen ?r - 1)" by simp
    have "next_new_leaf_batch it \<noteq> 0" "next_new_leaf_batch it \<le> remaining_new_leaves it"
      using batch exp_blen_le [OF r'(1)] by (auto simp: word_le_nat_alt)
    moreover have "shl (1 :: u64) k \<noteq> 0" for k
      by (simp add: shl_def push_bit_eq_mult)
    moreover define s where "s = (if current_num_leaves it > 0
      then if shl 1 (trailing_zeros (current_num_leaves it)) \<le> remaining_new_leaves it
           then shl 1 (trailing_zeros (current_num_leaves it)) else next_new_leaf_batch it
      else next_new_leaf_batch it)"
    ultimately have "s \<noteq> 0" "s \<le> remaining_new_leaves it" by simp_all
    moreover have "remaining_new_leaves it' = remaining_new_leaves it - s"
      using assms r by (auto simp: frozen_sibling_next_def Let_def s_def)
    ultimately show thesis by (rule that)
  qed
  then show ?thesis using r by (auto simp: unat_sub word_le_nat_alt unat_gt_0)
qed

function frozen_sibling_collect :: "FrozenSubtreeSiblingIterator \<Rightarrow> NodeIndex list" where
  "frozen_sibling_collect it =
     (case frozen_sibling_next it of
        None \<Rightarrow> []
      | Some (i, it') \<Rightarrow> i # frozen_sibling_collect it')"
  by pat_completeness auto
termination
  by (relation "measure (\<lambda>it. unat (remaining_new_leaves it))")
    (auto dest: frozen_sibling_next_decreases)

declare frozen_sibling_collect.simps [simp del]

lemma frozen_sibling_collect_NI:
  "n + r < 2 ^ 64 \<Longrightarrow>
   frozen_sibling_collect \<lparr>current_num_leaves = word_of_nat n, remaining_new_leaves = word_of_nat r\<rparr> =
     map (\<lambda>(l, p). NI l p) (scoords n r)"
proof (induction r arbitrary: n rule: less_induct)
  case (less r)
  show ?case
  proof (cases "r = 0")
    case True
    then show ?thesis
      by (subst frozen_sibling_collect.simps) (simp add: frozen_sibling_next_def scoords.simps)
  next
    case False
    let ?l = "sibling_level n r"
    have r: "0 < r" using False by simp
    have "n + 2 ^ ?l + (r - 2 ^ ?l) < 2 ^ 64"
      using sibling_level_le [OF r, of n] less.prems by linarith
    then have IH: "frozen_sibling_collect \<lparr>current_num_leaves = word_of_nat (n + 2 ^ ?l),
        remaining_new_leaves = word_of_nat (r - 2 ^ ?l)\<rparr> =
      map (\<lambda>(l, p). NI l p) (scoords (n + 2 ^ ?l) (r - 2 ^ ?l))"
      using r by (intro less.IH) auto
    then show ?thesis
      by (subst frozen_sibling_collect.simps)
        (simp only: frozen_sibling_next_NI [OF r less.prems] scoords_step [OF r] option.case
          prod.case list.map)
  qed
qed

lemma scoords_small:
  "2 ^ t dvd n \<Longrightarrow> r < 2 ^ t \<Longrightarrow> scoords n r = map (\<lambda>l. (l, (n + r) div 2 ^ l - 1)) (ones r)"
proof (induction r arbitrary: n t rule: less_induct)
  case (less r)
  show ?case
  proof (cases "r = 0")
    case False
    then have r: "0 < r" by simp
    let ?m = "blen r - 1"
    have t: "blen r \<le> t" using less.prems(2) by (simp add: blen_le_iff)
    have dvd: "2 ^ blen r dvd n" using less.prems(1) t by (meson dvd_trans le_imp_power_dvd)
    have l: "sibling_level n r = ?m"
    proof (cases "n = 0")
      case False
      then have "t \<le> tzeros n" using less.prems(1) by (intro tzeros_exp_le) auto
      then have "2 ^ t \<le> (2 ^ tzeros n :: nat)" by (intro power_increasing) auto
      then have "\<not> 2 ^ tzeros n \<le> r" using less.prems(2) by linarith
      then show ?thesis by (simp add: sibling_level_def)
    qed (simp add: sibling_level_def)
    have "2 ^ ?m dvd n + 2 ^ ?m" using dvd by (meson diff_le_self dvd_add dvd_refl dvd_trans le_imp_power_dvd)
    moreover have "r - 2 ^ ?m < 2 ^ ?m"
      using blen_clear_msb [OF r] by (simp add: blen_le_iff)
    ultimately have "scoords (n + 2 ^ ?m) (r - 2 ^ ?m) =
        map (\<lambda>l. (l, (n + 2 ^ ?m + (r - 2 ^ ?m)) div 2 ^ l - 1)) (ones (r - 2 ^ ?m))"
      using r by (intro less.IH) auto
    then show ?thesis
      by (simp only: scoords_step [OF r] l fcoords_step [OF r dvd])
  qed (simp add: scoords.simps)
qed

lemma scoords_bound: "(l, p) \<in> set (scoords n r) \<Longrightarrow> (p + 1) * 2 ^ l \<le> n + r"
proof (induction r arbitrary: n rule: less_induct)
  case (less r)
  then have r: "0 < r" by (cases "r = 0") (simp_all add: scoords.simps)
  let ?l = "sibling_level n r"
  have le: "2 ^ ?l \<le> r" by (rule sibling_level_le [OF r])
  consider "l = ?l" "p = n div 2 ^ ?l" | "(l, p) \<in> set (scoords (n + 2 ^ ?l) (r - 2 ^ ?l))"
    using less.prems scoords_step [OF r, of n] by auto
  then show ?case
  proof cases
    case 1
    then have "(p + 1) * 2 ^ l = n + 2 ^ ?l"
      using sibling_level_dvd [OF r, of n] by (simp add: algebra_simps)
    then show ?thesis using le by simp
  next
    case 2
    then show ?thesis using less.IH [OF _ 2] r le by simp
  qed
qed

section \<open>Properties\<close>

text \<open>
  C27: The bit manipulation on node numbers is tree navigation: for the node at level \<open>l\<close> and
  position \<open>p\<close> the functions compute its level, its parent, the leaves it covers, on which
  side of its parent it is, and its sibling as the parent's other child.
\<close>

theorem node_index_navigation:
  assumes "l < 62" and "p < 2 ^ (63 - l)"
  shows "let i = from_level_and_pos l (word_of_nat p) in
    level i = l \<and>
    parent i = from_level_and_pos (Suc l) (word_of_nat (p div 2)) \<and>
    left_most_child i = from_leaf_index (word_of_nat (p * 2 ^ l)) \<and>
    right_most_child i = from_leaf_index (word_of_nat ((p + 1) * 2 ^ l - 1)) \<and>
    (is_left_child i \<longleftrightarrow> even p) \<and>
    i = (if even p then left_child (parent i) else right_child (parent i)) \<and>
    sibling i = (if even p then right_child (parent i) else left_child (parent i)) \<and>
    sibling (sibling i) = i"
proof -
  have l: "l < 63" "Suc l < 63" "l < 64" using assms(1) by auto
  have "(if even p then NI l (2 * (p div 2)) else NI l (2 * (p div 2) + 1)) = NI l p" by simp
  moreover have "odd p \<Longrightarrow> Suc (p - Suc 0) = p" by (cases p) auto
  moreover have "odd p \<Longrightarrow> even (p - Suc 0)" by (cases p) auto
  ultimately show ?thesis
    using l
    by (simp add: Let_def from_level_and_pos_NI from_leaf_index_NI level_NI parent_NI left_most_child_NI
        right_most_child_NI is_left_child_NI left_child_NI right_child_NI sibling_NI
        del: of_nat_mult of_nat_add of_nat_diff of_nat_power)
qed

theorem node_index_navigation_witness:
  "let i = from_level_and_pos 1 (word_of_nat 3) in
    level i = 1 \<and>
    parent i = from_level_and_pos (Suc 1) (word_of_nat (3 div 2)) \<and>
    left_most_child i = from_leaf_index (word_of_nat (3 * 2 ^ 1)) \<and>
    right_most_child i = from_leaf_index (word_of_nat ((3 + 1) * 2 ^ 1 - 1)) \<and>
    (is_left_child i \<longleftrightarrow> even (3::nat)) \<and>
    i = (if even (3::nat) then left_child (parent i) else right_child (parent i)) \<and>
    sibling i = (if even (3::nat) then right_child (parent i) else left_child (parent i)) \<and>
    sibling (sibling i) = i"
  by (rule node_index_navigation) simp_all

text \<open>The leaves a node covers, read off its outermost leaves.\<close>

definition leaves_under :: "NodeIndex \<Rightarrow> nat list" where
  "leaves_under i = [unat (left_most_child i) div 2..<Suc (unat (right_most_child i) div 2)]"

lemma leaves_under_NI:
  assumes "valid l p"
  shows "leaves_under (NI l p) = [p * 2 ^ l..<(p + 1) * 2 ^ l]"
proof -
  have e: "(p + 1) * 2 ^ l = p * 2 ^ l + 2 ^ l" by simp
  have pos: "0 < (2 ^ l :: nat)" by simp
  have "(p + 1) * 2 ^ l \<le> 2 ^ 63" by (rule valid_bound [OF assms])
  then have "p * 2 ^ l < 2 ^ 63" "(p + 1) * 2 ^ l - 1 < 2 ^ 63" using e pos by linarith+
  then have "unat (NI 0 (p * 2 ^ l)) + 1 = 2 * (p * 2 ^ l) + 1"
    "unat (NI 0 ((p + 1) * 2 ^ l - 1)) + 1 = 2 * ((p + 1) * 2 ^ l - 1) + 1"
    using unat_NI [of 0 "p * 2 ^ l"] unat_NI [of 0 "(p + 1) * 2 ^ l - 1"]
    by (simp_all add: valid_leaf)
  then have "unat (NI 0 (p * 2 ^ l)) div 2 = p * 2 ^ l"
    "unat (NI 0 ((p + 1) * 2 ^ l - 1)) div 2 = (p + 1) * 2 ^ l - 1" by linarith+
  moreover have "Suc ((p + 1) * 2 ^ l - 1) = (p + 1) * 2 ^ l" by simp
  ultimately show ?thesis
    unfolding leaves_under_def left_most_child_NI [OF valid_level [OF assms]]
      right_most_child_NI [OF valid_level [OF assms]] by presburger
qed

lemma full_coords_cover:
  "concat (map (\<lambda>l. [(n div 2 ^ l - 1) * 2 ^ (l + k)..<(n div 2 ^ l - 1 + 1) * 2 ^ (l + k)]) (ones n)) =
    [0..<n * 2 ^ k]"
proof (induction n arbitrary: k rule: ones.induct)
  case (1 n)
  let ?f = "\<lambda>n k l. [(n div 2 ^ l - 1) * 2 ^ (l + k)..<(n div 2 ^ l - 1 + 1) * 2 ^ (l + k)]"
  let ?h = "n div 2"
  show ?case
  proof (cases "n = 0")
    case False
    have IH: "concat (map (?f ?h (Suc k)) (ones ?h)) = [0..<?h * 2 ^ Suc k]" by (rule 1 [OF False])
    have s: "?f n k (Suc l) = ?f ?h (Suc k) l" for l
      by (simp add: div_mult2_eq)
    have eq: "?f n k \<circ> Suc = ?f ?h (Suc k)" using s by (simp add: fun_eq_iff)
    have o: "ones n = map Suc (ones ?h) @ (if odd n then [0] else [])"
      using False by (subst ones.simps) simp
    have "concat (map (?f n k) (ones n)) = [0..<?h * 2 ^ Suc k] @ (if odd n then ?f n k 0 else [])"
      unfolding o map_append concat_append map_map eq IH
      by (cases "odd n") (simp_all only: if_True if_False list.map concat.simps append_Nil2 simp_thms)
    also have "\<dots> = [0..<n * 2 ^ k]"
    proof (cases "odd n")
      case True
      then obtain q where q: "n = Suc (2 * q)" by (auto elim!: oddE)
      show ?thesis using upt_add_eq_append [of 0 "q * 2 ^ Suc k" "2 ^ k"] True by (simp add: q algebra_simps)
    next
      case False
      then obtain q where "n = 2 * q" by (auto elim!: evenE)
      then show ?thesis by (simp add: mult.left_commute mult.assoc)
    qed
    finally show ?thesis .
  qed simp
qed

text \<open>
  C26: The frozen-subtree iterator over \<open>n\<close> leaves yields the roots of complete subtrees that
  cover the leaves \<open>0, \<dots>, n - 1\<close> from left to right, each leaf once, and it ends.
\<close>

theorem frozen_subtrees_cover:
  assumes "n \<le> 2 ^ 63"
  shows "concat (map leaves_under (frozen_subtree_collect (frozen_subtree_iter_new (word_of_nat n)))) = [0..<n]"
proof -
  have v: "valid l (n div 2 ^ l - 1)" if "l \<in> set (ones n)" for l
  proof -
    have "0 < n div 2 ^ l" using that by (cases "n div 2 ^ l") (auto simp: set_ones bit_iff_odd)
    then have "n div 2 ^ l - 1 + 1 = n div 2 ^ l" by simp
    then have "(n div 2 ^ l - 1 + 1) * 2 ^ l \<le> n" by (simp only: div_times_less_eq_dividend)
    then show ?thesis using assms by (intro valid_boundI) linarith
  qed
  have "map leaves_under (frozen_subtree_collect (frozen_subtree_iter_new (word_of_nat n))) =
      map (\<lambda>l. leaves_under (NI l (n div 2 ^ l - 1))) (ones n)"
    using assms by (simp add: frozen_subtrees_NI fcoords_def)
  also have "\<dots> = map (\<lambda>l. [(n div 2 ^ l - 1) * 2 ^ (l + 0)..<(n div 2 ^ l - 1 + 1) * 2 ^ (l + 0)]) (ones n)"
    using v by (intro map_cong refl) (simp only: leaves_under_NI add_0_right)
  finally show ?thesis using full_coords_cover [of n 0] by simp
qed

theorem frozen_subtrees_cover_witness:
  "concat (map leaves_under (frozen_subtree_collect (frozen_subtree_iter_new (word_of_nat 6)))) = [0..<6]"
  by (rule frozen_subtrees_cover) simp

end
