(* ===== verification/Crypto_Hash.thy ===== *)
theory Crypto_Hash
  imports Prelude
begin

text \<open>
  Hash values. \<^verbatim>\<open>HashValue\<close> and SHA3-256 come from the \<^verbatim>\<open>diem_crypto\<close> crate, so the
  type of hash values is a type variable \<open>'h\<close> and the operations the sources call are
  the fields of a parameter; what the sources rely on is \<open>crypto_ok\<close>. The literal
  placeholder hashes of \<^verbatim>\<open>commons/crypto/src/hash.rs\<close> are defined over it.
\<close>

record 'h crypto =
  sha3_256_of :: "u8 list \<Rightarrow> 'h"
  to_vec :: "'h \<Rightarrow> u8 list"
  from_slice :: "u8 list \<Rightarrow> 'h option"

definition HASH_LENGTH :: nat where
  "HASH_LENGTH = 32"

text \<open>A hash value is its 32 bytes.\<close>

definition crypto_ok :: "'h crypto \<Rightarrow> bool" where
  "crypto_ok C \<longleftrightarrow>
     (\<forall>h. length (to_vec C h) = HASH_LENGTH \<and> from_slice C (to_vec C h) = Some h) \<and>
     (\<forall>b. length b = HASH_LENGTH \<longrightarrow> (\<exists>h. from_slice C b = Some h \<and> to_vec C h = b))"

text \<open>\<^verbatim>\<open>Vec::resize\<close> with zeros.\<close>

definition resize :: "u8 list \<Rightarrow> nat \<Rightarrow> u8 list" where
  "resize s n = take n s @ replicate (n - length s) 0"

definition create_literal_hash :: "'h crypto \<Rightarrow> string \<Rightarrow> ('h, 'e) outcome" where
  "create_literal_hash C w =
     (let s = map of_char w
      in obind (assert_that (length s \<le> HASH_LENGTH)) (\<lambda>_.
         expect (from_slice C (resize s HASH_LENGTH))))"

definition ACCUMULATOR_PLACEHOLDER_HASH :: "'h crypto \<Rightarrow> 'h" where
  "ACCUMULATOR_PLACEHOLDER_HASH C =
     projr (create_literal_hash C ''ACCUMULATOR_PLACEHOLDER_HASH'' :: ('h, unit) outcome)"

definition SPARSE_MERKLE_PLACEHOLDER_HASH :: "'h crypto \<Rightarrow> 'h" where
  "SPARSE_MERKLE_PLACEHOLDER_HASH C =
     projr (create_literal_hash C ''SPARSE_MERKLE_PLACEHOLDER_HASH'' :: ('h, unit) outcome)"

lemma create_literal_hash_ok:
  assumes "crypto_ok C" and "length w \<le> HASH_LENGTH"
  shows "\<exists>h. create_literal_hash C w = Inr h \<and>
    to_vec C h = map of_char w @ replicate (HASH_LENGTH - length w) 0"
proof -
  let ?b = "map of_char w @ replicate (HASH_LENGTH - length w) 0 :: u8 list"
  have "length ?b = HASH_LENGTH" using assms(2) by simp
  then obtain h where "from_slice C ?b = Some h" "to_vec C h = ?b"
    using assms(1) unfolding crypto_ok_def by blast
  then show ?thesis
    using assms(2) by (simp add: create_literal_hash_def resize_def)
qed

lemma to_vec_inject: "crypto_ok C \<Longrightarrow> to_vec C x = to_vec C y \<longleftrightarrow> x = y"
  unfolding crypto_ok_def by (metis option.inject)

lemma to_vec_length: "crypto_ok C \<Longrightarrow> length (to_vec C x) = HASH_LENGTH"
  by (simp add: crypto_ok_def)

lemma placeholders_differ:
  assumes "crypto_ok C"
  shows "ACCUMULATOR_PLACEHOLDER_HASH C \<noteq> SPARSE_MERKLE_PLACEHOLDER_HASH C"
proof -
  obtain a where a: "(create_literal_hash C ''ACCUMULATOR_PLACEHOLDER_HASH'' :: ('a, unit) outcome) = Inr a"
    "to_vec C a = map of_char ''ACCUMULATOR_PLACEHOLDER_HASH'' @
      replicate (HASH_LENGTH - length ''ACCUMULATOR_PLACEHOLDER_HASH'') 0"
    using create_literal_hash_ok [OF assms, of "''ACCUMULATOR_PLACEHOLDER_HASH''"]
    by (auto simp: HASH_LENGTH_def)
  obtain b where b: "(create_literal_hash C ''SPARSE_MERKLE_PLACEHOLDER_HASH'' :: ('a, unit) outcome) = Inr b"
    "to_vec C b = map of_char ''SPARSE_MERKLE_PLACEHOLDER_HASH'' @
      replicate (HASH_LENGTH - length ''SPARSE_MERKLE_PLACEHOLDER_HASH'') 0"
    using create_literal_hash_ok [OF assms, of "''SPARSE_MERKLE_PLACEHOLDER_HASH''"]
    by (auto simp: HASH_LENGTH_def)
  have "hd (to_vec C a) \<noteq> hd (to_vec C b)" by (simp add: a(2) b(2))
  then show ?thesis
    by (auto simp: ACCUMULATOR_PLACEHOLDER_HASH_def SPARSE_MERKLE_PLACEHOLDER_HASH_def a(1) b(1))
qed

section \<open>Hash values as 256-bit words\<close>

text \<open>An instance of the parameter that meets \<open>crypto_ok\<close>, for concrete runs.\<close>

type_synonym hash256 = "256 word"
definition hash256_to_vec :: "hash256 \<Rightarrow> u8 list" where
  "hash256_to_vec w = map (\<lambda>i. ucast (drop_bit (8 * (31 - i)) w)) [0..<32]"

definition hash256_from_slice :: "u8 list \<Rightarrow> hash256 option" where
  "hash256_from_slice b =
     (if length b = 32
      then Some (horner_sum of_bool 2 (map (\<lambda>j. bit (b ! (31 - j div 8)) (j mod 8)) [0..<256]))
      else None)"

definition word_crypto :: "hash256 crypto" where
  "word_crypto = \<lparr>sha3_256_of = (\<lambda>b. foldl (\<lambda>a x. a * 257 + ucast x + 1) 7 b),
     to_vec = hash256_to_vec, from_slice = hash256_from_slice\<rparr>"

lemma word_crypto_ok: "crypto_ok word_crypto"
proof -
  have a: "hash256_from_slice (hash256_to_vec w) = Some w" for w
  proof -
    have "horner_sum of_bool 2 (map (\<lambda>j. bit (hash256_to_vec w ! (31 - j div 8)) (j mod 8)) [0..<256]) = w"
    proof (rule bit_word_eqI)
      fix n assume "n < LENGTH(256)"
      then have n: "n < 256" by simp
      then have "31 - n div 8 < 32" "31 - (31 - n div 8) = n div 8" by auto
      then show "bit (horner_sum of_bool 2 (map (\<lambda>j. bit (hash256_to_vec w ! (31 - j div 8)) (j mod 8)) [0..<256]) :: hash256) n = bit w n"
        using n by (simp add: bit_horner_sum_bit_word_iff hash256_to_vec_def bit_ucast_iff bit_drop_bit_eq)
    qed
    then show ?thesis by (simp add: hash256_from_slice_def hash256_to_vec_def)
  qed
  have b: "\<exists>h. hash256_from_slice b = Some h \<and> hash256_to_vec h = b" if len: "length b = 32" for b
  proof -
    let ?h = "horner_sum of_bool 2 (map (\<lambda>j. bit (b ! (31 - j div 8)) (j mod 8)) [0..<256]) :: hash256"
    have "hash256_to_vec ?h = b"
    proof (rule nth_equalityI)
      fix i assume "i < length (hash256_to_vec ?h)"
      then have i: "i < 32" by (simp add: hash256_to_vec_def)
      show "hash256_to_vec ?h ! i = b ! i"
      proof (rule bit_word_eqI)
        fix n assume "n < LENGTH(8)"
        then have n: "n < 8" by simp
        then have d: "(8 * (31 - i) + n) div 8 = 31 - i" "(8 * (31 - i) + n) mod 8 = n" "8 * (31 - i) + n < 256"
          by (auto simp: div_add1_eq)
        show "bit (hash256_to_vec ?h ! i) n = bit (b ! i) n"
          using i n d by (simp add: hash256_to_vec_def bit_ucast_iff bit_drop_bit_eq bit_horner_sum_bit_word_iff)
      qed
    qed (simp add: hash256_to_vec_def len)
    then show ?thesis using len by (auto simp: hash256_from_slice_def)
  qed
  have "length (hash256_to_vec w) = 32" for w by (simp add: hash256_to_vec_def)
  then show ?thesis using a b by (simp add: crypto_ok_def word_crypto_def HASH_LENGTH_def)
qed
end
