(* ===== verification/Merkle_Spec.thy ===== *)
theory Merkle_Spec
  imports Node_Index Crypto_Hash
begin

text \<open>
  What the accumulators compute: the hash of the node at level \<open>l\<close> and position \<open>p\<close> of
  the tree over a list of leaves, with the placeholder for every subtree that holds no
  leaf, and the root at the least level that covers all leaves. The implementations in
  \<^verbatim>\<open>InMemory\<close> and \<^verbatim>\<open>Acc_Tree\<close> are proved against these functions.
\<close>

section \<open>Reference definitions\<close>

text \<open>\<^verbatim>\<open>MerkleTreeInternalNode\<close> and \<^verbatim>\<open>InternalNode\<close> hash the two children's bytes.\<close>

definition hash_children :: "'h crypto \<Rightarrow> 'h \<Rightarrow> 'h \<Rightarrow> 'h" where
  "hash_children C left right = sha3_256_of C (to_vec C left @ to_vec C right)"

fun mhash :: "'h crypto \<Rightarrow> 'h list \<Rightarrow> nat \<Rightarrow> nat \<Rightarrow> 'h" where
  "mhash C ls 0 p = (if p < length ls then ls ! p else ACCUMULATOR_PLACEHOLDER_HASH C)"
| "mhash C ls (Suc l) p =
     (if p * 2 ^ Suc l < length ls
      then hash_children C (mhash C ls l (2 * p)) (mhash C ls l (2 * p + 1))
      else ACCUMULATOR_PLACEHOLDER_HASH C)"

definition merkle_root :: "'h crypto \<Rightarrow> 'h list \<Rightarrow> 'h" where
  "merkle_root C ls = mhash C ls (rlevel (length ls)) 0"

text \<open>The roots of the full subtrees among \<open>n\<close> full nodes of level \<open>k\<close>, left to right.\<close>

definition froots_at :: "'h crypto \<Rightarrow> 'h list \<Rightarrow> nat \<Rightarrow> nat \<Rightarrow> 'h list" where
  "froots_at C ls k n = map (\<lambda>l. mhash C ls (l + k) (n div 2 ^ l - 1)) (ones n)"

definition frozen_roots :: "'h crypto \<Rightarrow> 'h list \<Rightarrow> 'h list" where
  "frozen_roots C ls = map (\<lambda>(l, p). mhash C ls l p) (fcoords (length ls))"

section \<open>Lemmas\<close>

lemma mhash_beyond: "length ls \<le> p * 2 ^ l \<Longrightarrow> mhash C ls l p = ACCUMULATOR_PLACEHOLDER_HASH C"
  by (cases l) auto

lemma hash_children_mhash:
  "q * 2 ^ Suc k < length ls \<Longrightarrow>
   hash_children C (mhash C ls k (2 * q)) (mhash C ls k (Suc (2 * q))) = mhash C ls (Suc k) q"
  by simp

lemma mhash_full_append: "(p + 1) * 2 ^ l \<le> length ls \<Longrightarrow> mhash C (ls @ xs) l p = mhash C ls l p"
proof (induction l arbitrary: p)
  case 0
  then show ?case by (simp add: nth_append)
next
  case (Suc l)
  have "(2 * p + 1 + 1) * 2 ^ l \<le> length ls" "(2 * p + 1) * 2 ^ l \<le> length ls"
    using Suc.prems by (simp_all add: algebra_simps)
  moreover have "p * 2 ^ Suc l < length ls"
    using Suc.prems by (rule less_le_trans [rotated]) simp
  ultimately show ?case using Suc.IH [of "2 * p"] Suc.IH [of "2 * p + 1"] by simp
qed

lemma froots_at_0: "froots_at C ls k 0 = []"
  by (simp add: froots_at_def)

lemma froots_at_even: "froots_at C ls k (2 * n) = froots_at C ls (Suc k) n"
  by (simp add: froots_at_def ones_even)

lemma froots_at_odd: "froots_at C ls k (Suc (2 * n)) = froots_at C ls (Suc k) n @ [mhash C ls k (2 * n)]"
proof -
  have "Suc (2 * n) div 2 ^ Suc l = n div 2 ^ l" for l
    by (simp add: div_mult2_eq)
  then show ?thesis by (simp add: froots_at_def ones_odd del: power_Suc)
qed

lemma froots_at_cong:
  "n * 2 ^ k \<le> length ls \<Longrightarrow> froots_at C (ls @ xs) k n = froots_at C ls k n"
proof (induction n arbitrary: k rule: ones.induct)
  case (1 n)
  show ?case
  proof (cases "n = 0")
    case False
    have IH: "froots_at C (ls @ xs) (Suc k) (n div 2) = froots_at C ls (Suc k) (n div 2)"
    proof (rule 1(1) [OF False])
      have "n div 2 * 2 ^ Suc k = (2 * (n div 2)) * 2 ^ k" by simp
      also have "\<dots> \<le> n * 2 ^ k" by (intro mult_le_mono1) simp
      finally show "n div 2 * 2 ^ Suc k \<le> length ls" using 1(2) by (rule le_trans)
    qed
    show ?thesis
    proof (cases "even n")
      case True
      then show ?thesis using IH froots_at_even [of C _ k "n div 2"] by simp
    next
      case False
      then have n: "n = Suc (2 * (n div 2))" by simp
      then have "mhash C (ls @ xs) k (2 * (n div 2)) = mhash C ls k (2 * (n div 2))"
        using 1(2) by (intro mhash_full_append) simp
      then show ?thesis using IH n froots_at_odd [of C _ k "n div 2"] by simp
    qed
  qed (simp add: froots_at_0)
qed

lemma frozen_roots_at: "frozen_roots C ls = froots_at C ls 0 (length ls)"
  by (simp add: frozen_roots_def froots_at_def fcoords_def)

lemma merkle_root_Nil: "merkle_root C [] = ACCUMULATOR_PLACEHOLDER_HASH C"
  by (simp add: merkle_root_def rlevel_def)

end
