(* ===== verification/Acc_Node.thy ===== *)
theory Acc_Node
  imports Merkle_Spec
begin

text \<open>
  The stored nodes of the accumulator (\<^verbatim>\<open>node.rs\<close>), the record an accumulator is restored
  from (\<^verbatim>\<open>accumulator_info.rs\<close>), the store interface (\<^verbatim>\<open>tree_store/mod.rs\<close>) with the
  contract the tree relies on, and the map-backed store (\<^verbatim>\<open>tree_store/mock.rs\<close>).
\<close>

section \<open>Nodes\<close>

datatype acc_error =
    StoreMissing
  | NodeHashNotFound
  | FrozenRootMissing
  | LeafNotFound
  | InvalidLeafIndex
  | ProofTooLong
  | RootHashMismatch
  | LookupBound

record 'h InternalNode =
  in_index :: NodeIndex
  in_left :: 'h
  in_right :: 'h
  in_is_frozen :: bool

record 'h LeafNode =
  lf_index :: NodeIndex
  lf_hash :: 'h

datatype 'h AccumulatorNode =
    Internal "'h InternalNode"
  | Leaf "'h LeafNode"
  | Empty

definition internal_new :: "'h crypto \<Rightarrow> NodeIndex \<Rightarrow> 'h \<Rightarrow> 'h \<Rightarrow> 'h InternalNode" where
  "internal_new C index left right =
     \<lparr>in_index = index, in_left = left, in_right = right,
      in_is_frozen = (right \<noteq> ACCUMULATOR_PLACEHOLDER_HASH C)\<rparr>"

definition internal_hash :: "'h crypto \<Rightarrow> 'h InternalNode \<Rightarrow> 'h" where
  "internal_hash C n =
     (let bytes = to_vec C (in_left n);
          bytes = bytes @ to_vec C (in_right n)
      in sha3_256_of C bytes)"

definition set_frozen :: "'h InternalNode \<Rightarrow> 'h InternalNode" where
  "set_frozen n = n\<lparr>in_is_frozen := True\<rparr>"

definition new_internal :: "'h crypto \<Rightarrow> NodeIndex \<Rightarrow> 'h \<Rightarrow> 'h \<Rightarrow> 'h AccumulatorNode" where
  "new_internal C index left right = Internal (internal_new C index left right)"

definition new_leaf :: "NodeIndex \<Rightarrow> 'h \<Rightarrow> 'h AccumulatorNode" where
  "new_leaf index value = Leaf \<lparr>lf_index = index, lf_hash = value\<rparr>"

fun node_hash :: "'h crypto \<Rightarrow> 'h AccumulatorNode \<Rightarrow> 'h" where
  "node_hash C (Internal n) = internal_hash C n"
| "node_hash C (Leaf n) = lf_hash n"
| "node_hash C Empty = ACCUMULATOR_PLACEHOLDER_HASH C"

fun node_idx :: "'h AccumulatorNode \<Rightarrow> NodeIndex" where
  "node_idx (Internal n) = in_index n"
| "node_idx (Leaf n) = lf_index n"
| "node_idx Empty = NODE_ERROR_INDEX"

fun frozen :: "'h AccumulatorNode \<Rightarrow> 'h AccumulatorNode" where
  "frozen (Internal n) = Internal (set_frozen n)"
| "frozen n = n"

fun is_frozen :: "'h AccumulatorNode \<Rightarrow> bool" where
  "is_frozen (Internal n) = in_is_frozen n"
| "is_frozen (Leaf n) = True"
| "is_frozen Empty = False"

record 'h AccumulatorInfo =
  accumulator_root :: 'h
  info_frozen_subtree_roots :: "'h list"
  info_num_leaves :: u64
  info_num_nodes :: u64

definition accumulator_info_new :: "'h \<Rightarrow> 'h list \<Rightarrow> u64 \<Rightarrow> u64 \<Rightarrow> 'h AccumulatorInfo" where
  "accumulator_info_new root roots leaves nodes =
     \<lparr>accumulator_root = root, info_frozen_subtree_roots = roots,
      info_num_leaves = leaves, info_num_nodes = nodes\<rparr>"

definition accumulator_info_default :: "'h crypto \<Rightarrow> 'h AccumulatorInfo" where
  "accumulator_info_default C =
     \<lparr>accumulator_root = ACCUMULATOR_PLACEHOLDER_HASH C, info_frozen_subtree_roots = [],
      info_num_leaves = 0, info_num_nodes = 0\<rparr>"

section \<open>The store interface\<close>

text \<open>
  The methods of \<^verbatim>\<open>AccumulatorTreeStore\<close> over a store state \<open>'s\<close>. A method that writes returns the
  store also when it fails: the write may be partly done.
\<close>

record ('s, 'h) AccumulatorTreeStore =
  store_get_node :: "'s \<Rightarrow> 'h \<Rightarrow> ('h AccumulatorNode option, acc_error) outcome"
  store_multiple_get :: "'s \<Rightarrow> 'h list \<Rightarrow> ('h AccumulatorNode option list, acc_error) outcome"
  store_save_node :: "'s \<Rightarrow> 'h AccumulatorNode \<Rightarrow> 's \<times> (unit, acc_error) outcome"
  store_save_nodes :: "'s \<Rightarrow> 'h AccumulatorNode list \<Rightarrow> 's \<times> (unit, acc_error) outcome"
  store_delete_nodes :: "'s \<Rightarrow> 'h list \<Rightarrow> 's \<times> (unit, acc_error) outcome"

text \<open>The map-backed store of \<^verbatim>\<open>mock.rs\<close>, its \<^verbatim>\<open>HashMap\<close> as a map.\<close>

type_synonym 'h mock_store = "'h \<rightharpoonup> 'h AccumulatorNode"

definition mock_get_node :: "'h mock_store \<Rightarrow> 'h \<Rightarrow> ('h AccumulatorNode option, acc_error) outcome" where
  "mock_get_node s hash =
     (case s hash of
        Some node \<Rightarrow> Inr (Some node)
      | None \<Rightarrow> Inl (Err StoreMissing))"

definition mock_multiple_get ::
  "'h mock_store \<Rightarrow> 'h list \<Rightarrow> ('h AccumulatorNode option list, acc_error) outcome" where
  "mock_multiple_get s hash_vec = Inl Panic"

definition mock_save_node ::
  "'h crypto \<Rightarrow> 'h mock_store \<Rightarrow> 'h AccumulatorNode \<Rightarrow> 'h mock_store \<times> (unit, acc_error) outcome" where
  "mock_save_node C s node = (s(node_hash C node \<mapsto> node), Inr ())"

definition mock_save_nodes ::
  "'h crypto \<Rightarrow> 'h mock_store \<Rightarrow> 'h AccumulatorNode list \<Rightarrow> 'h mock_store \<times> (unit, acc_error) outcome" where
  "mock_save_nodes C s nodes = (fold (\<lambda>node m. m(node_hash C node \<mapsto> node)) nodes s, Inr ())"

definition mock_delete_nodes :: "'h mock_store \<Rightarrow> 'h list \<Rightarrow> 'h mock_store \<times> (unit, acc_error) outcome" where
  "mock_delete_nodes s node_hash_vec = (fold (\<lambda>h m. m(h := None)) node_hash_vec s, Inr ())"

definition MockAccumulatorStore :: "'h crypto \<Rightarrow> ('h mock_store, 'h) AccumulatorTreeStore" where
  "MockAccumulatorStore C =
     \<lparr>store_get_node = mock_get_node, store_multiple_get = mock_multiple_get,
      store_save_node = mock_save_node C, store_save_nodes = mock_save_nodes C,
      store_delete_nodes = mock_delete_nodes\<rparr>"

section \<open>The contract of a store\<close>

text \<open>
  What the tree relies on: a node that is present is returned, saving nodes enters each of
  them under its hash, later ones replacing earlier ones, and a save that fails has left each
  hash as it was or entered one of the nodes that have it.
\<close>

locale accumulator_saves =
  fixes C :: "'h crypto"
    and S :: "('s, 'h) AccumulatorTreeStore"
    and nodes :: "'s \<Rightarrow> 'h \<Rightarrow> 'h AccumulatorNode option"
  assumes get_node_present: "nodes s h = Some n \<Longrightarrow> store_get_node S s h = Inr (Some n)"
    and save_nodes_ok: "store_save_nodes S s ns = (s', Inr ()) \<Longrightarrow>
      nodes s' = fold (\<lambda>n m. m(node_hash C n \<mapsto> n)) ns (nodes s)"
    and save_nodes_err: "store_save_nodes S s ns = (s', Inl e) \<Longrightarrow>
      nodes s' h = nodes s h \<or> (\<exists>n \<in> set ns. node_hash C n = h \<and> nodes s' h = Some n)"

text \<open>A store whose saves do not fail.\<close>

locale accumulator_store = accumulator_saves +
  assumes save_nodes_total: "\<exists>s'. store_save_nodes S s ns = (s', Inr ())"

interpretation mock: accumulator_store C "MockAccumulatorStore C" "\<lambda>s. s" for C
  by unfold_locales
    (simp_all add: MockAccumulatorStore_def mock_get_node_def mock_save_nodes_def)

section \<open>The nodes of the reference tree\<close>

fun acc_node :: "'h crypto \<Rightarrow> 'h list \<Rightarrow> nat \<Rightarrow> nat \<Rightarrow> 'h AccumulatorNode" where
  "acc_node C ls 0 p = new_leaf (NI 0 p) (ls ! p)"
| "acc_node C ls (Suc l) p =
     new_internal C (NI (Suc l) p) (mhash C ls l (2 * p)) (mhash C ls l (2 * p + 1))"

text \<open>The node \<open>(l, p)\<close> is part of the tree over \<open>n\<close> leaves.\<close>

definition present :: "nat \<Rightarrow> nat \<Rightarrow> nat \<Rightarrow> bool" where
  "present n l p \<longleftrightarrow> l \<le> rlevel n \<and> p * 2 ^ l < n"

text \<open>
  No two nodes of the tree, the empty node included, have the same hash. Leaves carry their
  position, so this asks more of the leaves than that the hash has no collision: they are
  distinct, and none of them is the placeholder hash.
\<close>

definition collision_free :: "'h crypto \<Rightarrow> 'h list \<Rightarrow> bool" where
  "collision_free C ls \<longleftrightarrow>
     inj_on (node_hash C) (insert Empty {acc_node C ls l p |l p. present (length ls) l p})"

lemma internal_hash_eq [simp]: "internal_hash C (internal_new C i x y) = hash_children C x y"
  by (simp add: internal_hash_def internal_new_def hash_children_def)

lemma internal_new_sel [simp]:
  "in_index (internal_new C i x y) = i"
  "in_left (internal_new C i x y) = x"
  "in_right (internal_new C i x y) = y"
  by (simp_all add: internal_new_def)

lemma node_hash_new [simp]:
  "node_hash C (new_internal C i x y) = hash_children C x y"
  "node_hash C (new_leaf i h) = h"
  by (simp_all add: new_internal_def new_leaf_def)

lemma node_idx_acc_node [simp]: "node_idx (acc_node C ls l p) = NI l p"
  by (cases l) (simp_all add: new_internal_def new_leaf_def)

lemma node_hash_acc_node: "p * 2 ^ l < length ls \<Longrightarrow> node_hash C (acc_node C ls l p) = mhash C ls l p"
  by (cases l) simp_all

lemma present_hash:
  "present (length ls) l p \<Longrightarrow> node_hash C (acc_node C ls l p) = mhash C ls l p"
  by (simp add: present_def node_hash_acc_node)

lemma collision_free_inj:
  assumes "collision_free C ls" and "present (length ls) l p" and "present (length ls) l' p'"
    and "mhash C ls l p = mhash C ls l' p'"
  shows "acc_node C ls l p = acc_node C ls l' p'"
  using assms(2-) by (intro inj_onD [OF assms(1) [unfolded collision_free_def]])
    (auto simp: present_hash)

lemma collision_free_placeholder:
  assumes "collision_free C ls" and "present (length ls) l p"
  shows "mhash C ls l p \<noteq> ACCUMULATOR_PLACEHOLDER_HASH C"
proof
  assume "mhash C ls l p = ACCUMULATOR_PLACEHOLDER_HASH C"
  then have "acc_node C ls l p = Empty"
    using assms(2) by (intro inj_onD [OF assms(1) [unfolded collision_free_def]])
      (auto simp: present_hash)
  then show False by (cases l) (auto simp: new_internal_def new_leaf_def)
qed

lemma collision_free_leaves:
  assumes "collision_free C ls" and "length ls \<le> 2 ^ 63"
  shows "distinct ls" and "ACCUMULATOR_PLACEHOLDER_HASH C \<notin> set ls"
proof -
  have pr: "present (length ls) 0 p" if "p < length ls" for p using that by (simp add: present_def)
  show "distinct ls"
    unfolding distinct_conv_nth
  proof (intro allI impI notI)
    fix i j assume ij: "i < length ls" "j < length ls" "i \<noteq> j" "ls ! i = ls ! j"
    then have "acc_node C ls 0 i = acc_node C ls 0 j"
      using collision_free_inj [OF assms(1) pr pr, of i j] by simp
    then have "NI 0 i = NI 0 j" by (metis node_idx_acc_node)
    then show False using ij assms(2) NI_inject [of 0 i 0 j] valid_leaf [of i] valid_leaf [of j] by simp
  qed
  show "ACCUMULATOR_PLACEHOLDER_HASH C \<notin> set ls"
    using collision_free_placeholder [OF assms(1) pr] by (auto simp: in_set_conv_nth)
qed

lemma acc_node_full:
  "(p + 1) * 2 ^ l \<le> length ls \<Longrightarrow> acc_node C (ls @ xs) l p = acc_node C ls l p"
proof (cases l)
  case 0
  assume "(p + 1) * 2 ^ l \<le> length ls"
  then show ?thesis using 0 by (simp add: nth_append)
next
  case (Suc k)
  assume "(p + 1) * 2 ^ l \<le> length ls"
  then have "(2 * p + 1 + 1) * 2 ^ k \<le> length ls" "(2 * p + 1) * 2 ^ k \<le> length ls"
    using Suc by (simp_all add: algebra_simps)
  then show ?thesis
    using Suc mhash_full_append [of "2 * p" k ls C xs] mhash_full_append [of "2 * p + 1" k ls C xs]
    by simp
qed

lemma present_full: "(p + 1) * 2 ^ l \<le> n \<Longrightarrow> present n l p"
proof -
  assume le: "(p + 1) * 2 ^ l \<le> n"
  have "p * 2 ^ l < (p + 1) * 2 ^ l" by simp
  then have "p * 2 ^ l < n" using le by (rule less_le_trans)
  moreover have "2 ^ l \<le> (p + 1) * 2 ^ l" by simp
  then have "2 ^ l \<le> n" using le by (rule le_trans)
  have "l \<le> rlevel n"
  proof (rule ccontr)
    assume "\<not> l \<le> rlevel n"
    then have "2 ^ Suc (rlevel n) \<le> (2 ^ l :: nat)" by (intro power_increasing) auto
    moreover have "n \<le> 2 ^ rlevel n" using rlevel_le_iff [of n "rlevel n"] by simp
    moreover have "0 < n" using \<open>2 ^ l \<le> n\<close> by (rule less_le_trans [rotated]) simp
    ultimately show False using \<open>2 ^ l \<le> n\<close> by simp
  qed
  ultimately show ?thesis by (simp add: present_def)
qed

end
