(* ===== verification/Acc_Tree.thy ===== *)
theory Acc_Tree
  imports Acc_Node "HOL-Library.AList"
begin

text \<open>
  The persistent accumulator tree, \<^verbatim>\<open>commons/accumulator/src/tree.rs\<close>: leaves are
  appended, new nodes are kept in a map of pending updates and in an index cache until
  they are flushed, and the hash of a node is found through the cache, the pending nodes
  and the store. The cache is an \<^verbatim>\<open>LruCache\<close> of the \<^verbatim>\<open>lru\<close> crate, so its operations are a
  parameter with the documented behaviour \<open>lru_ok\<close>.
\<close>

section \<open>Definitions\<close>

record ('c, 'v) lru_ops =
  lru_new :: "u64 \<Rightarrow> 'c"
  lru_get :: "'c \<Rightarrow> NodeIndex \<Rightarrow> 'v option \<times> 'c"
  lru_put :: "'c \<Rightarrow> NodeIndex \<Rightarrow> 'v \<Rightarrow> 'c"

text \<open>
  \<open>content c\<close> are the entries of a cache: a new cache has none, \<^verbatim>\<open>get\<close> returns the entry and
  keeps the entries (it changes their recency), \<^verbatim>\<open>put\<close> enters the pair and may evict others.
\<close>

definition lru_ok :: "('c, 'v) lru_ops \<Rightarrow> ('c \<Rightarrow> NodeIndex \<rightharpoonup> 'v) \<Rightarrow> bool" where
  "lru_ok K content \<longleftrightarrow>
     (\<forall>n. content (lru_new K n) = Map.empty) \<and>
     (\<forall>c k. fst (lru_get K c k) = content c k \<and> content (snd (lru_get K c k)) = content c) \<and>
     (\<forall>c k v. content (lru_put K c k v) \<subseteq>\<^sub>m (content c)(k \<mapsto> v))"

text \<open>The code the tree calls: hashing, the cache and the store.\<close>

record ('h, 'c, 's) acc_env =
  env_crypto :: "'h crypto"
  env_lru :: "('c, 'h) lru_ops"
  env_store :: "('s, 'h) AccumulatorTreeStore"

record ('h, 'c, 's) AccumulatorTree =
  frozen_subtree_roots :: "'h list"
  num_leaves :: LeafCount
  num_nodes :: NodeCount
  root_hash :: 'h
  index_cache :: 'c
  store :: 's
  update_nodes :: "('h \<times> 'h AccumulatorNode) list"

definition MAC_CACHE_SIZE :: u64 where
  "MAC_CACHE_SIZE = 65535"

definition tree_new ::
  "('h, 'c, 's) acc_env \<Rightarrow> 'h list \<Rightarrow> LeafCount \<Rightarrow> NodeCount \<Rightarrow> 'h \<Rightarrow> 's \<Rightarrow> ('h, 'c, 's) AccumulatorTree" where
  "tree_new E roots leaves nodes root st =
     \<lparr>frozen_subtree_roots = roots, num_leaves = leaves, num_nodes = nodes, root_hash = root,
      index_cache = lru_new (env_lru E) MAC_CACHE_SIZE, store = st, update_nodes = []\<rparr>"

definition tree_new_empty :: "('h, 'c, 's) acc_env \<Rightarrow> 's \<Rightarrow> ('h, 'c, 's) AccumulatorTree" where
  "tree_new_empty E st = tree_new E [] 0 0 (ACCUMULATOR_PLACEHOLDER_HASH (env_crypto E)) st"

definition get_node ::
  "('h, 'c, 's) acc_env \<Rightarrow> ('h, 'c, 's) AccumulatorTree \<Rightarrow> 'h \<Rightarrow> ('h AccumulatorNode option, acc_error) outcome" where
  "get_node E T hash =
     (case (if update_nodes T \<noteq> [] then map_of (update_nodes T) hash else None) of
        Some node \<Rightarrow> Inr (Some node)
      | None \<Rightarrow> store_get_node (env_store E) (store T) hash)"

definition flush ::
  "('h, 'c, 's) acc_env \<Rightarrow> ('h, 'c, 's) AccumulatorTree \<Rightarrow> (unit, acc_error) outcome \<times> ('h, 'c, 's) AccumulatorTree" where
  "flush E T =
     (if update_nodes T \<noteq> [] then
        case store_save_nodes (env_store E) (store T) (map snd (update_nodes T)) of
          (st, Inl e) \<Rightarrow> (Inl e, T\<lparr>store := st\<rparr>)
        | (st, Inr _) \<Rightarrow> (Inr (), T\<lparr>store := st, update_nodes := []\<rparr>)
      else (Inr (), T))"

definition rightmost_leaf_index :: "('h, 'c, 's) AccumulatorTree \<Rightarrow> u64" where
  "rightmost_leaf_index T = (if num_leaves T = 0 then 0 else num_leaves T - 1)"

definition max_to_freeze :: "u64 \<Rightarrow> u64 \<Rightarrow> u64" where
  "max_to_freeze num_new_leaves root_level = num_new_leaves * 2 + root_level"

definition get_node_index ::
  "('h, 'c, 's) acc_env \<Rightarrow> NodeIndex \<Rightarrow> ('h, 'c, 's) AccumulatorTree \<Rightarrow> 'h option \<times> ('h, 'c, 's) AccumulatorTree" where
  "get_node_index E key T =
     (case lru_get (env_lru E) (index_cache T) key of (v, c) \<Rightarrow> (v, T\<lparr>index_cache := c\<rparr>))"

text \<open>The loop that looks for a cached ancestor.\<close>

fun find_cached_parent ::
  "('h, 'c, 's) acc_env \<Rightarrow> nat \<Rightarrow> NodeIndex \<Rightarrow> ('h, 'c, 's) AccumulatorTree \<Rightarrow> 'h option \<times> ('h, 'c, 's) AccumulatorTree" where
  "find_cached_parent E 0 temp_index T = (None, T)"
| "find_cached_parent E (Suc i) temp_index T =
     (case get_node_index E (parent temp_index) T of
        (Some internal_parent_hash, T) \<Rightarrow> (Some internal_parent_hash, T)
      | (None, T) \<Rightarrow> find_cached_parent E i (parent temp_index) T)"

text \<open>
  The loop that walks down from a known node. In a store that holds the nodes of the tree
  each round goes down one of at most 64 levels; the bound on the number of rounds stands
  for a walk that a store with cyclic entries would keep running.
\<close>

definition LOOKUP_ROUNDS :: nat where
  "LOOKUP_ROUNDS = 65"

fun lookup_loop ::
  "('h, 'c, 's) acc_env \<Rightarrow> ('h, 'c, 's) AccumulatorTree \<Rightarrow> NodeIndex \<Rightarrow> nat \<Rightarrow> 'h list \<Rightarrow> ('h, acc_error) outcome" where
  "lookup_loop E T index 0 hash_vec = Inl (Err LookupBound)"
| "lookup_loop E T index (Suc rounds) hash_vec =
     (case vec_pop hash_vec of
        None \<Rightarrow> Inl (Err NodeHashNotFound)
      | Some (temp_node_hash, hash_vec) \<Rightarrow>
          obind (get_node E T temp_node_hash) (\<lambda>found.
          case found of
            Some (Internal internal) \<Rightarrow>
              let internal_index = in_index internal;
                  placeholder = ACCUMULATOR_PLACEHOLDER_HASH (env_crypto E)
              in if internal_index = index then Inr (internal_hash (env_crypto E) internal)
                 else if internal_index = parent index then
                   if left_child internal_index = index then Inr (in_left internal)
                   else if right_child internal_index = index then Inr (in_right internal)
                   else lookup_loop E T index rounds hash_vec
                 else if internal_index > index then
                   if in_left internal \<noteq> placeholder \<and> \<not> is_leaf (left_child internal_index)
                   then lookup_loop E T index rounds (hash_vec @ [in_left internal])
                   else lookup_loop E T index rounds hash_vec
                 else
                   if in_right internal \<noteq> placeholder \<and> \<not> is_leaf (right_child internal_index)
                   then lookup_loop E T index rounds (hash_vec @ [in_right internal])
                   else lookup_loop E T index rounds hash_vec
          | Some (Leaf leaf) \<Rightarrow>
              if lf_index leaf = index then Inr (lf_hash leaf)
              else lookup_loop E T index rounds hash_vec
          | _ \<Rightarrow> lookup_loop E T index rounds hash_vec))"

definition get_node_hash_always ::
  "('h, 'c, 's) acc_env \<Rightarrow> NodeIndex \<Rightarrow> ('h, 'c, 's) AccumulatorTree
   \<Rightarrow> ('h, acc_error) outcome \<times> ('h, 'c, 's) AccumulatorTree" where
  "get_node_hash_always E index T =
     (case get_node_index E index T of
        (Some hash, T) \<Rightarrow> (Inr hash, T)
      | (None, T) \<Rightarrow>
          (case root_from_leaf_count (num_leaves T) of
             Inl e \<Rightarrow> (Inl e, T)
           | Inr root_index \<Rightarrow>
               (case find_cached_parent E (level root_index + 1) index T of
                  (parent_hash, T) \<Rightarrow>
                    let parent_hash = (case parent_hash of None \<Rightarrow> root_hash T | Some h \<Rightarrow> h)
                    in (lookup_loop E T index LOOKUP_ROUNDS [parent_hash], T))))"

definition get_node_hash ::
  "('h, 'c, 's) acc_env \<Rightarrow> NodeIndex \<Rightarrow> ('h, 'c, 's) AccumulatorTree
   \<Rightarrow> ('h option, acc_error) outcome \<times> ('h, 'c, 's) AccumulatorTree" where
  "get_node_hash E index T =
     (let idx = rightmost_leaf_index T
      in if is_placeholder index idx then (Inr None, T)
         else sbind (get_node_hash_always E index) (\<lambda>h T. (Inr (Some h), T)) T)"

definition scan_frozen_subtree_roots ::
  "('h, 'c, 's) acc_env \<Rightarrow> ('h, 'c, 's) AccumulatorTree
   \<Rightarrow> ('h list, acc_error) outcome \<times> ('h, 'c, 's) AccumulatorTree" where
  "scan_frozen_subtree_roots E T =
     smap (\<lambda>p. sbind (get_node_hash E p) (\<lambda>h T. (ok_or h FrozenRootMissing, T)))
       (frozen_subtree_collect (frozen_subtree_iter_new (num_leaves T))) T"

definition get_siblings ::
  "('h, 'c, 's) acc_env \<Rightarrow> u64 \<Rightarrow> (NodeIndex \<Rightarrow> bool) \<Rightarrow> ('h, 'c, 's) AccumulatorTree
   \<Rightarrow> ('h list, acc_error) outcome \<times> ('h, 'c, 's) AccumulatorTree" where
  "get_siblings E leaf_index keep T =
     (case root_from_leaf_count (num_leaves T) of
        Inl e \<Rightarrow> (Inl e, T)
      | Inr root_pos \<Rightarrow>
          smap (get_node_hash_always E)
            (filter keep (ancestor_sibling_take (level root_pos)
              (iter_ancestor_sibling (from_leaf_index leaf_index)))) T)"

definition update_temp_nodes ::
  "('h, 'c, 's) acc_env \<Rightarrow> 'h AccumulatorNode list \<Rightarrow> ('h, 'c, 's) AccumulatorTree \<Rightarrow> ('h, 'c, 's) AccumulatorTree" where
  "update_temp_nodes E nodes T =
     T\<lparr>update_nodes := fold (\<lambda>node. AList.update (node_hash (env_crypto E) node) node) nodes (update_nodes T)\<rparr>"

definition save_node_indexes ::
  "('h, 'c, 's) acc_env \<Rightarrow> 'h AccumulatorNode list \<Rightarrow> ('h, 'c, 's) AccumulatorTree \<Rightarrow> ('h, 'c, 's) AccumulatorTree" where
  "save_node_indexes E nodes T =
     T\<lparr>index_cache := fold (\<lambda>node c. lru_put (env_lru E) c (node_idx node) (node_hash (env_crypto E) node))
       nodes (index_cache T)\<rparr>"

definition update_cache ::
  "('h, 'c, 's) acc_env \<Rightarrow> 'h AccumulatorNode list \<Rightarrow> ('h, 'c, 's) AccumulatorTree \<Rightarrow> ('h, 'c, 's) AccumulatorTree" where
  "update_cache E node_vec T = save_node_indexes E node_vec T"

text \<open>
  The left sibling of a right child in \<^verbatim>\<open>append\<close>: the last one created in this call, which
  must be the sibling (\<^verbatim>\<open>assert_eq!\<close>), or else a node of the existing tree.
\<close>

definition left_sibling_hash ::
  "('h, 'c, 's) acc_env \<Rightarrow> NodeIndex \<Rightarrow> (NodeIndex \<times> 'h) list \<Rightarrow> ('h, 'c, 's) AccumulatorTree
   \<Rightarrow> ('h \<times> (NodeIndex \<times> 'h) list, acc_error) outcome \<times> ('h, 'c, 's) AccumulatorTree" where
  "left_sibling_hash E sib left_siblings T =
     (case vec_pop left_siblings of
        Some ((x, left_hash), left_siblings) \<Rightarrow>
          (obind (assert_that (x = sib)) (\<lambda>_. Inr (left_hash, left_siblings)), T)
      | None \<Rightarrow>
          sbind (get_node_hash E sib) (\<lambda>h T.
            (Inr (case h of None \<Rightarrow> ACCUMULATOR_PLACEHOLDER_HASH (env_crypto E) | Some h \<Rightarrow> h,
                  left_siblings), T)) T)"

text \<open>The inner loop of \<^verbatim>\<open>append\<close>: while the node is a right child its parent is complete.\<close>

function freeze_parents ::
  "('h, 'c, 's) acc_env \<Rightarrow> NodeIndex \<Rightarrow> 'h \<Rightarrow> (NodeIndex \<times> 'h) list \<Rightarrow> 'h AccumulatorNode list \<Rightarrow> NodeCount
   \<Rightarrow> ('h, 'c, 's) AccumulatorTree
   \<Rightarrow> (NodeIndex \<times> 'h \<times> (NodeIndex \<times> 'h) list \<times> 'h AccumulatorNode list \<times> NodeCount, acc_error) outcome
      \<times> ('h, 'c, 's) AccumulatorTree" where
  "freeze_parents E pos hash left_siblings to_freeze new_num_nodes T =
     (if is_right_child pos then
        (case left_sibling_hash E (sibling pos) left_siblings T of
           (Inl e, T) \<Rightarrow> (Inl e, T)
         | (Inr (left_hash, left_siblings), T) \<Rightarrow>
             let internal_node = new_internal (env_crypto E) (parent pos) left_hash hash
             in freeze_parents E (parent pos) (node_hash (env_crypto E) internal_node) left_siblings
                  (to_freeze @ [internal_node]) (new_num_nodes + 1) T)
      else (Inr (pos, hash, left_siblings, to_freeze, new_num_nodes), T))"
  by pat_completeness auto
termination
  by (relation "measure (\<lambda>(E, pos, _). unat pos)") (auto intro: parent_less)

declare freeze_parents.simps [simp del]

text \<open>The outer loop over the new leaves.\<close>

fun freeze_leaves ::
  "('h, 'c, 's) acc_env \<Rightarrow> LeafCount \<Rightarrow> 'h list \<Rightarrow> (NodeIndex \<times> 'h) list \<Rightarrow> 'h AccumulatorNode list \<Rightarrow> NodeCount
   \<Rightarrow> ('h, 'c, 's) AccumulatorTree
   \<Rightarrow> ((NodeIndex \<times> 'h) list \<times> 'h AccumulatorNode list \<times> NodeCount, acc_error) outcome
      \<times> ('h, 'c, 's) AccumulatorTree" where
  "freeze_leaves E leaf_offset [] left_siblings to_freeze new_num_nodes T =
     (Inr (left_siblings, to_freeze, new_num_nodes), T)"
| "freeze_leaves E leaf_offset (leaf # leaves) left_siblings to_freeze new_num_nodes T =
     (let leaf_pos = from_leaf_index (num_leaves T + leaf_offset);
          to_freeze = to_freeze @ [new_leaf leaf_pos leaf]
      in sbind (freeze_parents E leaf_pos leaf left_siblings to_freeze (new_num_nodes + 1))
           (\<lambda>(pos, hash, left_siblings, to_freeze, new_num_nodes).
              freeze_leaves E (leaf_offset + 1) leaves (left_siblings @ [(pos, hash)]) to_freeze new_num_nodes)
           T)"

text \<open>The loop that rebuilds the path to the root.\<close>

fun walk_to_root ::
  "('h, 'c, 's) acc_env \<Rightarrow> nat \<Rightarrow> NodeIndex \<Rightarrow> 'h \<Rightarrow> (NodeIndex \<times> 'h) list \<Rightarrow> 'h AccumulatorNode list
   \<Rightarrow> ('h, 'c, 's) AccumulatorTree
   \<Rightarrow> ('h \<times> 'h AccumulatorNode list, acc_error) outcome \<times> ('h, 'c, 's) AccumulatorTree" where
  "walk_to_root E 0 pos hash left_siblings not_frozen_nodes T = (Inr (hash, not_frozen_nodes), T)"
| "walk_to_root E (Suc n) pos hash left_siblings not_frozen_nodes T =
     (if is_left_child pos then
        let not_frozen = new_internal (env_crypto E) (parent pos) hash (ACCUMULATOR_PLACEHOLDER_HASH (env_crypto E))
        in walk_to_root E n (parent pos) (node_hash (env_crypto E) not_frozen) left_siblings
             (not_frozen_nodes @ [not_frozen]) T
      else
        sbind (left_sibling_hash E (sibling pos) left_siblings) (\<lambda>(left_hash, left_siblings).
          let not_frozen = new_internal (env_crypto E) (parent pos) left_hash hash
          in walk_to_root E n (parent pos) (node_hash (env_crypto E) not_frozen) left_siblings
               (not_frozen_nodes @ [not_frozen])) T)"

definition tree_append ::
  "('h, 'c, 's) acc_env \<Rightarrow> 'h list \<Rightarrow> ('h, 'c, 's) AccumulatorTree
   \<Rightarrow> ('h, acc_error) outcome \<times> ('h, 'c, 's) AccumulatorTree" where
  "tree_append E new_leaves T =
     (if new_leaves = [] then
        (Inr (if num_leaves T = 0 then ACCUMULATOR_PLACEHOLDER_HASH (env_crypto E) else root_hash T), T)
      else
        let last_new_leaf_count = num_leaves T + word_of_nat (length new_leaves)
        in case root_level_from_leaf_count last_new_leaf_count of
             Inl e \<Rightarrow> (Inl e, T)
           | Inr root_level \<Rightarrow>
               sbind (freeze_leaves E 0 new_leaves [] [] (num_nodes T))
                 (\<lambda>(left_siblings, to_freeze, new_num_nodes).
               sbind (\<lambda>T. (expect (vec_pop left_siblings), T)) (\<lambda>((pos, hash), left_siblings).
               sbind (walk_to_root E (root_level - level pos) pos hash left_siblings [])
                 (\<lambda>(hash, not_frozen_nodes) T.
                   let to_freeze = map (\<lambda>node. let frozen_clone = frozen node in node) to_freeze;
                       not_frozen_nodes = not_frozen_nodes @ to_freeze;
                       T = update_temp_nodes E not_frozen_nodes T;
                       T = update_cache E not_frozen_nodes T;
                       T = T\<lparr>root_hash := hash, num_leaves := last_new_leaf_count\<rparr>
                   in sbind (scan_frozen_subtree_roots E) (\<lambda>roots T.
                        (Inr hash, T\<lparr>frozen_subtree_roots := roots, num_nodes := new_num_nodes\<rparr>)) T))) T)"

section \<open>The invariant\<close>

text \<open>The nodes a tree can look up: the pending ones before those of the store.\<close>

definition tree_nodes ::
  "('s \<Rightarrow> 'h \<rightharpoonup> 'h AccumulatorNode) \<Rightarrow> ('h, 'c, 's) AccumulatorTree \<Rightarrow> 'h \<rightharpoonup> 'h AccumulatorNode" where
  "tree_nodes nodes T = nodes (store T) ++ map_of (update_nodes T)"

text \<open>What looking up node hashes needs of a tree over \<open>ls\<close>.\<close>

definition lookup_inv ::
  "'h crypto \<Rightarrow> ('c \<Rightarrow> NodeIndex \<rightharpoonup> 'h) \<Rightarrow> ('s \<Rightarrow> 'h \<rightharpoonup> 'h AccumulatorNode) \<Rightarrow> 'h list
   \<Rightarrow> ('h, 'c, 's) AccumulatorTree \<Rightarrow> bool" where
  "lookup_inv C content nodes ls T \<longleftrightarrow>
     num_leaves T = word_of_nat (length ls) \<and>
     root_hash T = merkle_root C ls \<and>
     (\<forall>k h. content (index_cache T) k = Some h \<longrightarrow>
        (\<exists>l p. present (length ls) l p \<and> k = NI l p \<and> h = mhash C ls l p)) \<and>
     (\<forall>l p. present (length ls) l p \<longrightarrow>
        tree_nodes nodes T (mhash C ls l p) = Some (acc_node C ls l p)) \<and>
     distinct (map fst (update_nodes T)) \<and>
     (\<forall>(h, n) \<in> set (update_nodes T). node_hash C n = h)"

text \<open>The number of complete nodes of a tree over \<open>n\<close> leaves.\<close>

definition frozen_count :: "nat \<Rightarrow> nat" where
  "frozen_count n = 2 * n - length (ones n)"

definition tree_inv ::
  "'h crypto \<Rightarrow> ('c \<Rightarrow> NodeIndex \<rightharpoonup> 'h) \<Rightarrow> ('s \<Rightarrow> 'h \<rightharpoonup> 'h AccumulatorNode) \<Rightarrow> 'h list
   \<Rightarrow> ('h, 'c, 's) AccumulatorTree \<Rightarrow> bool" where
  "tree_inv C content nodes ls T \<longleftrightarrow>
     length ls \<le> 2 ^ 63 \<and> collision_free C ls \<and>
     lookup_inv C content nodes ls T \<and>
     frozen_subtree_roots T = frozen_roots C ls \<and>
     num_nodes T = word_of_nat (frozen_count (length ls))"

text \<open>Two trees that differ in the recency of cache entries only.\<close>

definition cache_eq ::
  "('c \<Rightarrow> NodeIndex \<rightharpoonup> 'h) \<Rightarrow> ('h, 'c, 's) AccumulatorTree \<Rightarrow> ('h, 'c, 's) AccumulatorTree \<Rightarrow> bool" where
  "cache_eq content T T' \<longleftrightarrow>
     content (index_cache T') = content (index_cache T) \<and> T' = T\<lparr>index_cache := index_cache T'\<rparr>"

lemma cache_eq_refl [simp, intro]: "cache_eq content T T"
  by (simp add: cache_eq_def)

lemma cache_eq_sel:
  assumes "cache_eq content T T'"
  shows "num_leaves T' = num_leaves T" "num_nodes T' = num_nodes T" "root_hash T' = root_hash T"
    "store T' = store T" "update_nodes T' = update_nodes T"
    "frozen_subtree_roots T' = frozen_subtree_roots T"
    "content (index_cache T') = content (index_cache T)"
proof -
  have "T' = T\<lparr>index_cache := index_cache T'\<rparr>" and c: "content (index_cache T') = content (index_cache T)"
    using assms by (simp_all add: cache_eq_def)
  then obtain c where "T' = T\<lparr>index_cache := c\<rparr>" by blast
  then show "num_leaves T' = num_leaves T" "num_nodes T' = num_nodes T" "root_hash T' = root_hash T"
    "store T' = store T" "update_nodes T' = update_nodes T"
    "frozen_subtree_roots T' = frozen_subtree_roots T" by simp_all
  show "content (index_cache T') = content (index_cache T)" by (rule c)
qed

lemma cache_eq_trans: "cache_eq content T T' \<Longrightarrow> cache_eq content T' T'' \<Longrightarrow> cache_eq content T T''"
  by (cases T; cases T'; cases T'') (simp add: cache_eq_def)

lemma lookup_inv_cache_eq:
  "cache_eq content T T' \<Longrightarrow> lookup_inv C content nodes ls T \<Longrightarrow> lookup_inv C content nodes ls T'"
  by (simp add: lookup_inv_def tree_nodes_def cache_eq_sel)

lemma tree_inv_cache_eq:
  "cache_eq content T T' \<Longrightarrow> tree_inv C content nodes ls T \<Longrightarrow> tree_inv C content nodes ls T'"
  by (simp add: tree_inv_def lookup_inv_cache_eq cache_eq_sel)

section \<open>Geometry of the present nodes\<close>

lemma rlevel_63: "n \<le> 2 ^ 63 \<Longrightarrow> rlevel n \<le> 63"
  by (simp add: rlevel_le_iff)

lemma present_valid: "present n l p \<Longrightarrow> n \<le> 2 ^ 63 \<Longrightarrow> valid l p"
proof -
  assume a: "present n l p" "n \<le> 2 ^ 63"
  then have l: "l \<le> 63" using rlevel_63 [of n] by (simp add: present_def)
  have "p * 2 ^ l < 2 ^ (63 - l) * 2 ^ l" using a l by (simp add: present_def flip: power_add)
  then show ?thesis using l by (simp add: valid_def)
qed

lemma present_ancestor:
  assumes "present n l p" and "l \<le> a" and "a \<le> rlevel n"
  shows "present n a (p div 2 ^ (a - l))"
proof -
  have "p div 2 ^ (a - l) * 2 ^ a = p div 2 ^ (a - l) * 2 ^ (a - l) * 2 ^ l"
    using assms(2) by (simp add: mult.assoc flip: power_add)
  also have "\<dots> \<le> p * 2 ^ l" by (intro mult_le_mono1) simp
  finally show ?thesis using assms by (simp add: present_def)
qed

lemma present_root: "present n (rlevel n) p \<Longrightarrow> p = 0"
proof -
  assume "present n (rlevel n) p"
  then have "p * 2 ^ rlevel n < n" by (simp add: present_def)
  also have "n \<le> 1 * 2 ^ rlevel n" using rlevel_le_iff [of n "rlevel n"] by simp
  finally show ?thesis by (simp only: mult_less_cancel2) simp
qed

lemma present_left: "present n (Suc l) q \<Longrightarrow> present n l (2 * q)"
  by (simp add: present_def mult.left_commute mult.commute)

text \<open>
  A node whose hash the tree can give: each proper ancestor is present, and so is the
  node itself unless it has a parent (an empty right sibling).
\<close>

definition reachable_node :: "nat \<Rightarrow> nat \<Rightarrow> nat \<Rightarrow> bool" where
  "reachable_node n l p \<longleftrightarrow> l \<le> rlevel n \<and>
     (if l = rlevel n then present n l p else present n (Suc l) (p div 2))"

lemma reachable_node_present: "present n l p \<Longrightarrow> reachable_node n l p"
  using present_ancestor [of n l p "Suc l"] by (auto simp: reachable_node_def present_def)

lemma reachable_node_ancestor:
  assumes "reachable_node n l p" and "l < a" and "a \<le> rlevel n"
  shows "present n a (p div 2 ^ (a - l))"
proof -
  have "present n (Suc l) (p div 2)" using assms by (auto simp: reachable_node_def split: if_splits)
  then have "present n a (p div 2 div 2 ^ (a - Suc l))"
    using assms by (intro present_ancestor) auto
  also have "p div 2 div 2 ^ (a - Suc l) = p div 2 ^ (a - l)"
    using assms(2) by (simp add: Suc_diff_Suc flip: div_mult2_eq power_Suc)
  finally show ?thesis .
qed

lemma reachable_node_valid: "reachable_node n l p \<Longrightarrow> n \<le> 2 ^ 63 \<Longrightarrow> valid l p"
proof (cases "l = rlevel n")
  case True
  assume "reachable_node n l p" "n \<le> 2 ^ 63"
  then show ?thesis using True by (intro present_valid) (auto simp: reachable_node_def)
next
  case False
  assume a: "reachable_node n l p" "n \<le> 2 ^ 63"
  then have "valid (Suc l) (p div 2)"
    using False by (intro present_valid) (auto simp: reachable_node_def)
  then have "valid l (2 * (p div 2))" "valid l (2 * (p div 2) + 1)" using valid_children by blast+
  then show ?thesis by (cases "even p") auto
qed

end
