(* ===== verification/Acc_Lookup.thy ===== *)
theory Acc_Lookup
  imports Acc_Tree
begin

text \<open>
  Looking up node hashes: in a tree that satisfies the invariant, \<^verbatim>\<open>get_node_hash_always\<close>
  finds the hash of every node of the reference tree within its bound of rounds, whatever
  part of the cache has been evicted. The lemmas are proved once for every store that
  meets the contract \<open>accumulator_store\<close>.
\<close>

lemma lru_okD:
  assumes "lru_ok K content"
  shows "content (lru_new K n) = Map.empty" "fst (lru_get K c k) = content c k"
    "content (snd (lru_get K c k)) = content c"
    "content (lru_put K c k v) \<subseteq>\<^sub>m (content c)(k \<mapsto> v)"
  using assms by (simp_all add: lru_ok_def)

lemma get_node_index_eq:
  assumes "lru_ok (env_lru E) content"
  shows "\<exists>T'. get_node_index E k T = (content (index_cache T) k, T') \<and> cache_eq content T T'"
proof -
  obtain v c where g: "lru_get (env_lru E) (index_cache T) k = (v, c)" by fastforce
  then have "v = content (index_cache T) k" "content c = content (index_cache T)"
    using lru_okD(2,3) [OF assms, of "index_cache T" k] by auto
  then show ?thesis by (simp add: get_node_index_def g cache_eq_def)
qed

lemma lookup_inv_cache:
  assumes "lookup_inv C content nodes ls T" and "content (index_cache T) (NI l p) = Some h"
    and "valid l p" and "length ls \<le> 2 ^ 63"
  shows "present (length ls) l p" and "h = mhash C ls l p"
proof -
  obtain l' p' where lp: "present (length ls) l' p'" "NI l p = NI l' p'" "h = mhash C ls l' p'"
    using assms(1,2) unfolding lookup_inv_def by blast
  then have "l = l' \<and> p = p'" using NI_inject [OF assms(3)] present_valid assms(4) by blast
  then show "present (length ls) l p" "h = mhash C ls l p" using lp by auto
qed

lemma lookup_inv_no_max:
  assumes "lookup_inv C content nodes ls T" and "length ls \<le> 2 ^ 63"
  shows "content (index_cache T) (- 1) = None"
proof (rule ccontr)
  assume "content (index_cache T) (- 1) \<noteq> None"
  then obtain l p where "present (length ls) l p" "- 1 = NI l p"
    using assms(1) unfolding lookup_inv_def by blast
  then show False using NI_not_max present_valid assms(2) by metis
qed

text \<open>Above the top level the search for a cached ancestor finds nothing.\<close>

lemma find_cached_parent_max:
  assumes "lru_ok (env_lru E) content" and "length ls \<le> 2 ^ 63"
  shows "lookup_inv C content nodes ls T \<Longrightarrow>
    \<exists>T'. find_cached_parent E i (- 1) T = (None, T') \<and> cache_eq content T T'"
proof (induction i arbitrary: T)
  case (Suc i)
  obtain T1 where T1: "get_node_index E (- 1) T = (content (index_cache T) (- 1), T1)" "cache_eq content T T1"
    using get_node_index_eq [OF assms(1)] by blast
  obtain T2 where "find_cached_parent E i (- 1) T1 = (None, T2)" "cache_eq content T1 T2"
    using Suc.IH [OF lookup_inv_cache_eq [OF T1(2) Suc.prems]] by blast
  then show ?case
    using T1 lookup_inv_no_max [OF Suc.prems assms(2)] by (auto simp: parent_max intro: cache_eq_trans)
qed auto

lemma find_cached_parent_eq:
  assumes "lru_ok (env_lru E) content" and "length ls \<le> 2 ^ 63"
  shows "lookup_inv C content nodes ls T \<Longrightarrow> valid l p \<Longrightarrow>
    \<exists>r T'. find_cached_parent E i (NI l p) T = (r, T') \<and> cache_eq content T T' \<and>
      (\<forall>h. r = Some h \<longrightarrow> (\<exists>a>l. a \<le> rlevel (length ls) \<and> h = mhash C ls a (p div 2 ^ (a - l))))"
proof (induction i arbitrary: T l p)
  case (Suc i)
  let ?k = "parent (NI l p)"
  obtain T1 where T1: "get_node_index E ?k T = (content (index_cache T) ?k, T1)" "cache_eq content T T1"
    using get_node_index_eq [OF assms(1)] by blast
  note inv1 = lookup_inv_cache_eq [OF T1(2) Suc.prems(1)]
  show ?case
  proof (cases "l < 63")
    case False
    then have "l = 63" "p = 0" using Suc.prems(2) by (auto simp: valid_def)
    then have "?k = - 1" using parent_top by simp
    then show ?thesis
      using T1 find_cached_parent_max [OF assms inv1, of i] lookup_inv_no_max [OF Suc.prems(1) assms(2)]
      by (auto intro: cache_eq_trans)
  next
    case True
    note k = parent_NI [OF True, of p] and v = valid_parent [OF Suc.prems(2) True]
    show ?thesis
    proof (cases "content (index_cache T) ?k")
      case None
      obtain r T2 where r: "find_cached_parent E i (NI (Suc l) (p div 2)) T1 = (r, T2)"
        "cache_eq content T1 T2"
        "\<forall>h. r = Some h \<longrightarrow> (\<exists>a>Suc l. a \<le> rlevel (length ls) \<and> h = mhash C ls a (p div 2 div 2 ^ (a - Suc l)))"
        using Suc.IH [OF inv1 v] by blast
      have d: "p div 2 div 2 ^ (a - Suc l) = p div 2 ^ (a - l)" if "a > Suc l" for a
        using that by (simp add: Suc_diff_Suc flip: div_mult2_eq power_Suc)
      have "\<forall>h. r = Some h \<longrightarrow> (\<exists>a>l. a \<le> rlevel (length ls) \<and> h = mhash C ls a (p div 2 ^ (a - l)))"
        using r(3) d by (metis Suc_lessD)
      then show ?thesis
        using T1 None r(1,2) by (auto simp: k intro: cache_eq_trans)
    next
      case (Some h)
      have "present (length ls) (Suc l) (p div 2)" "h = mhash C ls (Suc l) (p div 2)"
        using lookup_inv_cache [OF Suc.prems(1) _ v assms(2)] Some by (auto simp: k)
      then have "\<exists>a>l. a \<le> rlevel (length ls) \<and> h = mhash C ls a (p div 2 ^ (a - l))"
        by (intro exI [of _ "Suc l"]) (simp add: present_def)
      then show ?thesis using T1 Some by auto
    qed
  qed
qed auto

text \<open>A node lies left of an ancestor exactly when it is in its left subtree.\<close>

lemma NI_side:
  assumes "valid l p" and "valid (Suc b) (p div 2 ^ (Suc b - l))" and "l < b"
  shows "NI (Suc b) (p div 2 ^ (Suc b - l)) > NI l p \<longleftrightarrow> even (p div 2 ^ (b - l))"
proof -
  let ?d = "p div 2 ^ (b - l)" and ?q = "p div 2 ^ (Suc b - l)"
  have q: "?q = ?d div 2" using assms(3) by (simp add: Suc_diff_le flip: div_mult2_eq power_Suc2)
  have pd: "?d * 2 ^ (b - l) \<le> p" "p < (?d + 1) * 2 ^ (b - l)"
    by (simp_all add: dividend_less_div_times)
  have bl: "(2::nat) ^ Suc b = 2 * 2 ^ (b - l) * 2 ^ l" using assms(3) by (simp flip: power_add)
  have "NI (Suc b) ?q \<le> NI l p \<longleftrightarrow> (2 * ?q + 1) * 2 ^ (b - l) * 2 \<le> 2 * p + 1"
  proof -
    have "(2 * ?q + 1) * 2 ^ Suc b = ((2 * ?q + 1) * 2 ^ (b - l) * 2) * 2 ^ l" by (simp only: bl ac_simps)
    then show ?thesis unfolding NI_le [OF assms(2,1)] by (simp only: mult_le_cancel2) simp
  qed
  also have "\<dots> \<longleftrightarrow> (2 * ?q + 1) * 2 ^ (b - l) \<le> p" by linarith
  also have "\<dots> \<longleftrightarrow> odd ?d"
  proof (cases "even ?d")
    case True
    then have "2 * ?q + 1 = ?d + 1" by (simp add: q)
    then show ?thesis using pd(2) True by (simp del: add_Suc_right)
  next
    case False
    then have "2 * ?q + 1 = ?d" by (simp add: q)
    then show ?thesis using pd(1) False by simp
  qed
  finally show ?thesis by (simp add: linorder_not_le [symmetric])
qed

context accumulator_store
begin

lemma get_node_eq:
  assumes "env_store E = S" and "tree_nodes nodes T h = Some n"
  shows "get_node E T h = Inr (Some n)"
proof (cases "map_of (update_nodes T) h")
  case None
  then have "nodes (store T) h = Some n" using assms(2) by (simp add: tree_nodes_def map_add_def)
  then show ?thesis using None get_node_present assms(1) by (auto simp: get_node_def)
next
  case (Some m)
  then have "m = n" using assms(2) by (simp add: tree_nodes_def map_add_def)
  then show ?thesis using Some by (auto simp: get_node_def)
qed

lemma lookup_loop_eq:
  assumes E: "env_crypto E = C" "env_store E = S"
    and inv: "lookup_inv C content nodes ls T" and free: "collision_free C ls"
    and len: "length ls \<le> 2 ^ 63" and target: "reachable_node (length ls) l p"
  shows "l \<le> a \<Longrightarrow> a - l < rounds \<Longrightarrow> present (length ls) a (p div 2 ^ (a - l)) \<Longrightarrow>
    lookup_loop E T (NI l p) rounds [mhash C ls a (p div 2 ^ (a - l))] = Inr (mhash C ls l p)"
proof (induction rounds arbitrary: a)
  case (Suc rounds)
  let ?q = "p div 2 ^ (a - l)"
  have va: "valid a ?q" and vl: "valid l p"
    using present_valid [OF Suc.prems(3) len] reachable_node_valid [OF target len] by auto
  have node: "get_node E T (mhash C ls a ?q) = Inr (Some (acc_node C ls a ?q))"
    using Suc.prems(3) inv by (intro get_node_eq [OF E(2)]) (simp add: lookup_inv_def)
  show ?case
  proof (cases a)
    case 0
    then show ?thesis
      using Suc.prems node by (simp add: new_leaf_def present_def)
  next
    case (Suc b)
    let ?n = "internal_new C (NI (Suc b) ?q) (mhash C ls b (2 * ?q)) (mhash C ls b (2 * ?q + 1))"
    have an: "acc_node C ls a ?q = Internal ?n" by (simp add: Suc new_internal_def)
    have b: "b < 63" using va Suc by (simp add: valid_def)
    consider "a = l" | "b = l" | "l < b" using Suc.prems(1) Suc by linarith
    then show ?thesis
    proof cases
      case 1
      have "hash_children C (mhash C ls b (2 * ?q)) (mhash C ls b (2 * ?q + 1)) = mhash C ls a ?q"
        using present_hash [OF Suc.prems(3), of C] an by simp
      then show ?thesis using node an 1 Suc by (simp add: E del: mhash.simps acc_node.simps)
    next
      case 2
      have ne: "NI (Suc b) ?q \<noteq> NI l p" using NI_inject [OF va vl] Suc 2 by auto
      have q: "?q = p div 2" using Suc 2 by simp
      have par: "NI (Suc b) ?q = parent (NI l p)" using b 2 q by (simp add: parent_NI)
      have "left_child (NI (Suc b) ?q) = NI l (2 * ?q)" "right_child (NI (Suc b) ?q) = NI l (2 * ?q + 1)"
        using left_child_NI [OF b] right_child_NI [OF b] 2 by auto
      moreover have "valid l (2 * ?q)" using va Suc 2 valid_children by blast
      moreover have "odd p \<Longrightarrow> p - Suc 0 \<noteq> p" by (cases p) auto
      ultimately show ?thesis
        using node an ne par NI_inject [OF _ vl] vl 2 q
        by (cases "even p") (auto simp: E Let_def simp del: mhash.simps)
    next
      case 3
      let ?d = "p div 2 ^ (b - l)"
      have q: "?q = ?d div 2" using 3 Suc by (simp add: Suc_diff_le flip: div_mult2_eq power_Suc2)
      have ne: "NI (Suc b) ?q \<noteq> NI l p" using NI_inject [OF va vl] Suc 3 by auto
      have par: "NI (Suc b) ?q \<noteq> parent (NI l p)"
        using NI_inject [of a ?q "Suc l" "p div 2"] va valid_parent [OF vl] 3 b Suc
        by (simp add: parent_NI)
      have side: "NI (Suc b) ?q > NI l p \<longleftrightarrow> even ?d"
        using NI_side [OF vl _ 3] va Suc by simp
      have pd: "present (length ls) b ?d"
        using reachable_node_ancestor [OF target 3] Suc.prems(3) Suc by (simp add: present_def)
      have IH: "lookup_loop E T (NI l p) rounds [mhash C ls b ?d] = Inr (mhash C ls l p)"
        using Suc.IH [of b] pd 3 Suc.prems(2) Suc by simp
      note ph = collision_free_placeholder [OF free pd]
      have nl: "\<not> is_leaf (NI b ?d)" using is_leaf_NI [of b ?d] b 3 by simp
      show ?thesis
      proof (cases "even ?d")
        case True
        then have "2 * ?q = ?d" by (simp add: q)
        then show ?thesis
          using node an ne par side True IH ph nl left_child_NI [OF b, of ?q]
          by (simp add: E del: mhash.simps)
      next
        case False
        then have "2 * ?q + 1 = ?d" by (simp add: q)
        then show ?thesis
          using node an ne par side False IH ph nl right_child_NI [OF b, of ?q]
          by (simp add: E del: mhash.simps)
      qed
    qed
  qed
qed simp

lemma get_node_hash_always_eq:
  assumes E: "env_crypto E = C" "env_store E = S" and lru: "lru_ok (env_lru E) content"
    and inv: "lookup_inv C content nodes ls T" and free: "collision_free C ls"
    and len: "length ls \<le> 2 ^ 63" and target: "reachable_node (length ls) l p"
  shows "\<exists>T'. get_node_hash_always E (NI l p) T = (Inr (mhash C ls l p), T') \<and> cache_eq content T T'"
proof -
  let ?R = "rlevel (length ls)"
  have v: "valid l p" by (rule reachable_node_valid [OF target len])
  have n: "0 < length ls" and lR: "l \<le> ?R"
    using target by (auto simp: reachable_node_def present_def split: if_splits)
  obtain T1 where T1: "get_node_index E (NI l p) T = (content (index_cache T) (NI l p), T1)"
    "cache_eq content T T1"
    using get_node_index_eq [OF lru] by blast
  show ?thesis
  proof (cases "content (index_cache T) (NI l p)")
    case (Some h)
    then show ?thesis
      using T1 lookup_inv_cache(2) [OF inv Some v len] by (auto simp: get_node_hash_always_def)
  next
    case None
    note inv1 = lookup_inv_cache_eq [OF T1(2) inv]
    have root: "root_from_leaf_count (num_leaves T1) = (Inr (NI ?R 0) :: (NodeIndex, acc_error) outcome)"
      using root_from_leaf_count_NI [OF n len] inv1 by (simp add: lookup_inv_def)
    obtain r T2 where r: "find_cached_parent E (level (NI ?R 0) + 1) (NI l p) T1 = (r, T2)"
      "cache_eq content T1 T2"
      "\<forall>h. r = Some h \<longrightarrow> (\<exists>a>l. a \<le> ?R \<and> h = mhash C ls a (p div 2 ^ (a - l)))"
      using find_cached_parent_eq [OF lru len inv1 v] by blast
    note inv2 = lookup_inv_cache_eq [OF r(2) inv1]
    define ph where "ph = (case r of None \<Rightarrow> root_hash T2 | Some h \<Rightarrow> h)"
    have "\<exists>a\<ge>l. a \<le> ?R \<and> present (length ls) a (p div 2 ^ (a - l)) \<and> ph = mhash C ls a (p div 2 ^ (a - l))"
    proof (cases r)
      case None
      have pr: "present (length ls) ?R (p div 2 ^ (?R - l))"
        using target lR reachable_node_ancestor [OF target, of ?R]
        by (cases "l = ?R") (auto simp: reachable_node_def)
      have "ph = mhash C ls ?R 0" using inv2 None by (simp add: ph_def lookup_inv_def merkle_root_def)
      then show ?thesis using pr present_root [OF pr] lR by auto
    next
      case (Some h)
      then obtain a where "a > l" "a \<le> ?R" "h = mhash C ls a (p div 2 ^ (a - l))" using r(3) by blast
      then show ?thesis using Some reachable_node_ancestor [OF target, of a]
        by (intro exI [of _ a]) (simp add: ph_def)
    qed
    then obtain a where a: "a \<ge> l" "a \<le> ?R" "present (length ls) a (p div 2 ^ (a - l))"
      "ph = mhash C ls a (p div 2 ^ (a - l))" by blast
    have "a - l < LOOKUP_ROUNDS" using a(2) rlevel_63 [OF len] by (simp add: LOOKUP_ROUNDS_def)
    then have "lookup_loop E T2 (NI l p) LOOKUP_ROUNDS [ph] = Inr (mhash C ls l p)"
      using lookup_loop_eq [OF E inv2 free len target a(1) _ a(3)] a(4) by simp
    then show ?thesis
      using T1 None root r(1,2)
      by (auto simp: get_node_hash_always_def Let_def ph_def intro: cache_eq_trans)
  qed
qed

lemma get_node_hash_eq:
  assumes E: "env_crypto E = C" "env_store E = S" and lru: "lru_ok (env_lru E) content"
    and inv: "lookup_inv C content nodes ls T" and free: "collision_free C ls"
    and len: "length ls \<le> 2 ^ 63" and v: "valid l p" and l: "l \<le> rlevel (length ls)" and n: "ls \<noteq> []"
  shows "\<exists>T'. get_node_hash E (NI l p) T =
      (Inr (if p * 2 ^ l < length ls then Some (mhash C ls l p) else None), T') \<and> cache_eq content T T'"
proof -
  have lt: "length ls - 1 < 2 ^ 63" using len n by (cases ls) auto
  have "num_leaves T = word_of_nat (length ls)" using inv by (simp add: lookup_inv_def)
  moreover have "(word_of_nat (length ls) :: u64) \<noteq> 0"
    using n len by (simp add: unat_of_nat_eq flip: unat_gt_0)
  ultimately have idx: "rightmost_leaf_index T = word_of_nat (length ls - 1)"
    using n by (simp add: rightmost_leaf_index_def Suc_leI)
  have ph: "is_placeholder (NI l p) (rightmost_leaf_index T) \<longleftrightarrow> \<not> p * 2 ^ l < length ls"
    unfolding idx is_placeholder_NI [OF v lt] using n by (cases ls) auto
  show ?thesis
  proof (cases "p * 2 ^ l < length ls")
    case True
    then have "reachable_node (length ls) l p" using l by (intro reachable_node_present) (simp add: present_def)
    then show ?thesis
      using get_node_hash_always_eq [OF E lru inv free len, of l p] ph True
      by (auto simp: get_node_hash_def sbind_def)
  qed (use ph in \<open>auto simp: get_node_hash_def\<close>)
qed

end

end
