(* ===== verification/Acc_Append.thy ===== *)
theory Acc_Append
  imports Acc_Lookup
begin

text \<open>
  \<^verbatim>\<open>AccumulatorTree::append\<close> computes the reference tree: from a tree over \<open>ls\<close> it returns
  the root of \<open>ls @ xs\<close> and leaves a tree over \<open>ls @ xs\<close>; \<^verbatim>\<open>flush\<close> moves the pending nodes to
  the store. The proofs follow the loops: the left siblings created by the call are the
  roots of the full subtrees that reach beyond the old leaves.
\<close>

section \<open>The left siblings\<close>

text \<open>
  The full subtrees among \<open>m\<close> nodes of level \<open>k\<close> that hold a leaf beyond the first \<open>n\<close>.
\<close>

definition new_roots :: "nat \<Rightarrow> nat \<Rightarrow> nat \<Rightarrow> (nat \<times> nat) list" where
  "new_roots n k m =
     filter (\<lambda>(l, p). n < (p + 1) * 2 ^ l) (map (\<lambda>l. (l + k, m div 2 ^ l - 1)) (ones m))"

lemma new_roots_even: "new_roots n k (2 * m) = new_roots n (Suc k) m"
  by (simp add: new_roots_def ones_even comp_def)

lemma new_roots_odd:
  "new_roots n k (Suc (2 * m)) = new_roots n (Suc k) m @ (if n < (2 * m + 1) * 2 ^ k then [(k, 2 * m)] else [])"
proof -
  have "Suc (2 * m) div 2 ^ Suc l = m div 2 ^ l" for l by (simp add: div_mult2_eq)
  then show ?thesis by (simp add: new_roots_def ones_odd comp_def del: power_Suc)
qed

lemma new_roots_mult_exp: "new_roots n k (m * 2 ^ t) = new_roots n (k + t) m"
proof (induction t arbitrary: k)
  case (Suc t)
  have "new_roots n k (m * 2 ^ Suc t) = new_roots n k (2 * (m * 2 ^ t))" by (simp add: mult.left_commute)
  then show ?case by (simp only: new_roots_even Suc.IH) simp
qed simp

lemma new_roots_Nil: "m * 2 ^ k \<le> n \<Longrightarrow> new_roots n k m = []"
proof (induction m arbitrary: k rule: ones.induct)
  case (1 m)
  show ?case
  proof (cases "m = 0")
    case False
    have "m div 2 * 2 ^ Suc k = (2 * (m div 2)) * 2 ^ k" by simp
    also have "\<dots> \<le> m * 2 ^ k" by (intro mult_le_mono1) simp
    finally have IH: "new_roots n (Suc k) (m div 2) = []" using 1 False by (meson le_trans)
    show ?thesis
    proof (cases "even m")
      case True
      then show ?thesis using IH new_roots_even [of n k "m div 2"] by simp
    next
      case False
      then have "m = Suc (2 * (m div 2))" by simp
      then show ?thesis using IH new_roots_odd [of n k "m div 2"] 1(2) by simp
    qed
  qed (simp add: new_roots_def)
qed

definition entry :: "'h crypto \<Rightarrow> 'h list \<Rightarrow> nat \<times> nat \<Rightarrow> NodeIndex \<times> 'h" where
  "entry C L = (\<lambda>(l, p). (NI l p, mhash C L l p))"

lemma is_right_child_valid: "valid l p \<Longrightarrow> is_right_child (NI l p) \<longleftrightarrow> odd p"
proof (cases "l < 63")
  case False
  assume "valid l p"
  then have "l = 63" "p = 0" using False by (auto simp: valid_def)
  then show ?thesis using shl_isolate_top [of 0] by (simp add: is_right_child_def is_left_child_def)
qed (simp add: is_right_child_def is_left_child_NI)

lemma length_ones_le: "length (ones n) \<le> n"
proof (induction n rule: ones.induct)
  case (1 n)
  then show ?case by (subst ones.simps) (auto elim!: oddE)
qed

lemma length_ones_Suc: "length (ones (Suc n)) + tones n = length (ones n) + 1"
proof (induction n rule: tones.induct)
  case (1 n)
  show ?case
  proof (cases "odd n")
    case True
    then obtain q where q: "n = Suc (2 * q)" by (auto elim!: oddE)
    have "ones (Suc n) = map Suc (ones (Suc q))" using ones_even [of "Suc q"] q by simp
    then show ?thesis using 1 q by (simp add: ones_odd tones.simps [of "Suc (2 * q)"])
  next
    case False
    then obtain q where "n = 2 * q" by (auto elim!: evenE)
    then show ?thesis by (simp add: ones_odd ones_even tones.simps [of "2 * q"])
  qed
qed

lemma frozen_count_Suc: "frozen_count (Suc n) = frozen_count n + 1 + tones n"
  using length_ones_Suc [of n] length_ones_le [of n] length_ones_le [of "Suc n"]
  by (simp add: frozen_count_def)

lemma next_level_split:
  "{f l p |l p. k < l \<and> P l p} = {f (Suc k) p |p. P (Suc k) p} \<union> {f l p |l p. Suc k < l \<and> P l p}"
proof (intro set_eqI iffI)
  fix x
  assume "x \<in> {f l p |l p. k < l \<and> P l p}"
  then obtain l p where "x = f l p" "k < l" "P l p" by blast
  then show "x \<in> {f (Suc k) p |p. P (Suc k) p} \<union> {f l p |l p. Suc k < l \<and> P l p}"
    by (cases "l = Suc k") auto
next
  fix x
  assume "x \<in> {f (Suc k) p |p. P (Suc k) p} \<union> {f l p |l p. Suc k < l \<and> P l p}"
  then show "x \<in> {f l p |l p. k < l \<and> P l p}" by (auto dest: Suc_lessD)
qed

lemma next_leaf_split:
  assumes "g < N"
  shows "{f l p |l p. g < (p + 1) * 2 ^ l \<and> (p + 1) * 2 ^ l \<le> N} =
    insert (f 0 g) {f l p |l p. 0 < l \<and> (p + 1) * 2 ^ l = (g + 1) * 2 ^ 0} \<union>
    {f l p |l p. Suc g < (p + 1) * 2 ^ l \<and> (p + 1) * 2 ^ l \<le> N}" (is "?A = insert _ ?B \<union> ?D")
proof (intro set_eqI iffI)
  fix x
  assume "x \<in> ?A"
  then obtain l p where x: "x = f l p" "g < (p + 1) * 2 ^ l" "(p + 1) * 2 ^ l \<le> N" by blast
  show "x \<in> insert (f 0 g) ?B \<union> ?D"
  proof (cases "(p + 1) * 2 ^ l = (g + 1) * 2 ^ 0")
    case True
    then show ?thesis using x by (cases "l = 0") auto
  next
    case False
    then have "Suc g < (p + 1) * 2 ^ l" using x(2) by simp
    then show ?thesis using x by blast
  qed
next
  fix x
  assume "x \<in> insert (f 0 g) ?B \<union> ?D"
  then consider "x = f 0 g" | "x \<in> ?B" | "x \<in> ?D" by blast
  then show "x \<in> ?A"
  proof cases
    case 1
    then show ?thesis using assms by (intro CollectI exI [of _ 0] exI [of _ g]) simp
  next
    case 2
    then obtain l p where x: "x = f l p" "(p + 1) * 2 ^ l = g + 1" by auto
    then have "g < (p + 1) * 2 ^ l \<and> (p + 1) * 2 ^ l \<le> N" using assms by linarith
    then show ?thesis using x(1) by blast
  next
    case 3
    then obtain l p where x: "x = f l p" "Suc g < (p + 1) * 2 ^ l" "(p + 1) * 2 ^ l \<le> N" by blast
    then show ?thesis using Suc_lessD [OF x(2)] by blast
  qed
qed

text \<open>Entering a list of nodes into a map by their keys.\<close>

lemma fold_upd_notin: "k \<notin> key ` set xs \<Longrightarrow> fold (\<lambda>x m. m(key x \<mapsto> val x)) xs m k = m k"
  by (induction xs arbitrary: m) auto

lemma fold_upd_in:
  "k \<in> key ` set xs \<Longrightarrow> \<exists>x \<in> set xs. key x = k \<and> fold (\<lambda>x m. m(key x \<mapsto> val x)) xs m k = Some (val x)"
proof (induction xs arbitrary: m)
  case (Cons x xs)
  show ?case
  proof (cases "k \<in> key ` set xs")
    case True
    then show ?thesis using Cons.IH [OF True] by (auto simp del: fun_upd_apply)
  next
    case False
    then have "k = key x" using Cons.prems by auto
    then show ?thesis
      using fold_upd_notin [OF False, of val "m(key x \<mapsto> val x)"]
      by (intro bexI [of _ x]) (simp_all del: fun_upd_apply, simp)
  qed
qed simp

lemma fold_upd_map_add:
  assumes "distinct (map fst al)" and "\<forall>(h, n) \<in> set al. key n = h"
  shows "fold (\<lambda>n m. m(key n \<mapsto> n)) (map snd al) m = m ++ map_of al"
  using assms
proof (induction al arbitrary: m)
  case (Cons x al)
  obtain h n where x: "x = (h, n)" "key n = h" using Cons.prems(2) by (cases x) auto
  have "fold (\<lambda>n m. m(key n \<mapsto> n)) (map snd (x # al)) m = m(h \<mapsto> n) ++ map_of al"
    using Cons x by (simp del: fun_upd_apply)
  also have "\<dots> = (m ++ map_of al)(h \<mapsto> n)"
    using Cons.prems(1) x by (intro map_add_upd_left) (auto simp: dom_map_of_conv_image_fst)
  finally show ?case using x by (simp del: fun_upd_apply)
qed simp

lemma distinct_fold_update:
  "distinct (map fst al) \<Longrightarrow> distinct (map fst (fold (\<lambda>x. AList.update (key x) x) xs al))"
  by (induction xs arbitrary: al) (simp_all add: distinct_update)

lemma map_of_fold_update:
  "map_of (fold (\<lambda>x. AList.update (key x) x) xs al) = fold (\<lambda>x m. m(key x \<mapsto> x)) xs (map_of al)"
  by (induction xs arbitrary: al) (simp_all add: update_conv')

lemma set_fold_update: "set (fold (\<lambda>x. AList.update (key x) x) xs al) \<subseteq> (\<lambda>x. (key x, x)) ` set xs \<union> set al"
proof (induction xs arbitrary: al)
  case (Cons x xs)
  have "set (AList.update (key x) x al) \<subseteq> insert (key x, x) (set al)"
    by (induction al) auto
  then show ?case using Cons.IH [of "AList.update (key x) x al"] by auto
qed simp

lemma content_fold_put:
  assumes "lru_ok K content"
  shows "content (fold (\<lambda>x c. lru_put K c (key x) (val x)) xs c) \<subseteq>\<^sub>m
    fold (\<lambda>x m. m(key x \<mapsto> val x)) xs (content c)"
proof -
  have "content c \<subseteq>\<^sub>m m \<Longrightarrow> content (fold (\<lambda>x c. lru_put K c (key x) (val x)) xs c) \<subseteq>\<^sub>m
      fold (\<lambda>x m. m(key x \<mapsto> val x)) xs m" for m
  proof (induction xs arbitrary: c m)
    case (Cons x xs)
    have "content (lru_put K c (key x) (val x)) \<subseteq>\<^sub>m (content c)(key x \<mapsto> val x)"
      by (rule lru_okD(4) [OF assms])
    also have "\<dots> \<subseteq>\<^sub>m m(key x \<mapsto> val x)" using Cons.prems by (rule map_le_upd)
    finally show ?case using Cons.IH by (simp del: fun_upd_apply)
  qed simp
  then show ?thesis by (simp del: fun_upd_apply)
qed

text \<open>The nodes that an append from \<open>n\<close> leaves creates or changes.\<close>

definition new_nodes :: "'h crypto \<Rightarrow> 'h list \<Rightarrow> nat \<Rightarrow> 'h AccumulatorNode set" where
  "new_nodes C L n = {acc_node C L l p |l p. present (length L) l p \<and> n < (p + 1) * 2 ^ l}"

lemma new_nodes_split:
  assumes "m * 2 ^ t = length L" and "odd m" and "n < length L"
  shows "{acc_node C L l ((length L - 1) div 2 ^ l) |l. t < l \<and> l \<le> rlevel (length L)} \<union>
    {acc_node C L l p |l p. n < (p + 1) * 2 ^ l \<and> (p + 1) * 2 ^ l \<le> length L} = new_nodes C L n"
    (is "?A \<union> ?B = _")
proof (intro set_eqI iffI)
  fix x
  assume "x \<in> ?A \<union> ?B"
  then consider l where "x = acc_node C L l ((length L - 1) div 2 ^ l)" "l \<le> rlevel (length L)"
    | l p where "x = acc_node C L l p" "n < (p + 1) * 2 ^ l" "(p + 1) * 2 ^ l \<le> length L" by blast
  then show "x \<in> new_nodes C L n"
  proof cases
    case 1
    let ?p = "(length L - 1) div 2 ^ l"
    have "?p * 2 ^ l \<le> length L - 1" by simp
    also have "\<dots> < length L" using assms(3) by simp
    finally have "present (length L) l ?p" using 1(2) by (simp only: present_def)
    moreover have "length L - 1 < (?p + 1) * 2 ^ l"
      using dividend_less_div_times [of "2 ^ l" "length L - 1"] by simp
    then have "n < (?p + 1) * 2 ^ l" using assms(3) by linarith
    ultimately show ?thesis unfolding new_nodes_def 1(1) by blast
  next
    case 2
    then show ?thesis using present_full [OF 2(3)] unfolding new_nodes_def by blast
  qed
next
  fix x
  assume "x \<in> new_nodes C L n"
  then obtain l p where x: "x = acc_node C L l p" "present (length L) l p" "n < (p + 1) * 2 ^ l"
    unfolding new_nodes_def by blast
  show "x \<in> ?A \<union> ?B"
  proof (cases "(p + 1) * 2 ^ l \<le> length L")
    case True
    then show ?thesis using x by blast
  next
    case False
    have pl: "p * 2 ^ l < length L" using x(2) by (simp add: present_def)
    have p: "p = (length L - 1) div 2 ^ l"
      using pl False by (intro div_nat_eqI [symmetric]) (auto simp: algebra_simps)
    have "t < l"
    proof (rule ccontr)
      assume "\<not> t < l"
      then have "length L = m * 2 ^ (t - l) * 2 ^ l" using assms(1) by (simp add: mult.assoc flip: power_add)
      then obtain c where c: "length L = c * 2 ^ l" by blast
      then have "p < c" "\<not> p + 1 \<le> c" using pl False by (simp_all only: mult_less_cancel2 mult_le_cancel2) auto
      then show False by simp
    qed
    then show ?thesis using x p by (auto simp: present_def simp del: acc_node.simps)
  qed
qed

section \<open>The loops\<close>

context accumulator_store
begin

lemma left_sibling_hash_eq:
  assumes E: "env_crypto E = C" "env_store E = S" and lru: "lru_ok (env_lru E) content"
    and inv: "tree_inv C content nodes ls T" and le: "(2 * q + 1) * 2 ^ k \<le> length (ls @ xs)"
    and len: "length (ls @ xs) \<le> 2 ^ 63"
  shows "\<exists>T'. left_sibling_hash E (NI k (2 * q)) (map (entry C (ls @ xs)) (new_roots (length ls) k (Suc (2 * q)))) T =
    (Inr (mhash C (ls @ xs) k (2 * q), map (entry C (ls @ xs)) (new_roots (length ls) (Suc k) q)), T') \<and>
    cache_eq content T T'"
proof (cases "length ls < (2 * q + 1) * 2 ^ k")
  case True
  then have "map (entry C (ls @ xs)) (new_roots (length ls) k (Suc (2 * q))) =
      map (entry C (ls @ xs)) (new_roots (length ls) (Suc k) q) @ [(NI k (2 * q), mhash C (ls @ xs) k (2 * q))]"
    unfolding new_roots_odd by (simp add: entry_def)
  then show ?thesis by (auto simp: left_sibling_hash_def)
next
  case False
  then have full: "(2 * q + 1) * 2 ^ k \<le> length ls" by simp
  then have pr: "present (length ls) k (2 * q)" by (intro present_full) simp
  have q: "q * 2 ^ Suc k \<le> length ls" using full by (simp add: algebra_simps)
  have emp: "new_roots (length ls) k (Suc (2 * q)) = []" "new_roots (length ls) (Suc k) q = []"
    using new_roots_Nil [of "Suc (2 * q)" k "length ls"] new_roots_Nil [OF q] full by auto
  have inv': "lookup_inv C content nodes ls T" "collision_free C ls" "length ls \<le> 2 ^ 63"
    using inv by (simp_all add: tree_inv_def)
  have "ls \<noteq> []" "k \<le> rlevel (length ls)" "2 * q * 2 ^ k < length ls"
    using pr by (auto simp: present_def)
  then obtain T' where "get_node_hash E (NI k (2 * q)) T = (Inr (Some (mhash C ls k (2 * q))), T')"
    "cache_eq content T T'"
    using get_node_hash_eq [OF E lru inv' present_valid [OF pr inv'(3)]] by auto
  moreover have "mhash C (ls @ xs) k (2 * q) = mhash C ls k (2 * q)"
    using full by (intro mhash_full_append) simp
  ultimately show ?thesis by (simp add: left_sibling_hash_def emp sbind_def)
qed

lemma freeze_parents_eq:
  assumes E: "env_crypto E = C" "env_store E = S" and lru: "lru_ok (env_lru E) content"
    and len: "length (ls @ xs) \<le> 2 ^ 63"
  shows "tree_inv C content nodes ls T \<Longrightarrow> (m + 1) * 2 ^ k \<le> length (ls @ xs) \<Longrightarrow>
    length ls < (m + 1) * 2 ^ k \<Longrightarrow>
    \<exists>pos hash st ns T'. freeze_parents E (NI k m) (mhash C (ls @ xs) k m)
        (map (entry C (ls @ xs)) (new_roots (length ls) k m)) tf c T =
      (Inr (pos, hash, st, tf @ ns, c + word_of_nat (tones m)), T') \<and>
    cache_eq content T T' \<and>
    st @ [(pos, hash)] = map (entry C (ls @ xs)) (new_roots (length ls) k (m + 1)) \<and>
    set ns = {acc_node C (ls @ xs) l p |l p. k < l \<and> (p + 1) * 2 ^ l = (m + 1) * 2 ^ k}"
proof (induction m arbitrary: k tf c T rule: tones.induct)
  case (1 m)
  let ?L = "ls @ xs"
  have v: "valid k m" using 1(3) len by (intro valid_boundI) linarith
  show ?case
  proof (cases "odd m")
    case False
    then obtain q where q: "m = 2 * q" by (auto elim!: evenE)
    have none: "\<not> (k < l \<and> (p + 1) * 2 ^ l = (m + 1) * 2 ^ k)" for l p
    proof
      assume a: "k < l \<and> (p + 1) * 2 ^ l = (m + 1) * 2 ^ k"
      then have "2 ^ l = 2 ^ (l - k) * (2 ^ k :: nat)" by (simp flip: power_add)
      then have "((p + 1) * 2 ^ (l - k)) * 2 ^ k = (m + 1) * 2 ^ k" using a by (metis mult.assoc)
      then have "(p + 1) * 2 ^ (l - k) = m + 1" by (simp only: mult_cancel2) simp
      moreover have "even ((p + 1) * 2 ^ (l - k))" using a by simp
      ultimately show False using False by simp
    qed
    have "\<not> is_right_child (NI k m)" using is_right_child_valid [OF v] False by simp
    moreover have "new_roots (length ls) k (m + 1) = new_roots (length ls) k m @ [(k, m)]"
      using 1(4) unfolding q by (simp add: new_roots_odd new_roots_even)
    moreover have "tones m = 0" using False by (simp add: tones.simps)
    moreover have S: "{acc_node C ?L l p |l p. k < l \<and> (p + 1) * 2 ^ l = (m + 1) * 2 ^ k} = {}"
      using none by blast
    ultimately show ?thesis
      unfolding S by (subst freeze_parents.simps) (simp add: entry_def)
  next
    case True
    then obtain q where q: "m = Suc (2 * q)" by (auto elim!: oddE)
    have k: "k < 63"
    proof (rule ccontr)
      assume "\<not> k < 63"
      then have "m = 0" using v by (auto simp: valid_def)
      then show False using True by simp
    qed
    have le: "(q + 1) * 2 ^ Suc k = (m + 1) * 2 ^ k" by (simp add: q algebra_simps)
    have lt: "q * 2 ^ Suc k < length ?L"
      using 1(3) unfolding le [symmetric] by (rule less_le_trans [rotated]) simp
    have le2: "(2 * q + 1) * 2 ^ k \<le> length ?L" using 1(3) by (simp add: q algebra_simps)
    obtain T1 where T1: "left_sibling_hash E (NI k (2 * q))
        (map (entry C ?L) (new_roots (length ls) k m)) T =
      (Inr (mhash C ?L k (2 * q), map (entry C ?L) (new_roots (length ls) (Suc k) q)), T1)"
      "cache_eq content T T1"
      using left_sibling_hash_eq [OF E lru 1(2) le2 len] q by auto
    have node: "new_internal C (NI (Suc k) q) (mhash C ?L k (2 * q)) (mhash C ?L k m) = acc_node C ?L (Suc k) q"
      by (simp add: q)
    have hash: "hash_children C (mhash C ?L k (2 * q)) (mhash C ?L k m) = mhash C ?L (Suc k) q"
      unfolding q by (rule hash_children_mhash [OF lt])
    obtain pos h st ns T' where IH: "freeze_parents E (NI (Suc k) q) (mhash C ?L (Suc k) q)
        (map (entry C ?L) (new_roots (length ls) (Suc k) q)) (tf @ [acc_node C ?L (Suc k) q]) (c + 1) T1 =
      (Inr (pos, h, st, (tf @ [acc_node C ?L (Suc k) q]) @ ns, c + 1 + word_of_nat (tones q)), T')"
      "cache_eq content T1 T'" "st @ [(pos, h)] = map (entry C ?L) (new_roots (length ls) (Suc k) (q + 1))"
      "set ns = {acc_node C ?L l p |l p. Suc k < l \<and> (p + 1) * 2 ^ l = (q + 1) * 2 ^ Suc k}"
      using 1(1) [OF True, of T1 "Suc k" "tf @ [acc_node C ?L (Suc k) q]" "c + 1"]
        tree_inv_cache_eq [OF T1(2) 1(2)] 1(3,4) q le by auto
    have t: "tones m = Suc (tones q)" by (simp add: q tones.simps [of "Suc (2 * q)"])
    have sib: "sibling (NI k m) = NI k (2 * q)" "parent (NI k m) = NI (Suc k) q"
      using k by (simp_all add: sibling_NI parent_NI q)
    have "freeze_parents E (NI k m) (mhash C ?L k m) (map (entry C ?L) (new_roots (length ls) k m)) tf c T =
        (Inr (pos, h, st, tf @ (acc_node C ?L (Suc k) q # ns), c + word_of_nat (tones m)), T')"
      using T1(1) IH(1) True is_right_child_valid [OF v] t
      by (subst freeze_parents.simps)
        (simp add: sib E node hash add.assoc del: acc_node.simps mhash.simps)
    moreover have "st @ [(pos, h)] = map (entry C ?L) (new_roots (length ls) k (m + 1))"
      using IH(3) new_roots_even [of "length ls" k "q + 1"] by (simp add: q)
    moreover have "cache_eq content T T'" by (rule cache_eq_trans [OF T1(2) IH(2)])
    moreover have "set (acc_node C ?L (Suc k) q # ns) =
        {acc_node C ?L l p |l p. k < l \<and> (p + 1) * 2 ^ l = (m + 1) * 2 ^ k}"
    proof -
      have e: "(p + 1) * 2 ^ Suc k = (q + 1) * 2 ^ Suc k \<longleftrightarrow> p = q" for p
        by (simp only: mult_cancel2) simp
      have "{acc_node C ?L l p |l p. k < l \<and> (p + 1) * 2 ^ l = (q + 1) * 2 ^ Suc k} =
          {acc_node C ?L (Suc k) p |p. (p + 1) * 2 ^ Suc k = (q + 1) * 2 ^ Suc k} \<union> set ns"
        unfolding IH(4) by (rule next_level_split)
      also have "{acc_node C ?L (Suc k) p |p. (p + 1) * 2 ^ Suc k = (q + 1) * 2 ^ Suc k} =
          {acc_node C ?L (Suc k) q}" by (simp only: e) simp
      finally show ?thesis unfolding le by simp
    qed
    ultimately show ?thesis by blast
  qed
qed

lemma freeze_leaves_eq:
  assumes E: "env_crypto E = C" "env_store E = S" and lru: "lru_ok (env_lru E) content"
    and len: "length (ls @ xs) \<le> 2 ^ 63"
  shows "tree_inv C content nodes ls T \<Longrightarrow> zs = drop g (ls @ xs) \<Longrightarrow> length ls \<le> g \<Longrightarrow>
    g \<le> length (ls @ xs) \<Longrightarrow>
    \<exists>ns T'. freeze_leaves E (word_of_nat (g - length ls)) zs
        (map (entry C (ls @ xs)) (new_roots (length ls) 0 g)) tf (word_of_nat (frozen_count g)) T =
      (Inr (map (entry C (ls @ xs)) (new_roots (length ls) 0 (length (ls @ xs))), tf @ ns,
        word_of_nat (frozen_count (length (ls @ xs)))), T') \<and>
    cache_eq content T T' \<and>
    set ns = {acc_node C (ls @ xs) l p |l p. g < (p + 1) * 2 ^ l \<and> (p + 1) * 2 ^ l \<le> length (ls @ xs)}"
proof (induction zs arbitrary: g tf T)
  case Nil
  then have g: "g = length (ls @ xs)" by simp
  have "{acc_node C (ls @ xs) l p |l p. g < (p + 1) * 2 ^ l \<and> (p + 1) * 2 ^ l \<le> length (ls @ xs)} = {}"
    unfolding g by auto
  then show ?case unfolding g by auto
next
  case (Cons z zs)
  let ?L = "ls @ xs" and ?n = "length ls"
  have gN: "g < length ?L" using Cons.prems(2,4) by (cases "g = length ?L") auto
  then have zs: "z = ?L ! g" "zs = drop (Suc g) ?L"
    using Cons.prems(2) Cons_nth_drop_Suc [OF gN] by (metis list.inject)+
  have num: "num_leaves T + word_of_nat (g - ?n) = word_of_nat g"
    using Cons.prems(1,3) by (simp add: tree_inv_def lookup_inv_def)
  have off: "word_of_nat (g - ?n) + 1 = (word_of_nat (Suc g - ?n) :: u64)"
    using Cons.prems(3) by (simp add: Suc_diff_le)
  have z: "mhash C ?L 0 g = z" and node: "acc_node C ?L 0 g = new_leaf (NI 0 g) z"
    using gN zs by simp_all
  obtain pos h st ns T1 where fp: "freeze_parents E (NI 0 g) (mhash C ?L 0 g)
      (map (entry C ?L) (new_roots ?n 0 g)) (tf @ [new_leaf (NI 0 g) z])
      (word_of_nat (frozen_count g) + 1) T =
    (Inr (pos, h, st, (tf @ [new_leaf (NI 0 g) z]) @ ns,
      word_of_nat (frozen_count g) + 1 + word_of_nat (tones g)), T1)"
    "cache_eq content T T1" "st @ [(pos, h)] = map (entry C ?L) (new_roots ?n 0 (g + 1))"
    "set ns = {acc_node C ?L l p |l p. 0 < l \<and> (p + 1) * 2 ^ l = (g + 1) * 2 ^ 0}"
    using freeze_parents_eq [OF E lru len Cons.prems(1), of g 0 "tf @ [new_leaf (NI 0 g) z]"
        "word_of_nat (frozen_count g) + 1"] Cons.prems(3) gN by force
  have cnt: "word_of_nat (frozen_count g) + 1 + word_of_nat (tones g) = (word_of_nat (frozen_count (Suc g)) :: u64)"
    using frozen_count_Suc [of g] by (simp add: algebra_simps)
  obtain ns' T2 where IH: "freeze_leaves E (word_of_nat (Suc g - ?n)) zs
      (map (entry C ?L) (new_roots ?n 0 (Suc g))) (tf @ new_leaf (NI 0 g) z # ns)
      (word_of_nat (frozen_count (Suc g))) T1 =
    (Inr (map (entry C ?L) (new_roots ?n 0 (length ?L)), (tf @ new_leaf (NI 0 g) z # ns) @ ns',
      word_of_nat (frozen_count (length ?L))), T2)" "cache_eq content T1 T2"
    "set ns' = {acc_node C ?L l p |l p. Suc g < (p + 1) * 2 ^ l \<and> (p + 1) * 2 ^ l \<le> length ?L}"
    using Cons.IH [OF tree_inv_cache_eq [OF fp(2) Cons.prems(1)] zs(2) le_SucI [OF Cons.prems(3)] Suc_leI [OF gN],
        of "tf @ new_leaf (NI 0 g) z # ns"] by blast
  have "freeze_leaves E (word_of_nat (g - ?n)) (z # zs) (map (entry C ?L) (new_roots ?n 0 g)) tf
      (word_of_nat (frozen_count g)) T =
    (Inr (map (entry C ?L) (new_roots ?n 0 (length ?L)), tf @ (new_leaf (NI 0 g) z # ns @ ns'),
      word_of_nat (frozen_count (length ?L))), T2)"
    using fp(1,3) IH(1) unfolding freeze_leaves.simps num from_leaf_index_NI Let_def z off
    by (simp add: sbind_def cnt off)
  moreover have "set (new_leaf (NI 0 g) z # ns @ ns') =
      {acc_node C ?L l p |l p. g < (p + 1) * 2 ^ l \<and> (p + 1) * 2 ^ l \<le> length ?L}" (is "?A = ?B")
  proof -
    have "?B = insert (acc_node C ?L 0 g) (set ns) \<union> set ns'"
      unfolding IH(3) fp(4) by (rule next_leaf_split [OF gN])
    then show ?thesis by (simp only: node list.set set_append) blast
  qed
  ultimately show ?case using cache_eq_trans [OF fp(2) IH(2)] by blast
qed

lemma walk_to_root_eq:
  assumes E: "env_crypto E = C" "env_store E = S" and lru: "lru_ok (env_lru E) content"
    and len: "length (ls @ xs) \<le> 2 ^ 63" and xs: "xs \<noteq> []"
  shows "tree_inv C content nodes ls T \<Longrightarrow> k + j = rlevel (length (ls @ xs)) \<Longrightarrow>
    q = (length (ls @ xs) - 1) div 2 ^ k \<Longrightarrow>
    \<exists>ns T'. walk_to_root E j (NI k q) (mhash C (ls @ xs) k q)
        (map (entry C (ls @ xs)) (new_roots (length ls) k q)) nf T =
      (Inr (merkle_root C (ls @ xs), nf @ ns), T') \<and>
    cache_eq content T T' \<and>
    set ns = {acc_node C (ls @ xs) l ((length (ls @ xs) - 1) div 2 ^ l) |l.
      k < l \<and> l \<le> rlevel (length (ls @ xs))}"
proof (induction j arbitrary: k q nf T)
  case 0
  let ?N = "length (ls @ xs)"
  have k: "k = rlevel ?N" using 0 by simp
  have "?N \<le> 2 ^ k" using rlevel_le_iff [of ?N k] k by simp
  then have q: "q = 0" using 0(3) xs by (cases ?N) auto
  have "{acc_node C (ls @ xs) l ((?N - 1) div 2 ^ l) |l. k < l \<and> l \<le> rlevel ?N} = {}"
    using k by auto
  then show ?case using 0 k q by (simp add: merkle_root_def)
next
  case (Suc j)
  let ?L = "ls @ xs" and ?n = "length ls"
  let ?N = "length ?L"
  let ?Q = "{acc_node C ?L l ((?N - 1) div 2 ^ l) |l. k < l \<and> l \<le> rlevel ?N}"
  let ?Q' = "{acc_node C ?L l ((?N - 1) div 2 ^ l) |l. Suc k < l \<and> l \<le> rlevel ?N}"
  have k: "k < 63" and kR: "Suc k + j = rlevel ?N" using Suc.prems(2) rlevel_63 [OF len] by auto
  have N: "0 < ?N" using xs by simp
  have q2: "q div 2 = (?N - 1) div 2 ^ Suc k" unfolding Suc.prems(3) by (metis div_mult2_eq power_Suc2)
  have "q * 2 ^ k \<le> ?N - 1" unfolding Suc.prems(3) by simp
  then have qN: "q * 2 ^ k < ?N" using N by linarith
  have qN': "?N \<le> (q + 1) * 2 ^ k"
    using dividend_less_div_times [of "2 ^ k" "?N - 1"] N unfolding Suc.prems(3) by (simp add: algebra_simps)
  have "q div 2 * 2 ^ Suc k = (2 * (q div 2)) * 2 ^ k" by simp
  also have "\<dots> \<le> q * 2 ^ k" by (intro mult_le_mono1) simp
  finally have lt: "q div 2 * 2 ^ Suc k < ?N" using qN by (rule le_less_trans)
  note par = parent_NI [OF k, of q] and hn = node_hash_acc_node [OF lt, of C]
  have split: "insert (acc_node C ?L (Suc k) (q div 2)) ?Q' = ?Q"
  proof -
    have "{l. k < l \<and> l \<le> rlevel ?N} = insert (Suc k) {l. Suc k < l \<and> l \<le> rlevel ?N}"
      using kR by auto
    then show ?thesis unfolding q2 setcompr_eq_image by (simp only: image_insert)
  qed
  have step: "\<exists>ns T'. walk_to_root E j (NI (Suc k) (q div 2)) (mhash C ?L (Suc k) (q div 2))
        (map (entry C ?L) (new_roots ?n (Suc k) (q div 2))) (nf @ [acc_node C ?L (Suc k) (q div 2)]) T1 =
      (Inr (merkle_root C ?L, nf @ ns), T') \<and> cache_eq content T T' \<and> set ns = ?Q"
    if T1: "cache_eq content T T1" for T1
  proof -
    obtain ns T' where IH: "walk_to_root E j (NI (Suc k) (q div 2)) (mhash C ?L (Suc k) (q div 2))
        (map (entry C ?L) (new_roots ?n (Suc k) (q div 2))) (nf @ [acc_node C ?L (Suc k) (q div 2)]) T1 =
      (Inr (merkle_root C ?L, (nf @ [acc_node C ?L (Suc k) (q div 2)]) @ ns), T')" "cache_eq content T1 T'"
      "set ns = ?Q'"
      using Suc.IH [OF tree_inv_cache_eq [OF T1 Suc.prems(1)] kR q2, of "nf @ [acc_node C ?L (Suc k) (q div 2)]"]
      by blast
    then have "walk_to_root E j (NI (Suc k) (q div 2)) (mhash C ?L (Suc k) (q div 2))
        (map (entry C ?L) (new_roots ?n (Suc k) (q div 2))) (nf @ [acc_node C ?L (Suc k) (q div 2)]) T1 =
      (Inr (merkle_root C ?L, nf @ (acc_node C ?L (Suc k) (q div 2) # ns)), T')" by simp
    moreover have "set (acc_node C ?L (Suc k) (q div 2) # ns) = ?Q"
      unfolding list.set IH(3) by (rule split)
    ultimately show ?thesis using cache_eq_trans [OF T1 IH(2)] by blast
  qed
  show ?case
  proof (cases "even q")
    case True
    then have q: "q = 2 * (q div 2)" by simp
    have ph: "mhash C ?L k (Suc (2 * (q div 2))) = ACCUMULATOR_PLACEHOLDER_HASH C"
      using qN' q by (intro mhash_beyond) simp
    have st: "new_roots ?n k q = new_roots ?n (Suc k) (q div 2)"
      using new_roots_even [of ?n k "q div 2"] q by simp
    have "new_internal C (NI (Suc k) (q div 2)) (mhash C ?L k q) (ACCUMULATOR_PLACEHOLDER_HASH C) =
        acc_node C ?L (Suc k) (q div 2)"
      using ph q by (simp del: mhash.simps)
    then show ?thesis
      using step [OF cache_eq_refl] True is_left_child_NI [OF k, of q]
      by (simp add: E par st hn Let_def del: mhash.simps acc_node.simps)
  next
    case False
    then have q: "q = Suc (2 * (q div 2))" by simp
    have le: "(2 * (q div 2) + 1) * 2 ^ k \<le> ?N" using qN q by simp
    obtain T1 where T1: "left_sibling_hash E (NI k (2 * (q div 2)))
        (map (entry C ?L) (new_roots ?n k q)) T =
      (Inr (mhash C ?L k (2 * (q div 2)), map (entry C ?L) (new_roots ?n (Suc k) (q div 2))), T1)"
      "cache_eq content T T1"
      using left_sibling_hash_eq [OF E lru Suc.prems(1) le len] q by auto
    have sib: "sibling (NI k q) = NI k (2 * (q div 2))" using sibling_NI [OF k, of q] False by simp
    have "new_internal C (NI (Suc k) (q div 2)) (mhash C ?L k (2 * (q div 2))) (mhash C ?L k q) =
        acc_node C ?L (Suc k) (q div 2)"
      using q by (simp del: mhash.simps)
    then show ?thesis
      using step [OF T1(2)] False is_left_child_NI [OF k, of q] T1(1)
      by (simp add: E par sib hn sbind_def Let_def del: mhash.simps acc_node.simps node_hash_new)
  qed
qed

lemma lookup_inv_update:
  assumes E: "env_crypto E = C" "env_store E = S" and lru: "lru_ok (env_lru E) content"
    and inv: "lookup_inv C content nodes ls T" and free: "collision_free C (ls @ xs)"
    and ns: "set ns = new_nodes C (ls @ xs) (length ls)"
  shows "lookup_inv C content nodes (ls @ xs) ((update_cache E ns (update_temp_nodes E ns T))
    \<lparr>root_hash := merkle_root C (ls @ xs), num_leaves := word_of_nat (length (ls @ xs))\<rparr>)"
    (is "lookup_inv _ _ _ _ ?T")
proof -
  let ?L = "ls @ xs" and ?n = "length ls"
  let ?N = "length ?L"
  have upd: "map_of (update_nodes ?T) = fold (\<lambda>x m. m(node_hash C x \<mapsto> x)) ns (map_of (update_nodes T))"
    by (simp add: update_cache_def save_node_indexes_def update_temp_nodes_def E map_of_fold_update)
  have cache: "content (index_cache ?T) \<subseteq>\<^sub>m
      fold (\<lambda>x m. m(node_idx x \<mapsto> node_hash C x)) ns (content (index_cache T))"
    using content_fold_put [OF lru, where key = node_idx and val = "node_hash C" and xs = ns]
    by (simp add: update_cache_def save_node_indexes_def update_temp_nodes_def E)
  have old: "present ?N l p" "\<not> ?n < (p + 1) * 2 ^ l \<Longrightarrow> mhash C ?L l p = mhash C ls l p"
    if "present ?n l p" for l p
  proof -
    have "rlevel ?n \<le> rlevel ?N" using rlevel_le_iff [of ?n "rlevel ?N"] rlevel_le_iff [of ?N "rlevel ?N"] by simp
    then show "present ?N l p" using that by (simp add: present_def)
  qed (auto intro: mhash_full_append)
  have c: "\<exists>l p. present ?N l p \<and> k = NI l p \<and> h = mhash C ?L l p"
    if "content (index_cache ?T) k = Some h" for k h
  proof -
    have f: "fold (\<lambda>x m. m(node_idx x \<mapsto> node_hash C x)) ns (content (index_cache T)) k = Some h"
      using cache that by (auto simp: map_le_def dom_def simp del: fun_upd_apply)
    show ?thesis
    proof (cases "k \<in> node_idx ` set ns")
      case True
      then obtain x where x: "x \<in> set ns" "node_idx x = k" "h = node_hash C x"
        using fold_upd_in [OF True, of "node_hash C" "content (index_cache T)"] f
        by (metis option.inject)
      then obtain l p where "x = acc_node C ?L l p" "present ?N l p"
        unfolding ns new_nodes_def by blast
      then show ?thesis using x(2,3) by (metis node_idx_acc_node present_hash)
    next
      case False
      then have "content (index_cache T) k = Some h" using fold_upd_notin [OF False, of "node_hash C" "content (index_cache T)"] f by (metis (no_types, lifting))
      then obtain l p where lp: "present ?n l p" "k = NI l p" "h = mhash C ls l p"
        using inv unfolding lookup_inv_def by blast
      have "\<not> ?n < (p + 1) * 2 ^ l"
      proof
        assume "?n < (p + 1) * 2 ^ l"
        then have "acc_node C ?L l p \<in> set ns" unfolding ns new_nodes_def using old(1) [OF lp(1)] by blast
        then show False using False lp(2) node_idx_acc_node by (metis image_eqI)
      qed
      then show ?thesis using old [OF lp(1)] lp by (intro exI [of _ l] exI [of _ p]) simp
    qed
  qed
  have n: "tree_nodes nodes ?T (mhash C ?L l p) = Some (acc_node C ?L l p)" if pr: "present ?N l p" for l p
  proof (cases "mhash C ?L l p \<in> node_hash C ` set ns")
    case True
    then obtain x where x: "x \<in> set ns" "node_hash C x = mhash C ?L l p"
      "map_of (update_nodes ?T) (mhash C ?L l p) = Some x"
      using fold_upd_in [OF True, of "\<lambda>x. x"] unfolding upd by blast
    then obtain l' p' where "x = acc_node C ?L l' p'" "present ?N l' p'"
      unfolding ns new_nodes_def by blast
    then have "x = acc_node C ?L l p" using x(2) collision_free_inj [OF free] pr by (metis present_hash)
    then show ?thesis using x(3) by (simp add: tree_nodes_def map_add_def del: acc_node.simps)
  next
    case False
    then have "acc_node C ?L l p \<notin> set ns" using present_hash [OF pr] by (metis image_eqI)
    then have full: "(p + 1) * 2 ^ l \<le> ?n" unfolding ns new_nodes_def using pr by fastforce
    have "map_of (update_nodes ?T) (mhash C ?L l p) = map_of (update_nodes T) (mhash C ?L l p)"
      unfolding upd by (rule fold_upd_notin [OF False])
    moreover have "store ?T = store T"
      by (simp add: update_cache_def save_node_indexes_def update_temp_nodes_def)
    ultimately have "tree_nodes nodes ?T (mhash C ?L l p) = tree_nodes nodes T (mhash C ls l p)"
      using mhash_full_append [OF full] by (simp add: tree_nodes_def map_add_def)
    then show ?thesis
      using inv present_full [OF full] acc_node_full [OF full] by (simp add: lookup_inv_def)
  qed
  have "update_nodes ?T = fold (\<lambda>x. AList.update (node_hash C x) x) ns (update_nodes T)"
    by (simp add: update_cache_def save_node_indexes_def update_temp_nodes_def E)
  then have "\<forall>(h, x) \<in> set (update_nodes ?T). node_hash C x = h" "distinct (map fst (update_nodes ?T))"
    using set_fold_update [of "node_hash C" ns "update_nodes T"] inv
      distinct_fold_update [of "update_nodes T" "node_hash C" ns]
    by (fastforce simp: lookup_inv_def)+
  then show ?thesis unfolding lookup_inv_def using c n by auto
qed

lemma scan_frozen_subtree_roots_eq:
  assumes E: "env_crypto E = C" "env_store E = S" and lru: "lru_ok (env_lru E) content"
    and inv: "lookup_inv C content nodes ls T" and free: "collision_free C ls"
    and len: "length ls \<le> 2 ^ 63" and n: "ls \<noteq> []"
  shows "\<exists>T'. scan_frozen_subtree_roots E T = (Inr (frozen_roots C ls), T') \<and> cache_eq content T T'"
proof -
  let ?f = "\<lambda>p. sbind (get_node_hash E p) (\<lambda>h T. (ok_or h FrozenRootMissing, T))"
  have full: "(p + 1) * 2 ^ l \<le> length ls" if "(l, p) \<in> set (fcoords (length ls))" for l p
  proof -
    have "bit (length ls) l" and p: "p = length ls div 2 ^ l - 1"
      using that by (auto simp: fcoords_def set_ones)
    then have "0 < length ls div 2 ^ l" by (cases "length ls div 2 ^ l") (auto simp: bit_iff_odd)
    then have "p + 1 = length ls div 2 ^ l" using p by simp
    then show ?thesis by (simp only: div_times_less_eq_dividend)
  qed
  have "num_leaves T = word_of_nat (length ls)" using inv by (simp add: lookup_inv_def)
  then have idx: "frozen_subtree_collect (frozen_subtree_iter_new (num_leaves T)) =
      map (\<lambda>(l, p). NI l p) (fcoords (length ls))"
    using frozen_subtrees_NI [of "length ls"] len by simp
  have "\<exists>T'. smap (\<lambda>y. ?f ((\<lambda>(l, p). NI l p) y)) (fcoords (length ls)) T =
      (Inr (map (\<lambda>(l, p). mhash C ls l p) (fcoords (length ls))), T') \<and> cache_eq content T T'"
  proof (rule smap_ok)
    fix x T1
    assume x: "x \<in> set (fcoords (length ls))" and T1: "cache_eq content T T1"
    obtain l p where lp: "x = (l, p)" by (cases x)
    have pr: "present (length ls) l p" using full x lp by (blast intro: present_full)
    then obtain T2 where "get_node_hash E (NI l p) T1 = (Inr (Some (mhash C ls l p)), T2)" "cache_eq content T1 T2"
      using get_node_hash_eq [OF E lru lookup_inv_cache_eq [OF T1 inv] free len present_valid [OF pr len] _ n]
      by (auto simp: present_def)
    then show "\<exists>T2. ?f ((\<lambda>(l, p). NI l p) x) T1 = (Inr ((\<lambda>(l, p). mhash C ls l p) x), T2) \<and> cache_eq content T T2"
      using lp T1 by (auto simp: sbind_def intro: cache_eq_trans)
  qed auto
  then show ?thesis by (simp add: scan_frozen_subtree_roots_def idx smap_map frozen_roots_def)
qed

lemma tree_append_eq:
  assumes E: "env_crypto E = C" "env_store E = S" and lru: "lru_ok (env_lru E) content"
    and inv: "tree_inv C content nodes ls T" and free: "collision_free C (ls @ xs)"
    and len: "length (ls @ xs) \<le> 2 ^ 63"
  shows "\<exists>T'. tree_append E xs T = (Inr (merkle_root C (ls @ xs)), T') \<and>
    tree_inv C content nodes (ls @ xs) T' \<and> store T' = store T"
proof (cases "xs = []")
  case True
  have "num_leaves T = word_of_nat (length ls)" "root_hash T = merkle_root C ls" "length ls \<le> 2 ^ 63"
    using inv by (simp_all add: tree_inv_def lookup_inv_def)
  moreover from this have "num_leaves T = 0 \<longleftrightarrow> ls = []"
    by (simp add: word_of_nat_eq_0)
  ultimately show ?thesis using True inv by (simp add: tree_append_def E merkle_root_Nil)
next
  case False
  let ?L = "ls @ xs" and ?n = "length ls"
  let ?N = "length ?L" and ?R = "rlevel (length (ls @ xs))"
  have n: "num_leaves T = word_of_nat ?n" "num_nodes T = word_of_nat (frozen_count ?n)"
    using inv by (simp_all add: tree_inv_def lookup_inv_def)
  have N: "0 < ?N" "?n < ?N" using False by auto
  have count: "num_leaves T + word_of_nat (length xs) = word_of_nat ?N" by (simp add: n(1))
  have rl: "root_level_from_leaf_count (word_of_nat ?N :: u64) = (Inr ?R :: (nat, acc_error) outcome)"
    using N len by (intro root_level_from_leaf_count_eq) simp_all
  obtain ns T1 where fl: "freeze_leaves E 0 xs [] [] (num_nodes T) T =
      (Inr (map (entry C ?L) (new_roots ?n 0 ?N), ns, word_of_nat (frozen_count ?N)), T1)"
    "cache_eq content T T1"
    "set ns = {acc_node C ?L l p |l p. ?n < (p + 1) * 2 ^ l \<and> (p + 1) * 2 ^ l \<le> ?N}"
    using freeze_leaves_eq [OF E lru len inv, of xs ?n "[]"] new_roots_Nil [of ?n 0 ?n] n(2) by auto
  obtain m t where mt: "?N = m * 2 ^ t" "odd m" by (rule odd_factor [OF N(1)])
  let ?q = "(?N - 1) div 2 ^ t"
  have m: "m = Suc (2 * (m div 2))" using mt(2) by simp
  have q: "?q = 2 * (m div 2)"
  proof -
    obtain m' where m': "m = Suc m'" using m by blast
    have "0 < (2 ^ t :: nat)" by simp
    then have "2 ^ t * m' \<le> Suc m' * 2 ^ t - 1 \<and> Suc m' * 2 ^ t - 1 < 2 ^ t * Suc m'"
      by (simp only: mult_Suc mult_Suc_right mult.commute [of "2 ^ t"]) linarith
    then have "?q = m'" unfolding mt(1) m' by (intro div_nat_eqI) blast+
    then have "?q = m - 1" using m' by simp
    then show ?thesis using m by simp
  qed
  have "new_roots ?n 0 ?N = new_roots ?n t m" unfolding mt(1) new_roots_mult_exp by simp
  also have "\<dots> = new_roots ?n (Suc t) (m div 2) @ [(t, 2 * (m div 2))]"
    using N(2) new_roots_odd [of ?n t "m div 2"] m unfolding mt(1) by simp
  also have "new_roots ?n (Suc t) (m div 2) = new_roots ?n t ?q" unfolding q new_roots_even ..
  finally have stack: "map (entry C ?L) (new_roots ?n 0 ?N) =
      map (entry C ?L) (new_roots ?n t ?q) @ [(NI t ?q, mhash C ?L t ?q)]"
    unfolding q by (simp add: entry_def)
  have tR: "t \<le> ?R"
  proof -
    have "(m - 1 + 1) * 2 ^ t \<le> ?N" using mt m by simp
    then show ?thesis using present_full [of "m - 1" t ?N] by (simp add: present_def)
  qed
  have lev: "level (NI t ?q) = t" using tR rlevel_63 [OF len] by (intro level_NI) simp
  note inv1 = tree_inv_cache_eq [OF fl(2) inv]
  obtain ns' T2 where wr: "walk_to_root E (?R - t) (NI t ?q) (mhash C ?L t ?q)
      (map (entry C ?L) (new_roots ?n t ?q)) [] T1 = (Inr (merkle_root C ?L, ns'), T2)"
    "cache_eq content T1 T2"
    "set ns' = {acc_node C ?L l ((?N - 1) div 2 ^ l) |l. t < l \<and> l \<le> ?R}"
    using walk_to_root_eq [OF E lru len False inv1 _ refl, of t "?R - t" "[]"] tR by auto
  have new: "set (ns' @ ns) = new_nodes C ?L ?n"
    unfolding set_append wr(3) fl(3) by (rule new_nodes_split [OF mt(1) [symmetric] mt(2) N(2)])
  have inv2: "lookup_inv C content nodes ls T2"
    using lookup_inv_cache_eq [OF wr(2)] inv1 by (simp add: tree_inv_def)
  define T3 where "T3 = (update_cache E (ns' @ ns) (update_temp_nodes E (ns' @ ns) T2))
    \<lparr>root_hash := merkle_root C ?L, num_leaves := word_of_nat ?N\<rparr>"
  have inv3: "lookup_inv C content nodes ?L T3"
    unfolding T3_def by (rule lookup_inv_update [OF E lru inv2 free new])
  obtain T4 where sc: "scan_frozen_subtree_roots E T3 = (Inr (frozen_roots C ?L), T4)" "cache_eq content T3 T4"
    using scan_frozen_subtree_roots_eq [OF E lru inv3 free len] False by auto
  let ?T = "T4\<lparr>frozen_subtree_roots := frozen_roots C ?L, num_nodes := word_of_nat (frozen_count ?N)\<rparr>"
  have "tree_append E xs T = (Inr (merkle_root C ?L), ?T)"
    unfolding tree_append_def count Let_def rl
    using False fl(1) wr(1) sc(1) lev by (simp add: stack sbind_def T3_def del: of_nat_add length_append)
  moreover have "tree_inv C content nodes ?L ?T"
    using lookup_inv_cache_eq [OF sc(2) inv3] len free
    by (simp add: tree_inv_def lookup_inv_def tree_nodes_def)
  moreover have "store ?T = store T"
    using cache_eq_sel(4) [OF sc(2)] cache_eq_sel(4) [OF wr(2)] cache_eq_sel(4) [OF fl(2)]
    by (simp add: T3_def update_cache_def save_node_indexes_def update_temp_nodes_def)
  ultimately show ?thesis by blast
qed

end

text \<open>A flush keeps the invariant, whether it succeeds, fails, or fails half-way.\<close>

context accumulator_saves
begin

lemma flush_any:
  assumes E: "env_crypto E = C" "env_store E = S" and inv: "tree_inv C content nodes ls T" and run: "flush E T = (r, T')"
  shows "tree_inv C content nodes ls T' \<and> tree_nodes nodes T' = tree_nodes nodes T \<and>
    (r = Inr () \<longrightarrow> update_nodes T' = [] \<and> nodes (store T') = tree_nodes nodes T) \<and>
    (r \<noteq> Inr () \<longrightarrow> T' = T\<lparr>store := store T'\<rparr>)"
proof (cases "update_nodes T = []")
  case True
  then show ?thesis using inv run by (auto simp: flush_def tree_nodes_def)
next
  case False
  obtain st w where w: "store_save_nodes S (store T) (map snd (update_nodes T)) = (st, w)" by fastforce
  have upd: "fst x = node_hash C (snd x)" if "x \<in> set (update_nodes T)" for x
    using inv that by (auto simp: tree_inv_def lookup_inv_def)
  have "nodes (store T') ++ map_of (update_nodes T') = nodes (store T) ++ map_of (update_nodes T) \<and>
    (r = Inr () \<longrightarrow> update_nodes T' = []) \<and> T' = T\<lparr>store := store T', update_nodes := update_nodes T'\<rparr> \<and>
    (r \<noteq> Inr () \<longrightarrow> update_nodes T' = update_nodes T)"
  proof (cases w)
    case (Inl e)
    then have T': "T' = T\<lparr>store := st\<rparr>" "r = Inl e" using run False w by (simp_all add: flush_def E)
    have "(nodes st ++ map_of (update_nodes T)) h = (nodes (store T) ++ map_of (update_nodes T)) h" for h
    proof (cases "h \<in> fst ` set (update_nodes T)")
      case False
      then have "nodes st h = nodes (store T) h"
        using save_nodes_err [of "store T" _ st e h] w Inl upd by (force simp: image_iff)
      then show ?thesis by (simp add: map_add_def split: option.split)
    next
      case True
      then have "map_of (update_nodes T) h \<noteq> None" by (simp add: map_of_eq_None_iff)
      then show ?thesis by (auto simp: map_add_def)
    qed
    then show ?thesis using T' by auto
  next
    case (Inr u)
    then have T': "T' = T\<lparr>store := st, update_nodes := []\<rparr>" "r = Inr ()" using run False w by (simp_all add: flush_def E)
    have "nodes st = fold (\<lambda>n m. m(node_hash C n \<mapsto> n)) (map snd (update_nodes T)) (nodes (store T))"
      using save_nodes_ok [of "store T" _ st] w Inr by simp
    also have "\<dots> = nodes (store T) ++ map_of (update_nodes T)"
      by (rule fold_upd_map_add) (use inv in \<open>auto simp: tree_inv_def lookup_inv_def\<close>)
    finally show ?thesis using T' by simp
  qed
  then have tn: "tree_nodes nodes T' = tree_nodes nodes T" and upd': "r = Inr () \<longrightarrow> update_nodes T' = []"
    "r \<noteq> Inr () \<longrightarrow> update_nodes T' = update_nodes T" and T': "T' = T\<lparr>store := store T', update_nodes := update_nodes T'\<rparr>"
    by (simp_all add: tree_nodes_def)
  have sel: "num_leaves T' = num_leaves T" "root_hash T' = root_hash T" "index_cache T' = index_cache T"
    "frozen_subtree_roots T' = frozen_subtree_roots T" "num_nodes T' = num_nodes T" by (subst T', simp)+
  have "tree_inv C content nodes ls T'"
    using inv upd' tn by (cases "r = Inr ()") (simp_all add: tree_inv_def lookup_inv_def sel)
  moreover have "T' = T\<lparr>store := store T'\<rparr>" if "r \<noteq> Inr ()"
    using upd'(2) that by (subst T') simp
  ultimately show ?thesis using tn upd'(1) by (auto simp: tree_nodes_def)
qed

end

context accumulator_store
begin

lemma flush_eq:
  assumes E: "env_crypto E = C" "env_store E = S" and inv: "tree_inv C content nodes ls T"
  shows "\<exists>T'. flush E T = (Inr (), T') \<and> tree_inv C content nodes ls T' \<and> update_nodes T' = [] \<and>
    nodes (store T') = tree_nodes nodes T"
proof -
  obtain st where "store_save_nodes S (store T) (map snd (update_nodes T)) = (st, Inr ())"
    using save_nodes_total by blast
  then obtain T' where T': "flush E T = (Inr (), T')" by (cases "update_nodes T = []") (simp_all add: flush_def E)
  show ?thesis using flush_any [OF E inv T'] T' by blast
qed

end

end
