(* ===== verification/InMemory.thy ===== *)
theory InMemory
  imports Merkle_Spec
begin

text \<open>
  The in-memory accumulator, \<^verbatim>\<open>commons/accumulator/src/inmemory/mod.rs\<close>: it keeps the
  roots of the full subtrees only. Every operation is proved to compute the reference
  tree of \<^verbatim>\<open>Merkle_Spec\<close>, and no \<^verbatim>\<open>expect\<close> of the code fails on a valid accumulator.
\<close>

section \<open>Definitions\<close>

record 'h InMemoryAccumulator =
  im_frozen_subtree_roots :: "'h list"
  im_num_leaves :: LeafCount
  im_root_hash :: 'h

datatype inmemory_error = RootsMismatch | TooManyNewLeaves | TooFewSubtrees

record 'h MerkleTreeInternalNode =
  mt_left :: 'h
  mt_right :: 'h

definition merkle_internal_hash :: "'h crypto \<Rightarrow> 'h MerkleTreeInternalNode \<Rightarrow> 'h" where
  "merkle_internal_hash C n =
     (let bytes = to_vec C (mt_left n);
          bytes = bytes @ to_vec C (mt_right n)
      in sha3_256_of C bytes)"

text \<open>The loop of \<^verbatim>\<open>compute_root_hash\<close>; the last argument is the reversed iterator.\<close>

function root_hash_loop ::
  "'h crypto \<Rightarrow> u64 \<Rightarrow> 'h \<Rightarrow> 'h list \<Rightarrow> ('h, inmemory_error) outcome" where
  "root_hash_loop C bm current_hash it =
     (if bm > 0 then
        if bm AND 1 \<noteq> 0 then
          (case it of
             [] \<Rightarrow> Inl Panic
           | root # it' \<Rightarrow>
               root_hash_loop C (shr bm 1) (merkle_internal_hash C \<lparr>mt_left = root, mt_right = current_hash\<rparr>) it')
        else
          root_hash_loop C (shr bm 1)
            (merkle_internal_hash C \<lparr>mt_left = current_hash, mt_right = ACCUMULATOR_PLACEHOLDER_HASH C\<rparr>) it
      else Inr current_hash)"
  by pat_completeness auto

termination
proof (relation "measure (\<lambda>(C, bm, h, it). unat bm)", goal_cases)
  case 1
  then show ?case by simp
qed (auto simp: unat_shr_one word_less_nat_alt)

declare root_hash_loop.simps [simp del]

definition compute_root_hash ::
  "'h crypto \<Rightarrow> 'h list \<Rightarrow> LeafCount \<Rightarrow> ('h, inmemory_error) outcome" where
  "compute_root_hash C roots num_leaves =
     (case roots of
        [] \<Rightarrow> Inr (ACCUMULATOR_PLACEHOLDER_HASH C)
      | [root] \<Rightarrow> Inr root
      | _ \<Rightarrow>
        let bm = shr num_leaves (trailing_zeros num_leaves)
        in root_hash_loop C bm (ACCUMULATOR_PLACEHOLDER_HASH C) (rev roots))"

definition inmemory_new ::
  "'h crypto \<Rightarrow> 'h list \<Rightarrow> u64 \<Rightarrow> ('h InMemoryAccumulator, inmemory_error) outcome" where
  "inmemory_new C roots num_leaves =
     obind (ensure (length roots = count_ones num_leaves) RootsMismatch) (\<lambda>_.
     obind (compute_root_hash C roots num_leaves) (\<lambda>root_hash.
     Inr \<lparr>im_frozen_subtree_roots = roots, im_num_leaves = num_leaves, im_root_hash = root_hash\<rparr>))"

text \<open>The carry loop of \<^verbatim>\<open>append_one\<close>, run once per trailing one.\<close>

fun merge_last_two :: "'h crypto \<Rightarrow> nat \<Rightarrow> 'h list \<Rightarrow> ('h list, inmemory_error) outcome" where
  "merge_last_two C 0 roots = Inr roots"
| "merge_last_two C (Suc i) roots =
     obind (expect (vec_pop roots)) (\<lambda>(right_hash, roots).
     obind (expect (vec_pop roots)) (\<lambda>(left_hash, roots).
     let parent_hash = merkle_internal_hash C \<lparr>mt_left = left_hash, mt_right = right_hash\<rparr>
     in merge_last_two C i (roots @ [parent_hash])))"

definition append_one ::
  "'h crypto \<Rightarrow> 'h list \<Rightarrow> u64 \<Rightarrow> 'h \<Rightarrow> ('h list, inmemory_error) outcome" where
  "append_one C roots num_existing_leaves leaf =
     (let roots = roots @ [leaf];
          num_trailing_ones = trailing_zeros (NOT num_existing_leaves)
      in merge_last_two C num_trailing_ones roots)"

fun append_leaves ::
  "'h crypto \<Rightarrow> 'h list \<Rightarrow> u64 \<Rightarrow> 'h list \<Rightarrow> ('h list \<times> u64, inmemory_error) outcome" where
  "append_leaves C roots num_leaves [] = Inr (roots, num_leaves)"
| "append_leaves C roots num_leaves (leaf # leaves) =
     obind (append_one C roots num_leaves leaf) (\<lambda>roots.
     append_leaves C roots (num_leaves + 1) leaves)"

text \<open>\<^verbatim>\<open>expect\<close> on a \<^verbatim>\<open>Result\<close>: an error becomes a panic.\<close>

definition expect_ok :: "('a, 'e) outcome \<Rightarrow> ('a, 'e) outcome" where
  "expect_ok r = (case r of Inl _ \<Rightarrow> Inl Panic | Inr x \<Rightarrow> Inr x)"

definition inmemory_append ::
  "'h crypto \<Rightarrow> 'h InMemoryAccumulator \<Rightarrow> 'h list \<Rightarrow> ('h InMemoryAccumulator, inmemory_error) outcome" where
  "inmemory_append C acc leaves =
     obind (append_leaves C (im_frozen_subtree_roots acc) (im_num_leaves acc) leaves)
       (\<lambda>(roots, num_leaves). expect_ok (inmemory_new C roots num_leaves))"

definition inmemory_default :: "'h crypto \<Rightarrow> ('h InMemoryAccumulator, inmemory_error) outcome" where
  "inmemory_default C = expect_ok (inmemory_new C [] 0)"

definition inmemory_from_leaves ::
  "'h crypto \<Rightarrow> 'h list \<Rightarrow> ('h InMemoryAccumulator, inmemory_error) outcome" where
  "inmemory_from_leaves C leaves = obind (inmemory_default C) (\<lambda>acc. inmemory_append C acc leaves)"

text \<open>
  The inner loop of \<^verbatim>\<open>append_subtrees\<close>; the stack of roots is reversed (its top first),
  so that each round removes the head.
\<close>

fun combine_subtree ::
  "'h crypto \<Rightarrow> u64 \<Rightarrow> 'h list \<Rightarrow> u64 \<Rightarrow> 'h \<Rightarrow> ('h list \<times> u64 \<times> 'h, inmemory_error) outcome" where
  "combine_subtree C num_leaves [] msk current_hash =
     (if num_leaves AND msk \<noteq> 0 then Inl Panic else Inr ([], msk, current_hash))"
| "combine_subtree C num_leaves (left_hash # stack) msk current_hash =
     (if num_leaves AND msk \<noteq> 0
      then combine_subtree C num_leaves stack (shl msk 1)
             (merkle_internal_hash C \<lparr>mt_left = left_hash, mt_right = current_hash\<rparr>)
      else Inr (left_hash # stack, msk, current_hash))"

text \<open>The outer loop: the reversed stack, the counters and the remaining subtrees.\<close>

fun append_subtrees_loop ::
  "'h crypto \<Rightarrow> 'h list \<Rightarrow> u64 \<Rightarrow> u64 \<Rightarrow> u64 \<Rightarrow> 'h list
   \<Rightarrow> ('h list \<times> u64 \<times> u64 \<times> 'h list, inmemory_error) outcome" where
  "append_subtrees_loop C stack cur remaining sz [] =
     (if remaining \<ge> sz then Inl (Err TooFewSubtrees) else Inr (stack, cur, remaining, []))"
| "append_subtrees_loop C stack cur remaining sz (h # it) =
     (if remaining \<ge> sz then
        obind (combine_subtree C cur stack sz h) (\<lambda>(stack, msk, current_hash).
        append_subtrees_loop C (current_hash # stack) (cur + sz) (remaining - sz) msk it)
      else Inr (stack, cur, remaining, h # it))"

definition append_subtrees ::
  "'h crypto \<Rightarrow> 'h InMemoryAccumulator \<Rightarrow> 'h list \<Rightarrow> u64
   \<Rightarrow> ('h InMemoryAccumulator, inmemory_error) outcome" where
  "append_subtrees C acc subtrees num_new_leaves =
     obind (ensure (num_new_leaves \<le> MAX_ACCUMULATOR_LEAVES - im_num_leaves acc) TooManyNewLeaves) (\<lambda>_.
     if im_num_leaves acc = 0 then inmemory_new C subtrees num_new_leaves
     else
       obind (append_subtrees_loop C (rev (im_frozen_subtree_roots acc)) (im_num_leaves acc)
                num_new_leaves (shl 1 (trailing_zeros (im_num_leaves acc))) subtrees)
         (\<lambda>(stack, cur, remaining, it).
            inmemory_new C (rev stack @ it) (cur + remaining)))"

definition im_version :: "'h InMemoryAccumulator \<Rightarrow> u64" where
  "im_version acc = (if im_num_leaves acc = 0 then 0 else im_num_leaves acc - 1)"

section \<open>The accumulator of a list of leaves\<close>

text \<open>What a valid accumulator over \<open>ls\<close> holds.\<close>

definition inmemory_of :: "'h crypto \<Rightarrow> 'h list \<Rightarrow> 'h InMemoryAccumulator" where
  "inmemory_of C ls =
     \<lparr>im_frozen_subtree_roots = frozen_roots C ls, im_num_leaves = word_of_nat (length ls),
      im_root_hash = merkle_root C ls\<rparr>"

lemma inmemory_of_sel [simp]:
  "im_frozen_subtree_roots (inmemory_of C ls) = frozen_roots C ls"
  "im_num_leaves (inmemory_of C ls) = word_of_nat (length ls)"
  "im_root_hash (inmemory_of C ls) = merkle_root C ls"
  by (simp_all add: inmemory_of_def)

lemma merkle_internal_hash_eq [simp]:
  "merkle_internal_hash C \<lparr>mt_left = x, mt_right = y\<rparr> = hash_children C x y"
  by (simp add: merkle_internal_hash_def hash_children_def)

section \<open>Appending leaves\<close>

lemma merge_last_two_froots:
  "(n + 1) * 2 ^ k \<le> length ls \<Longrightarrow>
   merge_last_two C (tones n) (froots_at C ls k n @ [mhash C ls k n]) = Inr (froots_at C ls k (n + 1))"
proof (induction n arbitrary: k rule: tones.induct)
  case (1 n)
  show ?case
  proof (cases "odd n")
    case True
    then obtain q where q: "n = Suc (2 * q)" by (auto elim!: oddE)
    have le: "(q + 1) * 2 ^ Suc k \<le> length ls" using 1(2) q by (simp add: algebra_simps)
    then have lt: "q * 2 ^ Suc k < length ls" by (rule less_le_trans [rotated]) simp
    have "merge_last_two C (tones n) (froots_at C ls k n @ [mhash C ls k n]) =
        merge_last_two C (tones q) (froots_at C ls (Suc k) q @ [mhash C ls (Suc k) q])"
      using hash_children_mhash [OF lt]
      by (simp add: q tones.simps [of "Suc (2 * q)"] froots_at_odd vec_pop_def butlast_append
          del: mhash.simps)
    also have "\<dots> = Inr (froots_at C ls (Suc k) (q + 1))"
      using 1(1) [OF True, of "Suc k"] le q by simp
    also have "froots_at C ls (Suc k) (q + 1) = froots_at C ls k (n + 1)"
      using froots_at_even [of C ls k "q + 1"] q by simp
    finally show ?thesis .
  next
    case False
    then obtain q where "n = 2 * q" by (auto elim!: evenE)
    then show ?thesis by (simp add: tones.simps froots_at_even froots_at_odd)
  qed
qed

lemma append_one_froots:
  assumes "length ls + 1 < 2 ^ 64"
  shows "append_one C (frozen_roots C ls) (word_of_nat (length ls)) leaf =
    Inr (frozen_roots C (ls @ [leaf]))"
proof -
  let ?ls = "ls @ [leaf]" and ?n = "length ls"
  have "frozen_roots C ls @ [leaf] = froots_at C ?ls 0 ?n @ [mhash C ?ls 0 ?n]"
    by (simp add: frozen_roots_at froots_at_cong)
  then show ?thesis
    using merge_last_two_froots [of ?n 0 ?ls C]
    by (simp add: append_one_def trailing_ones_eq [OF assms] frozen_roots_at del: mhash.simps)
qed

lemma append_leaves_froots:
  "length ls + length xs < 2 ^ 64 \<Longrightarrow>
   append_leaves C (frozen_roots C ls) (word_of_nat (length ls)) xs =
     Inr (frozen_roots C (ls @ xs), word_of_nat (length (ls @ xs)))"
proof (induction xs arbitrary: ls)
  case (Cons x xs)
  have "append_one C (frozen_roots C ls) (word_of_nat (length ls)) x = Inr (frozen_roots C (ls @ [x]))"
    using Cons.prems by (intro append_one_froots) simp
  then show ?case using Cons.IH [of "ls @ [x]"] Cons.prems by (simp add: add.commute)
qed simp

section \<open>The root hash\<close>

lemma length_froots_at: "length (froots_at C ls k n) = length (ones n)"
  by (simp add: froots_at_def)

lemma root_hash_loop_mhash:
  assumes "q < 2 ^ 64" and "q * 2 ^ k \<le> length ls" and "length ls < (q + 1) * 2 ^ k"
    and "even q \<Longrightarrow> q * 2 ^ k < length ls"
  shows "root_hash_loop C (word_of_nat q) (mhash C ls k q) (rev (froots_at C ls k q)) =
    Inr (mhash C ls (k + blen q) 0)"
  using assms
proof (induction q arbitrary: k rule: blen.induct)
  case (1 q)
  show ?case
  proof (cases "q = 0")
    case True
    then show ?thesis by (simp add: root_hash_loop.simps)
  next
    case False
    let ?h = "q div 2"
    have pos: "(word_of_nat q :: u64) > 0"
      using False 1(2) by (simp add: word_less_nat_alt unat_of_nat_eq)
    have h: "?h * 2 ^ Suc k < length ls" "length ls < (?h + 1) * 2 ^ Suc k"
    proof -
      have "q * 2 ^ k < length ls \<or> odd q \<and> ?h * 2 ^ Suc k < q * 2 ^ k"
        using 1(5) by (cases "even q") (auto elim!: oddE)
      moreover have "?h * 2 ^ Suc k \<le> q * 2 ^ k"
        by (simp flip: mult.assoc)
      ultimately show "?h * 2 ^ Suc k < length ls" using 1(3) by linarith
      have "(q + 1) * 2 ^ k \<le> (?h + 1) * 2 * 2 ^ k" by (intro mult_le_mono1) auto
      then show "length ls < (?h + 1) * 2 ^ Suc k" using 1(4) by (simp add: mult.assoc)
    qed
    have IH: "root_hash_loop C (word_of_nat ?h) (mhash C ls (Suc k) ?h) (rev (froots_at C ls (Suc k) ?h)) =
        Inr (mhash C ls (Suc k + blen ?h) 0)"
      using 1(2) h by (intro 1(1) [OF False]) auto
    have shr: "shr (word_of_nat q :: u64) (Suc 0) = word_of_nat ?h"
      using 1(2) by (rule shr_word_of_nat)
    show ?thesis
    proof (cases "odd q")
      case True
      then have q: "Suc (2 * ?h) = q" by simp
      have f: "rev (froots_at C ls k q) = mhash C ls k (2 * ?h) # rev (froots_at C ls (Suc k) ?h)"
        using froots_at_odd [of C ls k ?h] q by simp
      show ?thesis
        using IH hash_children_mhash [OF h(1), of C] q True pos False
        by (subst root_hash_loop.simps)
          (simp add: f even_word_of_nat shr blen_pos [of q] del: mhash.simps)
    next
      case False
      then have q: "2 * ?h = q" by simp
      have ph: "mhash C ls k (Suc q) = ACCUMULATOR_PLACEHOLDER_HASH C"
        using 1(4) by (intro mhash_beyond) simp
      have f: "froots_at C ls k q = froots_at C ls (Suc k) ?h"
        using froots_at_even [of C ls k ?h] q by simp
      show ?thesis
        using IH hash_children_mhash [OF h(1), of C] q False pos \<open>q \<noteq> 0\<close>
        by (subst root_hash_loop.simps)
          (simp add: f ph even_word_of_nat shr blen_pos [of q] del: mhash.simps)
    qed
  qed
qed

lemma rlevel_blen: "(\<And>L. n \<noteq> 2 ^ L) \<Longrightarrow> rlevel n = blen n"
proof -
  assume "\<And>L. n \<noteq> 2 ^ L"
  then have "rlevel n \<le> L \<longleftrightarrow> blen n \<le> L" for L
    unfolding rlevel_le_iff blen_le_iff by (metis le_neq_implies_less less_imp_le)
  then show ?thesis by (meson le_antisym le_refl)
qed

lemma froots_at_mult_exp: "froots_at C ls k (m * 2 ^ t) = froots_at C ls (k + t) m"
proof (induction t arbitrary: k)
  case (Suc t)
  have "froots_at C ls k (m * 2 ^ Suc t) = froots_at C ls k (2 * (m * 2 ^ t))"
    by (simp add: mult.left_commute)
  then show ?case by (simp only: froots_at_even Suc.IH) simp
qed simp

lemma compute_root_hash_eq:
  assumes "length ls < 2 ^ 64"
  shows "compute_root_hash C (frozen_roots C ls) (word_of_nat (length ls)) = Inr (merkle_root C ls)"
proof -
  let ?n = "length ls"
  consider "ones ?n = []" | x where "ones ?n = [x]" | x y zs where "ones ?n = x # y # zs"
    by (cases "ones ?n"; cases "tl (ones ?n)") auto
  then show ?thesis
  proof cases
    case 1
    then have "ls = []" by (simp add: ones_eq_Nil)
    then show ?thesis by (simp add: compute_root_hash_def frozen_roots_at froots_at_0 merkle_root_Nil)
  next
    case 2
    have n: "?n = 2 ^ x" using 2 by (rule ones_single)
    have "rlevel ?n \<le> L \<longleftrightarrow> x \<le> L" for L by (simp add: rlevel_le_iff n)
    then have "rlevel ?n = x" by (meson le_antisym le_refl)
    then show ?thesis
      using 2 n by (simp add: compute_root_hash_def frozen_roots_at froots_at_def merkle_root_def)
  next
    case 3
    have np: "?n \<noteq> 2 ^ L" for L using 3 ones_exp [of L] by auto
    have "0 < ?n" using 3 by (cases "ls = []") auto
    then obtain m t where n: "?n = m * 2 ^ t" and odd: "odd m" by (rule odd_factor)
    have lt: "m * 2 ^ t < 2 ^ 64" using n assms by simp
    have f: "frozen_roots C ls = froots_at C ls t m"
      unfolding frozen_roots_at n froots_at_mult_exp by simp
    obtain a b cs where abc: "frozen_roots C ls = a # b # cs"
      using 3 by (auto simp: frozen_roots_at froots_at_def)
    have "compute_root_hash C (frozen_roots C ls) (word_of_nat ?n) =
        root_hash_loop C (word_of_nat m) (ACCUMULATOR_PLACEHOLDER_HASH C) (rev (frozen_roots C ls))"
      using trailing_zeros_odd_factor(1) [OF lt odd] shr_odd_factor [OF lt odd]
      by (simp add: compute_root_hash_def abc n del: of_nat_mult)
    also have "ACCUMULATOR_PLACEHOLDER_HASH C = mhash C ls t m"
      by (rule mhash_beyond [symmetric]) (simp add: n)
    also have "root_hash_loop C (word_of_nat m) (mhash C ls t m) (rev (frozen_roots C ls)) =
        Inr (mhash C ls (t + blen m) 0)"
      unfolding f
      by (rule root_hash_loop_mhash) (use n odd trailing_zeros_odd_factor(3) [OF lt odd] in simp_all)
    also have "t + blen m = blen ?n"
    proof -
      have "0 < m" using odd by (cases m) auto
      then have "blen (m * 2 ^ t) = t + blen m"
        by (induction t) (simp_all add: blen_pos [of "m * (2 * 2 ^ _)"] mult.left_commute)
      then show ?thesis by (simp only: n)
    qed
    also have "blen ?n = rlevel ?n" using np by (simp add: rlevel_blen)
    finally show ?thesis by (simp add: merkle_root_def)
  qed
qed

lemma inmemory_new_eq:
  assumes "length ls < 2 ^ 64"
  shows "inmemory_new C (frozen_roots C ls) (word_of_nat (length ls)) = Inr (inmemory_of C ls)"
proof -
  have "length (frozen_roots C ls) = count_ones (word_of_nat (length ls) :: u64)"
    using assms by (simp add: count_ones_eq unat_of_nat_eq frozen_roots_at length_froots_at)
  then show ?thesis
    by (simp add: inmemory_new_def compute_root_hash_eq [OF assms] inmemory_of_def)
qed

lemma inmemory_append_eq:
  "length ls + length xs < 2 ^ 64 \<Longrightarrow> inmemory_append C (inmemory_of C ls) xs = Inr (inmemory_of C (ls @ xs))"
  using inmemory_new_eq [of "ls @ xs" C]
  by (simp add: inmemory_append_def append_leaves_froots inmemory_of_def expect_ok_def)

lemma inmemory_default_eq: "inmemory_default C = Inr (inmemory_of C [])"
  using inmemory_new_eq [of "[]" C]
  by (simp add: inmemory_default_def expect_ok_def frozen_roots_at froots_at_0)

lemma inmemory_from_leaves_eq:
  "length ls < 2 ^ 64 \<Longrightarrow> inmemory_from_leaves C ls = Inr (inmemory_of C ls)"
  using inmemory_append_eq [of "[]" ls C] by (simp add: inmemory_from_leaves_def inmemory_default_eq)

section \<open>Appending subtrees\<close>

lemma combine_subtree_froots:
  assumes "n < 2 ^ 64" and "(n div 2 ^ k + 1) * 2 ^ k \<le> length ls" and "length ls \<le> 2 ^ 63"
  shows "\<exists>stack h. combine_subtree C (word_of_nat n) (rev (froots_at C ls k (n div 2 ^ k)))
      (2 ^ k) (mhash C ls k (n div 2 ^ k)) = Inr (stack, 2 ^ (k + tones (n div 2 ^ k)), h) \<and>
    h # stack = rev (froots_at C ls k (n div 2 ^ k + 1))"
  using assms(2)
proof (induction "n div 2 ^ k" arbitrary: k rule: tones.induct)
  case 1
  let ?m = "n div 2 ^ k"
  have "2 ^ k \<le> (?m + 1) * 2 ^ k" by simp
  then have "2 ^ k \<le> (2 ^ 63 :: nat)" using 1(2) assms(3) by linarith
  then have k: "k \<le> 63" using power_increasing_iff [of "2::nat" k 63] by simp
  have bit: "(word_of_nat n :: u64) AND 2 ^ k \<noteq> 0 \<longleftrightarrow> odd ?m"
  proof -
    have "(word_of_nat n :: u64) AND 2 ^ k = of_bool (bit (word_of_nat n :: u64) k) * 2 ^ k"
      by (simp add: and_exp_eq_0_iff_not_bit) (auto intro!: bit_eqI simp: bit_simps)
    then show ?thesis using k by (simp add: bit_simps) (simp add: bit_iff_odd)
  qed
  show ?case
  proof (cases "odd ?m")
    case False
    then obtain q where q: "?m = 2 * q" by (auto elim!: evenE)
    have t: "tones ?m = 0" using False by (simp add: tones.simps)
    have f: "froots_at C ls k (?m + 1) = froots_at C ls k ?m @ [mhash C ls k ?m]"
      unfolding q by (simp add: froots_at_even froots_at_odd del: mhash.simps)
    have "combine_subtree C (word_of_nat n) st (2 ^ k) h = Inr (st, 2 ^ k, h)" for st h
      using bit False by (cases st) auto
    then show ?thesis using f t by simp
  next
    case True
    then obtain q where q: "?m = Suc (2 * q)" by (auto elim!: oddE)
    have dq: "n div 2 ^ Suc k = q"
    proof -
      have "n div 2 ^ Suc k = ?m div 2" by (metis div_mult2_eq power_Suc2)
      then show ?thesis by (simp add: q)
    qed
    have le: "(n div 2 ^ Suc k + 1) * 2 ^ Suc k \<le> length ls"
      using 1(2) unfolding dq q by (simp add: algebra_simps)
    then have lt: "q * 2 ^ Suc k < length ls"
      unfolding dq by (rule less_le_trans [rotated]) simp
    have t: "tones ?m = Suc (tones q)" using True q by (simp add: tones.simps [of "Suc (2 * q)"])
    have stk: "rev (froots_at C ls k ?m) = mhash C ls k (2 * q) # rev (froots_at C ls (Suc k) q)"
      unfolding q by (simp add: froots_at_odd del: mhash.simps)
    have f: "froots_at C ls k (?m + 1) = froots_at C ls (Suc k) (q + 1)"
      using froots_at_even [of C ls k "q + 1"] by (simp add: q)
    have "combine_subtree C (word_of_nat n) (rev (froots_at C ls k ?m)) (2 ^ k) (mhash C ls k ?m) =
        combine_subtree C (word_of_nat n) (rev (froots_at C ls (Suc k) q)) (2 ^ Suc k)
          (mhash C ls (Suc k) q)"
      unfolding stk using bit True hash_children_mhash [OF lt, of C]
      by (simp add: q shl_less push_bit_eq_mult mult.commute del: mhash.simps)
    moreover have "q = ?m div 2" by (simp add: q)
    ultimately show ?thesis
      using 1(1) [OF True, of "Suc k"] le unfolding dq f t by (simp del: mhash.simps)
  qed
qed

lemma frozen_roots_take:
  "n \<le> length ls \<Longrightarrow> frozen_roots C (take n ls) = froots_at C ls 0 n"
  using froots_at_cong [of n 0 "take n ls" C "drop n ls"] by (simp add: frozen_roots_at)

lemma froots_at_add:
  assumes "2 ^ t dvd n" and "r < 2 ^ t"
  shows "froots_at C ls 0 (n + r) = froots_at C ls 0 n @ map (\<lambda>(l, p). mhash C ls l p) (scoords n r)"
proof -
  obtain m where m: "n = m * 2 ^ t" using assms(1) by (auto simp: mult.commute)
  have o: "ones (n + r) = ones n @ ones r" unfolding m by (rule ones_add [OF assms(2)])
  have "(n + r) div 2 ^ l = n div 2 ^ l" if "l \<in> set (ones n)" for l
  proof -
    have "t \<le> l" using that by (auto simp: set_ones m bit_nat_mult_exp)
    then have "(n + r) div 2 ^ l = (n + r) div 2 ^ t div 2 ^ (l - t)" "n div 2 ^ l = n div 2 ^ t div 2 ^ (l - t)"
      by (simp_all flip: div_mult2_eq power_add)
    then show ?thesis using assms(2) by (simp add: m)
  qed
  then show ?thesis
    by (simp add: froots_at_def o scoords_small [OF assms])
qed

lemma append_subtrees_loop_froots:
  assumes "0 < n" and "n + r = length ls" and "length ls \<le> 2 ^ 63"
  shows "\<exists>stack cur rem it. append_subtrees_loop C (rev (froots_at C ls 0 n)) (word_of_nat n)
      (word_of_nat r) (2 ^ tzeros n) (map (\<lambda>(l, p). mhash C ls l p) (scoords n r)) =
      Inr (stack, cur, rem, it) \<and>
    rev stack @ it = frozen_roots C ls \<and> cur + rem = word_of_nat (length ls)"
  using assms(1,2)
proof (induction r arbitrary: n rule: less_induct)
  case (less r)
  let ?t = "tzeros n" and ?m = "n div 2 ^ tzeros n"
  have m: "n = ?m * 2 ^ ?t" "odd ?m" using tzeros_factor [OF less.prems(1)] by auto
  have n: "n < 2 ^ 64" "r < 2 ^ 64" using less.prems(2) assms(3) by simp_all
  have t: "?t < 64" using trailing_zeros_eq(2) [OF less.prems(1) n(1)] .
  have cmp: "(2 ^ ?t :: u64) \<le> word_of_nat r \<longleftrightarrow> 2 ^ ?t \<le> r"
    using t n(2) by (simp add: word_le_nat_alt unat_exp unat_of_nat_eq)
  show ?case
  proof (cases "2 ^ ?t \<le> r")
    case False
    have "frozen_roots C ls = froots_at C ls 0 n @ map (\<lambda>(l, p). mhash C ls l p) (scoords n r)"
      using froots_at_add [of ?t n r C ls] False m(1) less.prems(2)
      by (simp add: frozen_roots_at) (metis dvd_triv_right)
    moreover have "append_subtrees_loop C st (word_of_nat n) (word_of_nat r) (2 ^ ?t) it =
        Inr (st, word_of_nat n, word_of_nat r, it)" for st it
      using cmp False by (cases it) auto
    ultimately show ?thesis using less.prems(2) by (simp flip: of_nat_add)
  next
    case True
    then have r: "0 < r" using less_le_trans [of 0 "2 ^ ?t" r] by simp
    have l: "sibling_level n r = ?t" using True less.prems(1) by (simp add: sibling_level_def)
    have le: "(?m + 1) * 2 ^ ?t \<le> length ls" using m(1) less.prems(2) True by (simp add: algebra_simps)
    have n': "(?m + 1) * 2 ^ ?t = n + 2 ^ ?t" using m(1) by (simp add: algebra_simps)
    have fr: "froots_at C ls 0 n = froots_at C ls ?t ?m"
      using froots_at_mult_exp [of C ls 0 ?m ?t] m(1) by simp
    have fr': "froots_at C ls ?t (?m + 1) = froots_at C ls 0 (n + 2 ^ ?t)"
      using froots_at_mult_exp [of C ls 0 "?m + 1" ?t] unfolding n' by simp
    obtain stack h where comb: "combine_subtree C (word_of_nat n) (rev (froots_at C ls 0 n))
        (2 ^ ?t) (mhash C ls ?t ?m) = Inr (stack, 2 ^ (?t + tones ?m), h)"
      and hs: "h # stack = rev (froots_at C ls 0 (n + 2 ^ ?t))"
      using combine_subtree_froots [OF n(1) le assms(3), of C] fr fr' by auto
    have tz: "?t + tones ?m = tzeros (n + 2 ^ ?t)" using tzeros_next [of ?m ?t] unfolding n' by simp
    have "append_subtrees_loop C (rev (froots_at C ls 0 n)) (word_of_nat n) (word_of_nat r) (2 ^ ?t)
        (map (\<lambda>(l, p). mhash C ls l p) (scoords n r)) =
      append_subtrees_loop C (rev (froots_at C ls 0 (n + 2 ^ ?t))) (word_of_nat (n + 2 ^ ?t))
        (word_of_nat (r - 2 ^ ?t)) (2 ^ tzeros (n + 2 ^ ?t))
        (map (\<lambda>(l, p). mhash C ls l p) (scoords (n + 2 ^ ?t) (r - 2 ^ ?t)))"
      using comb True cmp by (simp add: scoords_step [OF r] l tz flip: hs)
    moreover have "r - 2 ^ ?t < r" using r by simp
    ultimately show ?thesis
      using less.IH [of "r - 2 ^ ?t" "n + 2 ^ ?t"] less.prems True by simp
  qed
qed

lemma append_subtrees_eq:
  assumes "length ls + length xs \<le> 2 ^ 63"
  shows "append_subtrees C (inmemory_of C ls)
      (map (\<lambda>(l, p). mhash C (ls @ xs) l p) (scoords (length ls) (length xs)))
      (word_of_nat (length xs)) = Inr (inmemory_of C (ls @ xs))"
proof -
  let ?L = "ls @ xs" and ?n = "length ls" and ?r = "length xs"
  have lt: "length ?L < 2 ^ 64" using assms by simp
  have room: "(word_of_nat ?r :: u64) \<le> MAX_ACCUMULATOR_LEAVES - word_of_nat ?n"
  proof -
    have "MAX_ACCUMULATOR_LEAVES - word_of_nat ?n = (word_of_nat (2 ^ 63 - ?n) :: u64)"
      using assms by (simp add: MAX_ACCUMULATOR_LEAVES_def MAX_ACCUMULATOR_PROOF_DEPTH_def shl_one)
    then show ?thesis using assms by (simp add: word_le_nat_alt unat_of_nat_eq del: of_nat_diff)
  qed
  show ?thesis
  proof (cases "ls = []")
    case True
    then have "frozen_roots C xs = map (\<lambda>(l, p). mhash C xs l p) (scoords 0 ?r)"
      using scoords_small [of "blen ?r" 0 ?r] less_exp_blen [of ?r]
      by (simp add: frozen_roots_def fcoords_def)
    then show ?thesis
      using room True inmemory_new_eq [of xs C] lt
      by (simp add: append_subtrees_def inmemory_of_def)
  next
    case False
    then have n: "0 < ?n" by simp
    have nz: "(word_of_nat ?n :: u64) \<noteq> 0"
      using n assms by (simp add: unat_of_nat_eq flip: unat_gt_0)
    have tz: "shl 1 (trailing_zeros (word_of_nat ?n :: u64)) = (2 ^ tzeros ?n :: u64)"
      using trailing_zeros_eq [OF n] assms by (simp add: shl_one)
    have fr: "frozen_roots C ls = froots_at C ?L 0 ?n" using frozen_roots_take [of ?n ?L C] by simp
    show ?thesis
      using append_subtrees_loop_froots [OF n, of ?r ?L C] assms room nz inmemory_new_eq [OF lt, of C]
      by (auto simp: append_subtrees_def inmemory_of_def tz fr)
  qed
qed

end
