(* ===== verification/Accumulator.thy ===== *)
theory Accumulator
  imports Acc_Append InMemory
begin

text \<open>
  \<^verbatim>\<open>MerkleAccumulator\<close> (\<^verbatim>\<open>commons/accumulator/src/lib.rs\<close>) and inclusion proofs
  (\<^verbatim>\<open>proof/mod.rs\<close>). The accumulator is the tree behind its lock. Shown: both accumulators
  meet one contract, so they agree on every sequence of appends; leaves are read back;
  proofs are complete and sound; a flushed accumulator can be restored from its info.
\<close>

section \<open>Definitions\<close>

type_synonym ('h, 'c, 's) MerkleAccumulator = "('h, 'c, 's) AccumulatorTree"

definition merkle_new ::
  "('h, 'c, 's) acc_env \<Rightarrow> 'h \<Rightarrow> 'h list \<Rightarrow> LeafCount \<Rightarrow> NodeCount \<Rightarrow> 's \<Rightarrow> ('h, 'c, 's) MerkleAccumulator" where
  "merkle_new E root roots leaves nodes node_store = tree_new E roots leaves nodes root node_store"

definition new_with_info ::
  "('h, 'c, 's) acc_env \<Rightarrow> 'h AccumulatorInfo \<Rightarrow> 's \<Rightarrow> ('h, 'c, 's) MerkleAccumulator" where
  "new_with_info E acc_info node_store =
     tree_new E (info_frozen_subtree_roots acc_info) (info_num_leaves acc_info)
       (info_num_nodes acc_info) (accumulator_root acc_info) node_store"

definition merkle_new_empty :: "('h, 'c, 's) acc_env \<Rightarrow> 's \<Rightarrow> ('h, 'c, 's) MerkleAccumulator" where
  "merkle_new_empty E node_store = tree_new_empty E node_store"

definition get_info :: "('h, 'c, 's) MerkleAccumulator \<Rightarrow> 'h AccumulatorInfo" where
  "get_info T = accumulator_info_new (root_hash T) (frozen_subtree_roots T) (num_leaves T) (num_nodes T)"

definition fork :: "('h, 'c, 's) acc_env \<Rightarrow> ('h, 'c, 's) MerkleAccumulator \<Rightarrow> ('h, 'c, 's) MerkleAccumulator" where
  "fork E T = new_with_info E (get_info T) (store T)"

definition merkle_append ::
  "('h, 'c, 's) acc_env \<Rightarrow> 'h list \<Rightarrow> ('h, 'c, 's) MerkleAccumulator
   \<Rightarrow> ('h, acc_error) outcome \<times> ('h, 'c, 's) MerkleAccumulator" where
  "merkle_append E new_leaves T = sbind (tree_append E new_leaves) (\<lambda>root_hash T. (Inr root_hash, T)) T"

definition get_leaf ::
  "('h, 'c, 's) acc_env \<Rightarrow> u64 \<Rightarrow> ('h, 'c, 's) MerkleAccumulator
   \<Rightarrow> ('h option, acc_error) outcome \<times> ('h, 'c, 's) MerkleAccumulator" where
  "get_leaf E leaf_index = get_node_hash E (from_leaf_index leaf_index)"

text \<open>The leaf at an index of a range, an error when there is none.\<close>

definition leaf_or_error ::
  "('h, 'c, 's) acc_env \<Rightarrow> u64 \<Rightarrow> ('h, 'c, 's) MerkleAccumulator
   \<Rightarrow> ('h, acc_error) outcome \<times> ('h, 'c, 's) MerkleAccumulator" where
  "leaf_or_error E idx =
     sbind (get_node_hash E (from_leaf_index idx)) (\<lambda>h T. (ok_or h LeafNotFound, T))"

text \<open>Rust's \<^verbatim>\<open>a..b\<close>.\<close>

definition u64_range :: "u64 \<Rightarrow> u64 \<Rightarrow> u64 list" where
  "u64_range a b = map word_of_nat [unat a..<unat b]"

definition get_leaves ::
  "('h, 'c, 's) acc_env \<Rightarrow> u64 \<Rightarrow> bool \<Rightarrow> u64 \<Rightarrow> ('h, 'c, 's) MerkleAccumulator
   \<Rightarrow> ('h list, acc_error) outcome \<times> ('h, 'c, 's) MerkleAccumulator" where
  "get_leaves E start_index reverse max_size T =
     (if reverse then
        let fin = saturating_add start_index 1;
            fin = (if fin > num_leaves T then num_leaves T else fin);
            first = saturating_sub fin max_size
        in smap (leaf_or_error E) (rev (u64_range first fin)) T
      else
        let fin = saturating_add start_index max_size;
            fin = (if fin > num_leaves T then num_leaves T else fin)
        in smap (leaf_or_error E) (u64_range start_index fin) T)"

definition get_node_by_position ::
  "('h, 'c, 's) acc_env \<Rightarrow> u64 \<Rightarrow> ('h, 'c, 's) MerkleAccumulator
   \<Rightarrow> ('h option, acc_error) outcome \<times> ('h, 'c, 's) MerkleAccumulator" where
  "get_node_by_position E position = get_node_hash E position"

record 'h AccumulatorProof =
  siblings :: "'h list"

definition get_proof ::
  "('h, 'c, 's) acc_env \<Rightarrow> u64 \<Rightarrow> ('h, 'c, 's) MerkleAccumulator
   \<Rightarrow> ('h AccumulatorProof option, acc_error) outcome \<times> ('h, 'c, 's) MerkleAccumulator" where
  "get_proof E leaf_index =
     sbind (\<lambda>T. (ensure (leaf_index < num_leaves T) InvalidLeafIndex, T)) (\<lambda>_.
     sbind (get_siblings E leaf_index (\<lambda>_. True)) (\<lambda>siblings T.
     (Inr (Some \<lparr>siblings = siblings\<rparr>), T)))"

text \<open>The step of the fold in \<^verbatim>\<open>AccumulatorProof::verify\<close>.\<close>

definition verify_step :: "'h crypto \<Rightarrow> 'h \<Rightarrow> 'h \<times> u64 \<Rightarrow> 'h \<times> u64" where
  "verify_step C sibling_hash = (\<lambda>(hash, index).
     (if index mod 2 = 0
      then internal_hash C (internal_new C index hash sibling_hash)
      else internal_hash C (internal_new C index sibling_hash hash),
      index div 2))"

definition accumulator_proof_verify ::
  "'h crypto \<Rightarrow> 'h AccumulatorProof \<Rightarrow> 'h \<Rightarrow> 'h \<Rightarrow> u64 \<Rightarrow> (unit, acc_error) outcome" where
  "accumulator_proof_verify C proof expected_root_hash element_hash element_index =
     obind (ensure (length (siblings proof) \<le> MAX_ACCUMULATOR_PROOF_DEPTH) ProofTooLong) (\<lambda>_.
     let actual_root_hash = fst (fold (verify_step C) (siblings proof) (element_hash, element_index))
     in ensure (actual_root_hash = expected_root_hash) RootHashMismatch)"

section \<open>The contract of an accumulator\<close>

text \<open>
  \<open>inv a ls\<close>: the accumulator \<open>a\<close> holds the leaves \<open>ls\<close>; \<open>ok ls\<close>: the leaf lists it supports.
\<close>

locale accumulator_impl =
  fixes C :: "'h crypto"
    and inv :: "'a \<Rightarrow> 'h list \<Rightarrow> bool"
    and ok :: "'h list \<Rightarrow> bool"
    and root :: "'a \<Rightarrow> 'h"
    and leaves :: "'a \<Rightarrow> u64"
    and roots :: "'a \<Rightarrow> 'h list"
    and app :: "'a \<Rightarrow> 'h list \<Rightarrow> 'a option"
  assumes inv_root: "inv a ls \<Longrightarrow> root a = merkle_root C ls"
    and inv_leaves: "inv a ls \<Longrightarrow> leaves a = word_of_nat (length ls)"
    and inv_roots: "inv a ls \<Longrightarrow> roots a = frozen_roots C ls"
    and app_ok: "inv a ls \<Longrightarrow> ok (ls @ xs) \<Longrightarrow> \<exists>a'. app a xs = Some a' \<and> inv a' (ls @ xs)"

text \<open>Appending batch after batch.\<close>

fun app_all :: "('a \<Rightarrow> 'h list \<Rightarrow> 'a option) \<Rightarrow> 'a \<Rightarrow> 'h list list \<Rightarrow> 'a option" where
  "app_all f a [] = Some a"
| "app_all f a (xs # xss) = (case f a xs of None \<Rightarrow> None | Some a' \<Rightarrow> app_all f a' xss)"

context accumulator_impl
begin

lemma app_all_inv:
  "inv a ls \<Longrightarrow> (\<And>k. k \<le> length xss \<Longrightarrow> ok (ls @ concat (take k xss))) \<Longrightarrow>
   \<exists>a'. app_all app a xss = Some a' \<and> inv a' (ls @ concat xss)"
proof (induction xss arbitrary: a ls)
  case (Cons xs xss)
  have "ok (ls @ xs)" using Cons.prems(2) [of 1] by simp
  then obtain a1 where a1: "app a xs = Some a1" "inv a1 (ls @ xs)" using app_ok Cons.prems(1) by blast
  have "ok ((ls @ xs) @ concat (take k xss))" if "k \<le> length xss" for k
    using Cons.prems(2) [of "Suc k"] that by simp
  then obtain a2 where "app_all app a1 xss = Some a2" "inv a2 ((ls @ xs) @ concat xss)"
    using Cons.IH [OF a1(2)] by blast
  then show ?case using a1(1) by simp
qed simp

lemma app_all_root:
  assumes "inv a ls" and "\<And>k. k \<le> length xss \<Longrightarrow> ok (ls @ concat (take k xss))"
  shows "\<exists>a'. app_all app a xss = Some a' \<and> root a' = merkle_root C (ls @ concat xss) \<and>
    leaves a' = word_of_nat (length (ls @ concat xss)) \<and> roots a' = frozen_roots C (ls @ concat xss)"
  using app_all_inv [OF assms] inv_root inv_leaves inv_roots by blast

end

text \<open>Both accumulators implement it: the in-memory one and the one over a store.\<close>

definition inmemory_app :: "'h crypto \<Rightarrow> 'h InMemoryAccumulator \<Rightarrow> 'h list \<Rightarrow> 'h InMemoryAccumulator option" where
  "inmemory_app C acc xs = (case inmemory_append C acc xs of Inl _ \<Rightarrow> None | Inr acc' \<Rightarrow> Some acc')"

lemma inmemory_app_eq:
  "length (ls @ xs) < 2 ^ 64 \<Longrightarrow> inmemory_app C (inmemory_of C ls) xs = Some (inmemory_of C (ls @ xs))"
  by (simp add: inmemory_app_def inmemory_append_eq)

interpretation im: accumulator_impl C "\<lambda>a ls. a = inmemory_of C ls" "\<lambda>ls. length ls < 2 ^ 64"
  im_root_hash im_num_leaves im_frozen_subtree_roots "inmemory_app C" for C
  by unfold_locales (use inmemory_app_eq in auto)

definition merkle_app ::
  "('h, 'c, 's) acc_env \<Rightarrow> ('h, 'c, 's) MerkleAccumulator \<Rightarrow> 'h list \<Rightarrow> ('h, 'c, 's) MerkleAccumulator option" where
  "merkle_app E T xs = (case merkle_append E xs T of (Inl _, _) \<Rightarrow> None | (Inr _, T') \<Rightarrow> Some T')"

context accumulator_store
begin

lemma merkle_append_eq:
  assumes "env_crypto E = C" "env_store E = S" and "lru_ok (env_lru E) content"
    and "tree_inv C content nodes ls T" and "collision_free C (ls @ xs)"
    and "length (ls @ xs) \<le> 2 ^ 63"
  shows "\<exists>T'. merkle_append E xs T = (Inr (merkle_root C (ls @ xs)), T') \<and>
    tree_inv C content nodes (ls @ xs) T' \<and> store T' = store T"
  using tree_append_eq [OF assms] by (auto simp: merkle_append_def sbind_def)

end

lemma tree_inv_empty:
  assumes "lru_ok (env_lru E) content"
  shows "tree_inv (env_crypto E) content nodes [] (merkle_new_empty E st)"
proof -
  have "\<not> present 0 l p" for l p by (simp add: present_def)
  then show ?thesis
    using lru_okD(1) [OF assms]
    by (simp add: merkle_new_empty_def tree_new_empty_def tree_new_def tree_inv_def lookup_inv_def
        collision_free_def frozen_count_def frozen_roots_at froots_at_0 merkle_root_Nil)
qed

lemma tree_inv_sel:
  assumes "tree_inv C content nodes ls T"
  shows "num_leaves T = word_of_nat (length ls)" "root_hash T = merkle_root C ls"
    "frozen_subtree_roots T = frozen_roots C ls" "length ls \<le> 2 ^ 63" "collision_free C ls"
    "lookup_inv C content nodes ls T"
  using assms by (simp_all add: tree_inv_def lookup_inv_def)

text \<open>The calls an accumulator over the map-backed store makes.\<close>

definition mock_env :: "'h crypto \<Rightarrow> ('c, 'h) lru_ops \<Rightarrow> ('h, 'c, 'h mock_store) acc_env" where
  "mock_env C K = \<lparr>env_crypto = C, env_lru = K, env_store = MockAccumulatorStore C\<rparr>"

lemma mock_env_sel [simp]:
  "env_crypto (mock_env C K) = C" "env_lru (mock_env C K) = K"
  "env_store (mock_env C K) = MockAccumulatorStore C"
  by (simp_all add: mock_env_def)

lemma merkle_app_mock:
  assumes "lru_ok K content" and "tree_inv C content (\<lambda>s. s) ls T"
    and "collision_free C (ls @ xs)" and "length (ls @ xs) \<le> 2 ^ 63"
  shows "\<exists>T'. merkle_app (mock_env C K) T xs = Some T' \<and> tree_inv C content (\<lambda>s. s) (ls @ xs) T'"
  using mock.merkle_append_eq [of "mock_env C K" C content ls T xs] assms
  by (auto simp: merkle_app_def)

interpretation ma: accumulator_impl C "\<lambda>T ls. lru_ok K content \<and> tree_inv C content (\<lambda>s. s) ls T"
  "\<lambda>ls. collision_free C ls \<and> length ls \<le> 2 ^ 63" root_hash num_leaves frozen_subtree_roots
  "merkle_app (mock_env C K)" for C K content
  by unfold_locales (use merkle_app_mock in \<open>auto simp: tree_inv_sel\<close>)

section \<open>Inclusion proofs\<close>

text \<open>The siblings of the node \<open>(k, p)\<close> and of its ancestors over \<open>j\<close> levels.\<close>

fun sibling_hashes :: "'h crypto \<Rightarrow> 'h list \<Rightarrow> nat \<Rightarrow> nat \<Rightarrow> nat \<Rightarrow> 'h list" where
  "sibling_hashes C ls 0 k p = []"
| "sibling_hashes C ls (Suc j) k p =
     mhash C ls k (if even p then p + 1 else p - 1) # sibling_hashes C ls j (Suc k) (p div 2)"

text \<open>The pairs that folding a proof hashes.\<close>

fun proof_pairs :: "'h crypto \<Rightarrow> 'h \<Rightarrow> nat \<Rightarrow> 'h list \<Rightarrow> ('h \<times> 'h) list" where
  "proof_pairs C h p [] = []"
| "proof_pairs C h p (s # ss) =
     (let (x, y) = (if even p then (h, s) else (s, h))
      in (x, y) # proof_pairs C (hash_children C x y) (p div 2) ss)"

text \<open>The pairs that the tree over \<open>ls\<close> hashes.\<close>

definition tree_pairs :: "'h crypto \<Rightarrow> 'h list \<Rightarrow> ('h \<times> 'h) set" where
  "tree_pairs C ls = {(mhash C ls l (2 * p), mhash C ls l (2 * p + 1)) |l p.
     l < rlevel (length ls) \<and> p * 2 ^ Suc l < length ls}"

lemma word_mod_2: "(word_of_nat p :: u64) mod 2 = 0 \<longleftrightarrow> even p"
proof -
  have "(word_of_nat p :: u64) mod 2 = 0 \<longleftrightarrow> \<not> bit (word_of_nat p :: u64) 0"
    by (simp add: even_iff_mod_2_eq_zero bit_0)
  then show ?thesis by (simp add: bit_simps) (simp add: bit_0)
qed

lemma word_div_2: "p < 2 ^ 64 \<Longrightarrow> (word_of_nat p :: u64) div 2 = word_of_nat (p div 2)"
  using shr_word_of_nat [of p] by (simp add: shr_less drop_bit_eq_div)

lemma verify_step_eq:
  "p < 2 ^ 64 \<Longrightarrow> verify_step C s (h, word_of_nat p) =
    (if even p then hash_children C h s else hash_children C s h, word_of_nat (p div 2))"
  by (simp add: verify_step_def word_mod_2 word_div_2)

lemma div2_exp_less: "p * 2 ^ k < n \<Longrightarrow> p div 2 * 2 ^ Suc k < (n::nat)"
proof -
  assume a: "p * 2 ^ k < n"
  have "p div 2 * 2 ^ Suc k = (2 * (p div 2)) * 2 ^ k" by simp
  also have "\<dots> \<le> p * 2 ^ k" by (intro mult_le_mono1) simp
  finally show ?thesis using a by (rule le_less_trans)
qed

lemma mhash_parent:
  assumes "p * 2 ^ k < length ls"
  shows "(if even p then hash_children C (mhash C ls k p) (mhash C ls k (p + 1))
    else hash_children C (mhash C ls k (p - 1)) (mhash C ls k p)) = mhash C ls (Suc k) (p div 2)"
proof -
  have lt: "p div 2 * 2 ^ Suc k < length ls" by (rule div2_exp_less [OF assms])
  note h = hash_children_mhash [OF lt, of C]
  show ?thesis
  proof (cases "even p")
    case True
    then have "2 * (p div 2) = p" by simp
    then show ?thesis using h True by (simp del: mhash.simps)
  next
    case False
    then have "2 * (p div 2) = p - 1" "Suc (2 * (p div 2)) = p" by simp_all
    then show ?thesis using h False by (simp del: mhash.simps)
  qed
qed

lemma fold_sibling_hashes:
  "p * 2 ^ k < length ls \<Longrightarrow> p < 2 ^ 64 \<Longrightarrow>
   fold (verify_step C) (sibling_hashes C ls j k p) (mhash C ls k p, word_of_nat p) =
     (mhash C ls (k + j) (p div 2 ^ j), word_of_nat (p div 2 ^ j))"
proof (induction j arbitrary: k p)
  case (Suc j)
  have "fold (verify_step C) (sibling_hashes C ls (Suc j) k p) (mhash C ls k p, word_of_nat p) =
      fold (verify_step C) (sibling_hashes C ls j (Suc k) (p div 2)) (mhash C ls (Suc k) (p div 2), word_of_nat (p div 2))"
    using mhash_parent [OF Suc.prems(1), of C] Suc.prems(2)
    by (auto simp: verify_step_eq simp del: mhash.simps split: if_splits)
  then show ?case
    using Suc.IH [of "p div 2" "Suc k"] div2_exp_less [OF Suc.prems(1)] Suc.prems(2)
    by (simp add: div_mult2_eq del: mhash.simps)
qed simp

text \<open>A fold that ends in a hash of the tree started from one, unless two hashed pairs collide.\<close>

lemma fold_verify_sound:
  assumes "inj_on (\<lambda>(x, y). hash_children C x y) (tree_pairs C ls \<union> set (proof_pairs C h p ss))"
    and "p * 2 ^ k < length ls" and "p < 2 ^ 64" and "k + length ss \<le> rlevel (length ls)"
    and "fst (fold (verify_step C) ss (h, word_of_nat p)) = mhash C ls (k + length ss) (p div 2 ^ length ss)"
  shows "h = mhash C ls k p \<and> ss = sibling_hashes C ls (length ss) k p"
  using assms
proof (induction ss arbitrary: h k p)
  case (Cons s ss)
  let ?xy = "if even p then (h, s) else (s, h)"
  let ?h = "hash_children C (fst ?xy) (snd ?xy)"
  let ?t = "(mhash C ls k (2 * (p div 2)), mhash C ls k (2 * (p div 2) + 1))"
  have pp: "proof_pairs C h p (s # ss) = ?xy # proof_pairs C ?h (p div 2) ss" by simp
  have lt: "p div 2 * 2 ^ Suc k < length ls" by (rule div2_exp_less [OF Cons.prems(2)])
  have "inj_on (\<lambda>(x, y). hash_children C x y) (tree_pairs C ls \<union> set (proof_pairs C ?h (p div 2) ss))"
    using Cons.prems(1) by (rule inj_on_subset) (auto simp: pp)
  moreover have "fst (fold (verify_step C) ss (?h, word_of_nat (p div 2))) =
      mhash C ls (Suc k + length ss) (p div 2 div 2 ^ length ss)"
    using Cons.prems(3,5) by (auto simp: verify_step_eq div_mult2_eq simp del: mhash.simps split: if_splits)
  moreover have "p div 2 < 2 ^ 64" "Suc k + length ss \<le> rlevel (length ls)" using Cons.prems(3,4) by simp_all
  ultimately have IH: "?h = mhash C ls (Suc k) (p div 2)" "ss = sibling_hashes C ls (length ss) (Suc k) (p div 2)"
    using Cons.IH lt by blast+
  have "k < rlevel (length ls)" using Cons.prems(4) by simp
  then have "?t \<in> tree_pairs C ls" using lt unfolding tree_pairs_def by blast
  moreover have "(\<lambda>(x, y). hash_children C x y) ?xy = (\<lambda>(x, y). hash_children C x y) ?t"
    using IH(1) hash_children_mhash [OF lt, of C] by (simp add: split_beta del: mhash.simps)
  ultimately have "?xy = ?t" using inj_onD [OF Cons.prems(1), of ?xy ?t] pp by simp
  then show ?case using IH(2) by (cases "even p") (auto elim!: oddE simp del: mhash.simps)
qed simp

section \<open>Reading leaves and proofs\<close>

context accumulator_store
begin

lemma sibling_walk_eq:
  assumes E: "env_crypto E = C" "env_store E = S" and lru: "lru_ok (env_lru E) content"
    and free: "collision_free C ls" and len: "length ls \<le> 2 ^ 63"
  shows "lookup_inv C content nodes ls T \<Longrightarrow> present (length ls) k p \<Longrightarrow> k + j = rlevel (length ls) \<Longrightarrow>
    \<exists>T'. smap (get_node_hash_always E) (ancestor_sibling_take j \<lparr>node_index = NI k p\<rparr>) T =
      (Inr (sibling_hashes C ls j k p), T') \<and> cache_eq content T T'"
proof (induction j arbitrary: k p T)
  case (Suc j)
  let ?p = "if even p then p + 1 else p - 1"
  have k: "k < 63" using Suc.prems(3) rlevel_63 [OF len] by simp
  have up: "present (length ls) (Suc k) (p div 2)"
    using present_ancestor [OF Suc.prems(2), of "Suc k"] Suc.prems(3) by simp
  have "?p div 2 = p div 2" by (cases "even p") (auto elim!: oddE)
  then have "reachable_node (length ls) k ?p"
    using up Suc.prems(3) by (auto simp: reachable_node_def)
  then obtain T1 where T1: "get_node_hash_always E (NI k ?p) T = (Inr (mhash C ls k ?p), T1)" "cache_eq content T T1"
    using get_node_hash_always_eq [OF E lru Suc.prems(1) free len] by blast
  obtain T2 where T2: "smap (get_node_hash_always E) (ancestor_sibling_take j \<lparr>node_index = NI (Suc k) (p div 2)\<rparr>) T1 =
      (Inr (sibling_hashes C ls j (Suc k) (p div 2)), T2)" "cache_eq content T1 T2"
    using Suc.IH [OF lookup_inv_cache_eq [OF T1(2) Suc.prems(1)] up] Suc.prems(3) by auto
  have "smap (get_node_hash_always E) (ancestor_sibling_take (Suc j) \<lparr>node_index = NI k p\<rparr>) T =
      (Inr (sibling_hashes C ls (Suc j) k p), T2)"
    using T1(1) T2(1)
    by (simp add: ancestor_sibling_next_def sibling_NI [OF k] parent_NI [OF k] sbind_def del: mhash.simps)
  then show ?case using cache_eq_trans [OF T1(2) T2(2)] by blast
qed auto

lemma get_proof_eq:
  assumes E: "env_crypto E = C" "env_store E = S" and lru: "lru_ok (env_lru E) content"
    and inv: "tree_inv C content nodes ls T" and i: "i < length ls"
  shows "\<exists>T'. get_proof E (word_of_nat i) T =
      (Inr (Some \<lparr>siblings = sibling_hashes C ls (rlevel (length ls)) 0 i\<rparr>), T') \<and> cache_eq content T T'"
proof -
  let ?R = "rlevel (length ls)"
  note s = tree_inv_sel [OF inv]
  have "(word_of_nat i :: u64) < word_of_nat (length ls)"
    using i s(4) by (simp add: word_less_nat_alt unat_of_nat_eq)
  then have "word_of_nat i < num_leaves T" by (simp add: s(1))
  moreover have "root_from_leaf_count (num_leaves T) = (Inr (NI ?R 0) :: (NodeIndex, acc_error) outcome)"
    unfolding s(1) using i s(4) by (intro root_from_leaf_count_NI) auto
  moreover have "level (NI ?R 0) = ?R" using rlevel_63 [OF s(4)] by (intro level_NI) simp
  moreover have "present (length ls) 0 i" using i by (simp add: present_def)
  ultimately show ?thesis
    using sibling_walk_eq [OF E lru s(5,4,6), of 0 i ?R]
    by (auto simp: get_proof_def get_siblings_def iter_ancestor_sibling_def from_leaf_index_NI sbind_def)
qed

lemma get_leaf_eq:
  assumes E: "env_crypto E = C" "env_store E = S" and lru: "lru_ok (env_lru E) content"
    and inv: "tree_inv C content nodes ls T" and i: "i < 2 ^ 63" and n: "ls \<noteq> []"
  shows "\<exists>T'. get_leaf E (word_of_nat i) T =
      (Inr (if i < length ls then Some (ls ! i) else None), T') \<and> cache_eq content T T'"
  using get_node_hash_eq [OF E lru tree_inv_sel(6) [OF inv] tree_inv_sel(5) [OF inv] tree_inv_sel(4) [OF inv]
      valid_leaf [OF i] _ n]
  by (auto simp: get_leaf_def from_leaf_index_NI)

lemma leaf_or_error_eq:
  assumes E: "env_crypto E = C" "env_store E = S" and lru: "lru_ok (env_lru E) content"
    and inv: "tree_inv C content nodes ls T" and i: "i < length ls"
  shows "\<exists>T'. leaf_or_error E (word_of_nat i) T = (Inr (ls ! i), T') \<and> cache_eq content T T'"
proof -
  have "i < 2 ^ 63" "ls \<noteq> []" using i tree_inv_sel(4) [OF inv] by auto
  then show ?thesis
    using get_leaf_eq [OF E lru inv, of i] i by (auto simp: leaf_or_error_def get_leaf_def sbind_def)
qed

lemma leaf_range_eq:
  assumes E: "env_crypto E = C" "env_store E = S" and lru: "lru_ok (env_lru E) content"
    and inv: "tree_inv C content nodes ls T" and idxs: "set idxs \<subseteq> {..<length ls}"
  shows "\<exists>T'. smap (leaf_or_error E) (map word_of_nat idxs) T = (Inr (map (nth ls) idxs), T') \<and> cache_eq content T T'"
  unfolding smap_map
proof (rule smap_ok)
  fix i T1
  assume "i \<in> set idxs" and T1: "cache_eq content T T1"
  then have "i < length ls" using idxs by auto
  then show "\<exists>T2. leaf_or_error E (word_of_nat i) T1 = (Inr (ls ! i), T2) \<and> cache_eq content T T2"
    using leaf_or_error_eq [OF E lru tree_inv_cache_eq [OF T1 inv]] T1 by (blast intro: cache_eq_trans)
qed auto

lemma get_leaves_eq:
  assumes E: "env_crypto E = C" "env_store E = S" and lru: "lru_ok (env_lru E) content"
    and inv: "tree_inv C content nodes ls T" and s: "s < 2 ^ 64" and m: "m < 2 ^ 64"
  shows "\<exists>T'. get_leaves E (word_of_nat s) reverse (word_of_nat m) T =
      (Inr (if reverse then take m (rev (take (s + 1) ls)) else take m (drop s ls)), T') \<and> cache_eq content T T'"
proof -
  let ?n = "length ls"
  note sel = tree_inv_sel [OF inv]
  have n: "unat (num_leaves T) = ?n" unfolding sel(1) using sel(4) by (simp add: unat_of_nat_eq)
  have um: "unat (word_of_nat m :: u64) = m" and us: "unat (word_of_nat s :: u64) = s"
    using s m by (simp_all add: unat_of_nat_eq)
  have fin: "unat (if x > num_leaves T then num_leaves T else x) = min (unat x) ?n" for x
    by (simp add: word_less_nat_alt n min_def)
  show ?thesis
  proof (cases reverse)
    case True
    let ?fin = "min (s + 1) ?n"
    define e where "e = (let e = saturating_add (word_of_nat s :: u64) 1 in if e > num_leaves T then num_leaves T else e)"
    have e: "unat e = ?fin" "unat (saturating_sub e (word_of_nat m)) = ?fin - m"
      using sel(4) s by (simp_all add: e_def Let_def fin unat_saturating_sub unat_saturating_add us um)
    have "map (nth ls) (rev [?fin - m..<?fin]) = rev (map (nth ls) [?fin - m..<?fin])" by (simp add: rev_map)
    also have "map (nth ls) [?fin - m..<?fin] = drop (?fin - m) (take ?fin ls)"
      by (rule map_nth_upt) simp
    also have "rev (drop (?fin - m) (take ?fin ls)) = take m (rev (take ?fin ls))"
      by (simp add: take_rev)
    also have "take ?fin ls = take (s + 1) ls" by (cases "s + 1 \<le> ?n") (auto simp: min_def)
    finally have res: "map (nth ls) (rev [?fin - m..<?fin]) = take m (rev (take (s + 1) ls))" .
    have "rev (u64_range (saturating_sub e (word_of_nat m)) e) = map word_of_nat (rev [?fin - m..<?fin])"
      by (simp add: u64_range_def e rev_map)
    moreover have "set (rev [?fin - m..<?fin]) \<subseteq> {..<?n}" by auto
    ultimately show ?thesis
      using leaf_range_eq [OF E lru inv, of "rev [?fin - m..<?fin]"] True res
      by (auto simp: get_leaves_def e_def Let_def)
  next
    case False
    let ?fin = "min (s + m) ?n"
    define e where "e = (let e = saturating_add (word_of_nat s :: u64) (word_of_nat m) in if e > num_leaves T then num_leaves T else e)"
    have e: "unat e = ?fin"
      using sel(4) by (simp add: e_def Let_def fin unat_saturating_add us um)
    have "map (nth ls) [s..<?fin] = drop s (take ?fin ls)" by (rule map_nth_upt) simp
    also have "\<dots> = take m (drop s ls)" by (simp add: min_def drop_take)
    finally have res: "map (nth ls) [s..<?fin] = take m (drop s ls)" .
    have "u64_range (word_of_nat s) e = map word_of_nat [s..<?fin]" by (simp add: u64_range_def e us)
    moreover have "set [s..<?fin] \<subseteq> {..<?n}" by auto
    ultimately show ?thesis
      using leaf_range_eq [OF E lru inv, of "[s..<?fin]"] False res
      by (auto simp: get_leaves_def e_def Let_def)
  qed
qed

lemma fork_eq:
  assumes lru: "lru_ok (env_lru E) content" and inv: "tree_inv C content nodes ls T"
    and flushed: "update_nodes T = []"
  shows "tree_inv C content nodes ls (fork E T)"
  using inv lru_okD(1) [OF lru] flushed
  by (simp add: fork_def new_with_info_def get_info_def accumulator_info_new_def tree_new_def tree_inv_def
      lookup_inv_def tree_nodes_def)

end

end
