(* ===== verification/Accumulator_Theorems.thy ===== *)
theory Accumulator_Theorems
  imports Accumulator
begin

text \<open>
  The properties of the accumulator crate, with concrete instances of the parameters: an
  injective hash over byte lists and a small least-recently-used cache.
\<close>

section \<open>Concrete parameters\<close>

text \<open>A hash that keeps its input, so that short leaves give distinct hashes.\<close>

definition sample_crypto :: "u8 list crypto" where
  "sample_crypto = \<lparr>sha3_256_of = (\<lambda>b. 1 # b), to_vec = (\<lambda>h. h), from_slice = (\<lambda>b. Some [])\<rparr>"

text \<open>A cache of bounded capacity: the most recently used entry first, the last one evicted.\<close>

definition list_lru :: "(u64 \<times> (NodeIndex \<times> 'v) list, 'v) lru_ops" where
  "list_lru =
     \<lparr>lru_new = (\<lambda>n. (n, [])),
      lru_get = (\<lambda>(n, al) k. case map_of al k of
          None \<Rightarrow> (None, (n, al))
        | Some v \<Rightarrow> (Some v, (n, (k, v) # filter (\<lambda>(k', _). k' \<noteq> k) al))),
      lru_put = (\<lambda>(n, al) k v.
        let al = (k, v) # filter (\<lambda>(k', _). k' \<noteq> k) al
        in (n, if n < word_of_nat (length al) then butlast al else al))\<rparr>"

definition list_content :: "u64 \<times> (NodeIndex \<times> 'v) list \<Rightarrow> NodeIndex \<rightharpoonup> 'v" where
  "list_content c = map_of (snd c)"

lemma map_of_filter_neq: "map_of (filter (\<lambda>(k', _). k' \<noteq> k) al) = (map_of al)(k := None)"
  by (induction al) auto

lemma map_of_butlast: "map_of (butlast al) \<subseteq>\<^sub>m map_of al"
proof (cases "al = []")
  case False
  then have "map_of al = map_of [last al] ++ map_of (butlast al)"
    by (metis append_butlast_last_id map_of_append)
  then show ?thesis by simp
qed simp

lemma list_lru_ok: "lru_ok list_lru list_content"
  unfolding lru_ok_def
proof (intro conjI allI)
  fix c :: "u64 \<times> (NodeIndex \<times> 'v) list" and k v
  obtain n al where c: "c = (n, al)" by (cases c)
  show "list_content (lru_put list_lru c k v) \<subseteq>\<^sub>m (list_content c)(k \<mapsto> v)"
    using map_of_butlast [of "(k, v) # filter (\<lambda>(k', _). k' \<noteq> k) al"]
    by (auto simp: c list_lru_def list_content_def map_of_filter_neq Let_def simp del: butlast.simps)
  show "fst (lru_get list_lru c k) = list_content c k"
    by (simp add: c list_lru_def list_content_def split: option.split)
  show "list_content (snd (lru_get list_lru c k)) = list_content c"
    by (auto simp: c list_lru_def list_content_def map_of_filter_neq split: option.split)
qed (simp add: list_lru_def list_content_def)

text \<open>Hash collisions among finitely many nodes can be checked by evaluation.\<close>

definition acc_nodes :: "'h crypto \<Rightarrow> 'h list \<Rightarrow> 'h AccumulatorNode list" where
  "acc_nodes C ls = concat (map (\<lambda>l. map (acc_node C ls l)
     (filter (\<lambda>p. p * 2 ^ l < length ls) [0..<length ls])) [0..<Suc (rlevel (length ls))])"

lemma collision_free_check:
  assumes "distinct (map (node_hash C) (Empty # acc_nodes C ls))"
  shows "collision_free C ls"
proof -
  have "acc_node C ls l p \<in> set (acc_nodes C ls)" if "present (length ls) l p" for l p
  proof -
    have "p * 1 \<le> p * 2 ^ l" by (intro mult_le_mono2) simp
    then have "p < length ls" using that unfolding present_def by linarith
    then have "acc_node C ls l p \<in> set (map (acc_node C ls l) (filter (\<lambda>p. p * 2 ^ l < length ls) [0..<length ls]))"
      using that by (simp add: present_def del: acc_node.simps)
    moreover have "l \<in> set [0..<Suc (rlevel (length ls))]" using that by (simp add: present_def del: upt_Suc)
    ultimately show ?thesis unfolding acc_nodes_def by (auto simp del: acc_node.simps upt_Suc)
  qed
  then have "insert Empty {acc_node C ls l p |l p. present (length ls) l p} \<subseteq> set (Empty # acc_nodes C ls)"
    by auto
  moreover have "inj_on (node_hash C) (set (Empty # acc_nodes C ls))"
    using assms by (simp only: distinct_map)
  ultimately show ?thesis unfolding collision_free_def by (rule inj_on_subset [rotated])
qed

lemma sample_collision_free:
  "collision_free sample_crypto []" "collision_free sample_crypto [[2]]"
  "collision_free sample_crypto [[2], [3], [4]]"
  by (rule collision_free_check, code_simp)+

section \<open>Appending\<close>

text \<open>
  C1: An accumulator over a store and an in-memory accumulator that start empty and get the
  same batches of leaves both succeed, and they agree on the root hash, the number of
  leaves and the frozen subtree roots; the root is that of the reference tree over all
  leaves, so it does not depend on how the leaves were split into batches. This is for at
  most \<open>2 ^ 63\<close> leaves and as long as the tree after each batch is \<open>collision_free\<close>: no leaf
  is repeated, none is the placeholder hash, and no two nodes have the same hash.
\<close>

theorem accumulators_agree:
  assumes "lru_ok K content" and "\<And>k. k \<le> length xss \<Longrightarrow> collision_free C (concat (take k xss))"
    and "length (concat xss) \<le> 2 ^ 63"
  shows "\<exists>T a0 a. app_all (merkle_app (mock_env C K)) (merkle_new_empty (mock_env C K) Map.empty) xss = Some T \<and>
    inmemory_default C = Inr a0 \<and> app_all (inmemory_app C) a0 xss = Some a \<and>
    root_hash T = im_root_hash a \<and> num_leaves T = im_num_leaves a \<and>
    frozen_subtree_roots T = im_frozen_subtree_roots a \<and> root_hash T = merkle_root C (concat xss)"
proof -
  have len: "length (concat (take k xss)) \<le> 2 ^ 63" for k
    using assms(3) append_take_drop_id [of k xss] by (metis concat_append length_append le_add1 le_trans)
  have len': "length (concat (take k xss)) < 2 ^ 64" for k using len [of k] by simp
  have "tree_inv C content (\<lambda>s. s) [] (merkle_new_empty (mock_env C K) Map.empty)"
    using tree_inv_empty [of "mock_env C K" content] assms(1) by simp
  then obtain T where "app_all (merkle_app (mock_env C K)) (merkle_new_empty (mock_env C K) Map.empty) xss = Some T"
    "root_hash T = merkle_root C (concat xss)" "num_leaves T = word_of_nat (length (concat xss))"
    "frozen_subtree_roots T = frozen_roots C (concat xss)"
    using ma.app_all_root [of K content C "[]" "merkle_new_empty (mock_env C K) Map.empty" xss] assms(1,2) len
    by auto
  moreover obtain a where "app_all (inmemory_app C) (inmemory_of C []) xss = Some a"
    "im_root_hash a = merkle_root C (concat xss)" "im_num_leaves a = word_of_nat (length (concat xss))"
    "im_frozen_subtree_roots a = frozen_roots C (concat xss)"
    using im.app_all_root [of "inmemory_of C []" C "[]" xss] len' by auto
  ultimately show ?thesis by (simp add: inmemory_default_eq)
qed

theorem accumulators_agree_witness:
  "\<exists>T a0 a. app_all (merkle_app (mock_env sample_crypto list_lru))
      (merkle_new_empty (mock_env sample_crypto list_lru) Map.empty) [[[2]], [[3], [4]]] = Some T \<and>
    inmemory_default sample_crypto = Inr a0 \<and> app_all (inmemory_app sample_crypto) a0 [[[2]], [[3], [4]]] = Some a \<and>
    root_hash T = im_root_hash a \<and> num_leaves T = im_num_leaves a \<and>
    frozen_subtree_roots T = im_frozen_subtree_roots a \<and>
    root_hash T = merkle_root sample_crypto (concat [[[2]], [[3], [4]]])"
proof (rule accumulators_agree [OF list_lru_ok])
  fix k :: nat
  assume "k \<le> length [[[2 :: u8]], [[3], [4]]]"
  then have "k = 0 \<or> k = 1 \<or> k = 2" by auto
  then show "collision_free sample_crypto (concat (take k [[[2]], [[3], [4]]]))"
    using sample_collision_free by auto
qed simp

text \<open>
  C4: One append on an accumulator whose pending nodes, cache and store hold the tree over
  \<open>ls\<close>: it returns the root of the tree over \<open>ls @ xs\<close> and leaves pending nodes, cache, node
  count and frozen roots of that tree, without touching the store. The trees over \<open>ls\<close>, by
  \<open>tree_inv\<close>, and over \<open>ls @ xs\<close> are \<open>collision_free\<close> with at most \<open>2 ^ 63\<close> leaves: no
  leaf is repeated, none is the placeholder hash, and no two nodes have the same hash.
\<close>

theorem merkle_append_refines:
  assumes "lru_ok K content" and "tree_inv C content (\<lambda>s. s) ls T"
    and "collision_free C (ls @ xs)" and "length (ls @ xs) \<le> 2 ^ 63"
  shows "\<exists>T'. merkle_append (mock_env C K) xs T = (Inr (merkle_root C (ls @ xs)), T') \<and>
    tree_inv C content (\<lambda>s. s) (ls @ xs) T' \<and> store T' = store T"
  using mock.merkle_append_eq [of "mock_env C K" C content ls T xs] assms by simp

definition sample_tree :: "(u8 list, u64 \<times> (NodeIndex \<times> u8 list) list, u8 list mock_store) MerkleAccumulator" where
  "sample_tree = merkle_new_empty (mock_env sample_crypto list_lru) Map.empty"

lemma sample_tree_inv: "tree_inv sample_crypto list_content (\<lambda>s. s) [] sample_tree"
  unfolding sample_tree_def
  using tree_inv_empty [of "mock_env sample_crypto list_lru" list_content] list_lru_ok by simp

definition sample_tree3 :: "(u8 list, u64 \<times> (NodeIndex \<times> u8 list) list, u8 list mock_store) MerkleAccumulator" where
  "sample_tree3 = snd (merkle_append (mock_env sample_crypto list_lru) [[2], [3], [4]] sample_tree)"

lemma sample_tree3_inv: "tree_inv sample_crypto list_content (\<lambda>s. s) [[2], [3], [4]] sample_tree3"
  using mock.merkle_append_eq [of "mock_env sample_crypto list_lru" sample_crypto list_content "[]" sample_tree
      "[[2], [3], [4]]"] sample_tree_inv sample_collision_free
    list_lru_ok [where 'a = "u8 list"]
  by (auto simp: sample_tree3_def)

theorem merkle_append_refines_witness:
  "\<exists>T'. merkle_append (mock_env sample_crypto list_lru) [[2], [3], [4]] sample_tree =
      (Inr (merkle_root sample_crypto [[2], [3], [4]]), T') \<and>
    tree_inv sample_crypto list_content (\<lambda>s. s) [[2], [3], [4]] T' \<and> store T' = store sample_tree"
  using merkle_append_refines [OF list_lru_ok sample_tree_inv, of "[[2], [3], [4]]"] sample_collision_free
  by simp

text \<open>
  C18: After a flush no node is pending and the store holds every node of the tree, so an
  accumulator restored by \<^verbatim>\<open>fork\<close> from the info and the store, with an empty cache, is again
  an accumulator over the same leaves. As everywhere \<open>tree_inv\<close> asks that the leaves are
  distinct and none is the placeholder hash, that no two nodes have the same hash, and that
  there are at most \<open>2 ^ 63\<close> leaves.
\<close>

theorem flush_fork_restores:
  assumes "lru_ok K content" and "tree_inv C content (\<lambda>s. s) ls T"
  shows "\<exists>T'. flush (mock_env C K) T = (Inr (), T') \<and> update_nodes T' = [] \<and>
    (\<forall>l p. present (length ls) l p \<longrightarrow> store T' (mhash C ls l p) = Some (acc_node C ls l p)) \<and>
    tree_inv C content (\<lambda>s. s) ls (fork (mock_env C K) T')"
proof -
  obtain T' where T': "flush (mock_env C K) T = (Inr (), T')" "tree_inv C content (\<lambda>s. s) ls T'"
    "update_nodes T' = []" "store T' = tree_nodes (\<lambda>s. s) T"
    using mock.flush_eq [of "mock_env C K" C content ls T] assms(2) by auto
  have "tree_inv C content (\<lambda>s. s) ls (fork (mock_env C K) T')"
    using mock.fork_eq [of "mock_env C K" content C ls T'] T'(2,3) assms(1) by simp
  moreover have "present (length ls) l p \<Longrightarrow> store T' (mhash C ls l p) = Some (acc_node C ls l p)" for l p
    using tree_inv_sel(6) [OF assms(2)] by (simp add: T'(4) lookup_inv_def)
  ultimately show ?thesis using T' by blast
qed

theorem flush_fork_restores_witness:
  "\<exists>T'. flush (mock_env sample_crypto list_lru) sample_tree3 = (Inr (), T') \<and> update_nodes T' = [] \<and>
    (\<forall>l p. present (length [[2 :: u8], [3], [4]]) l p \<longrightarrow>
      store T' (mhash sample_crypto [[2], [3], [4]] l p) = Some (acc_node sample_crypto [[2], [3], [4]] l p)) \<and>
    tree_inv sample_crypto list_content (\<lambda>s. s) [[2], [3], [4]] (fork (mock_env sample_crypto list_lru) T')"
  by (rule flush_fork_restores [OF list_lru_ok sample_tree3_inv])

text \<open>
  C19: A flush shows nothing, whether it succeeds, fails or fails half-way. Over a store that after
  a failed save has each hash as it was or one of the saved nodes under it, the
  accumulator after a flush is one over the same leaves, with the same root, counts, frozen
  roots and cache. If the flush failed all its nodes are still pending, and if it
  succeeded, after whatever failed before, none is and the store holds every node of the
  tree. By \<open>tree_inv\<close> the leaves are distinct and none is the placeholder hash, no two nodes
  have the same hash, and there are at most \<open>2 ^ 63\<close> leaves.
\<close>

theorem flush_outcome:
  assumes "accumulator_saves C S nodes" and "env_crypto E = C" and "env_store E = S"
    and "tree_inv C content nodes ls T" and "flush E T = (r, T')"
  shows "tree_inv C content nodes ls T' \<and> T' = T\<lparr>store := store T', update_nodes := update_nodes T'\<rparr> \<and>
    (if r = Inr () then update_nodes T' = [] \<and>
       (\<forall>l p. present (length ls) l p \<longrightarrow> nodes (store T') (mhash C ls l p) = Some (acc_node C ls l p))
     else update_nodes T' = update_nodes T)"
proof -
  have f: "tree_inv C content nodes ls T'" "r = Inr () \<longrightarrow> update_nodes T' = [] \<and> nodes (store T') = tree_nodes nodes T"
    "r \<noteq> Inr () \<longrightarrow> T' = T\<lparr>store := store T'\<rparr>"
    using accumulator_saves.flush_any [OF assms] by blast+
  have "T' = T\<lparr>store := store T', update_nodes := update_nodes T'\<rparr>"
    using assms(5) by (auto simp: flush_def split: if_splits prod.splits sum.splits)
  moreover have "update_nodes T' = update_nodes T" if "r \<noteq> Inr ()"
    by (subst f(3) [rule_format, OF that]) simp
  moreover have "nodes (store T') (mhash C ls l p) = Some (acc_node C ls l p)" if "r = Inr ()" "present (length ls) l p" for l p
    using f(2) that tree_inv_sel(6) [OF assms(4)] by (simp add: lookup_inv_def)
  ultimately show ?thesis using f(1,2) by auto
qed

text \<open>A store that saves the first of the nodes it is given and fails if there are more.\<close>

definition faulty_store :: "'h crypto \<Rightarrow> ('h mock_store, 'h) AccumulatorTreeStore" where
  "faulty_store C = (MockAccumulatorStore C)\<lparr>store_save_nodes := (\<lambda>s ns.
     (fst (mock_save_nodes C s (take 1 ns)), if length ns \<le> 1 then Inr () else Inl (Err StoreMissing)))\<rparr>"

interpretation faulty_saves: accumulator_saves C "faulty_store C" "\<lambda>s. s" for C
proof unfold_locales
  fix s s' :: "'a mock_store" and ns and e :: "acc_error fault" and h
  show "s' = fold (\<lambda>n m. m(node_hash C n \<mapsto> n)) ns s" if "store_save_nodes (faulty_store C) s ns = (s', Inr ())"
    using that by (auto simp: faulty_store_def mock_save_nodes_def split: if_splits)
  show "s' h = s h \<or> (\<exists>n \<in> set ns. node_hash C n = h \<and> s' h = Some n)"
    if "store_save_nodes (faulty_store C) s ns = (s', Inl e)"
    using that by (cases ns) (auto simp: faulty_store_def mock_save_nodes_def split: if_splits)
qed (simp add: faulty_store_def MockAccumulatorStore_def mock_get_node_def)

theorem flush_outcome_witness:
  "\<exists>T' e. flush (mock_env sample_crypto list_lru\<lparr>env_store := faulty_store sample_crypto\<rparr>) sample_tree3 = (Inl e, T') \<and>
    tree_inv sample_crypto list_content (\<lambda>s. s) [[2], [3], [4]] T' \<and> update_nodes T' = update_nodes sample_tree3"
proof -
  let ?E = "mock_env sample_crypto list_lru\<lparr>env_store := faulty_store sample_crypto\<rparr>"
  have "length (update_nodes sample_tree3) > 1" unfolding sample_tree3_def sample_tree_def by code_simp
  then obtain T' e where T': "flush ?E sample_tree3 = (Inl e, T')"
    by (cases "update_nodes sample_tree3 = []") (auto simp: flush_def faulty_store_def)
  have "env_crypto ?E = sample_crypto" "env_store ?E = faulty_store sample_crypto" by simp_all
  from flush_outcome [OF faulty_saves.accumulator_saves_axioms this sample_tree3_inv T'] show ?thesis
    using T' by auto
qed

section \<open>Inclusion proofs\<close>

text \<open>
  C8: Proofs are complete: for every leaf index of an accumulator over \<open>ls\<close>, \<^verbatim>\<open>get_proof\<close>
  succeeds, whatever the cache holds, and the proof it returns verifies the leaf at that
  index against the accumulator's root. By \<open>tree_inv\<close> the leaves are distinct and none is the
  placeholder hash, no two nodes have the same hash, and there are at most \<open>2 ^ 63\<close> leaves.
\<close>

theorem get_proof_verifies:
  assumes "lru_ok K content" and "tree_inv C content (\<lambda>s. s) ls T" and "i < length ls"
  shows "\<exists>proof T'. get_proof (mock_env C K) (word_of_nat i) T = (Inr (Some proof), T') \<and>
    tree_inv C content (\<lambda>s. s) ls T' \<and>
    accumulator_proof_verify C proof (root_hash T') (ls ! i) (word_of_nat i) = Inr ()"
proof -
  let ?R = "rlevel (length ls)"
  note sel = tree_inv_sel [OF assms(2)]
  obtain T' where T': "get_proof (mock_env C K) (word_of_nat i) T =
      (Inr (Some \<lparr>siblings = sibling_hashes C ls ?R 0 i\<rparr>), T')" "cache_eq content T T'"
    using mock.get_proof_eq [of "mock_env C K" C content ls T i] assms by auto
  note inv' = tree_inv_cache_eq [OF T'(2) assms(2)]
  have len: "length (sibling_hashes C ls j k p) = j" for j k p by (induction j arbitrary: k p) auto
  have "i < 2 ^ 64" using assms(3) sel(4) by simp
  moreover have "i div 2 ^ ?R = 0"
    using assms(3) rlevel_le_iff [of "length ls" ?R] by simp
  ultimately have "fst (fold (verify_step C) (sibling_hashes C ls ?R 0 i) (ls ! i, word_of_nat i)) = merkle_root C ls"
    using fold_sibling_hashes [of i 0 ls C ?R] assms(3) by (simp add: merkle_root_def)
  then have "accumulator_proof_verify C \<lparr>siblings = sibling_hashes C ls ?R 0 i\<rparr> (root_hash T') (ls ! i) (word_of_nat i) = Inr ()"
    using rlevel_63 [OF sel(4)] tree_inv_sel(2) [OF inv']
    by (simp add: accumulator_proof_verify_def len MAX_ACCUMULATOR_PROOF_DEPTH_def)
  then show ?thesis using T'(1) inv' by blast
qed

theorem get_proof_verifies_witness:
  "\<exists>proof T'. get_proof (mock_env sample_crypto list_lru) (word_of_nat 2) sample_tree3 = (Inr (Some proof), T') \<and>
    tree_inv sample_crypto list_content (\<lambda>s. s) [[2], [3], [4]] T' \<and>
    accumulator_proof_verify sample_crypto proof (root_hash T') ([[2], [3], [4]] ! 2) (word_of_nat 2) = Inr ()"
  by (rule get_proof_verifies [OF list_lru_ok sample_tree3_inv]) simp

text \<open>
  C7: Proofs are sound: if a proof with one sibling per level verifies a hash at an index of
  the tree over \<open>ls\<close>, then the hash is the leaf at that index and the siblings are those of
  the tree, unless the pairs hashed by the tree and by the verification collide.
\<close>

theorem accumulator_proof_sound:
  assumes "accumulator_proof_verify C proof (merkle_root C ls) h (word_of_nat i) = Inr ()"
    and "i < length ls" and "length ls \<le> 2 ^ 63" and "length (siblings proof) = rlevel (length ls)"
    and "inj_on (\<lambda>(x, y). hash_children C x y) (tree_pairs C ls \<union> set (proof_pairs C h i (siblings proof)))"
  shows "h = ls ! i \<and> siblings proof = sibling_hashes C ls (rlevel (length ls)) 0 i"
proof -
  let ?R = "rlevel (length ls)"
  have "i div 2 ^ ?R = 0" using assms(2) rlevel_le_iff [of "length ls" ?R] by simp
  moreover have "fst (fold (verify_step C) (siblings proof) (h, word_of_nat i)) = merkle_root C ls"
    using assms(1) by (auto simp: accumulator_proof_verify_def)
  ultimately have "fst (fold (verify_step C) (siblings proof) (h, word_of_nat i)) =
      mhash C ls (0 + length (siblings proof)) (i div 2 ^ length (siblings proof))"
    using assms(4) by (simp add: merkle_root_def)
  then have "h = mhash C ls 0 i \<and> siblings proof = sibling_hashes C ls (length (siblings proof)) 0 i"
    using assms(2,3,4) by (intro fold_verify_sound [OF assms(5)]) simp_all
  then show ?thesis using assms(2,4) by simp
qed

theorem accumulator_proof_sound_witness:
  "[4] = [[2 :: u8], [3], [4]] ! 2 \<and>
   siblings \<lparr>siblings = [[], [1, 2, 3 :: u8]]\<rparr> = sibling_hashes sample_crypto [[2], [3], [4]] (rlevel (length [[2 :: u8], [3], [4]])) 0 2"
proof -
  let ?ls = "[[2], [3], [4]] :: u8 list list" and ?p = "\<lparr>siblings = [[], [1, 2, 3 :: u8]]\<rparr>"
  have v: "accumulator_proof_verify sample_crypto ?p (merkle_root sample_crypto ?ls) [4] (word_of_nat 2) = Inr ()"
    by code_simp
  have r: "rlevel 3 = 2" by code_simp
  have pairs: "tree_pairs sample_crypto ?ls \<union> set (proof_pairs sample_crypto [4] 2 (siblings ?p)) \<subseteq>
      {([2], [3]), ([4], []), ([1, 2, 3], [1, 4])}"
  proof -
    have cases: "l = 0 \<and> (p = 0 \<or> p = 1) \<or> l = 1 \<and> p = 0" if "l < 2" "p * 2 ^ Suc l < 3" for l p :: nat
      using that by (cases l) auto
    have eqs: "(mhash sample_crypto ?ls 0 (2 * 0), mhash sample_crypto ?ls 0 (2 * 0 + 1)) = ([2], [3])"
      "(mhash sample_crypto ?ls 0 (2 * 1), mhash sample_crypto ?ls 0 (2 * 1 + 1)) = ([4], [])"
      "(mhash sample_crypto ?ls 1 (2 * 0), mhash sample_crypto ?ls 1 (2 * 0 + 1)) = ([1, 2, 3], [1, 4])"
      by code_simp+
    have "tree_pairs sample_crypto ?ls \<subseteq> {([2], [3]), ([4], []), ([1, 2, 3], [1, 4])}"
    proof
      fix x
      assume "x \<in> tree_pairs sample_crypto ?ls"
      then obtain l p where x: "x = (mhash sample_crypto ?ls l (2 * p), mhash sample_crypto ?ls l (2 * p + 1))"
        "l < rlevel (length ?ls)" "p * 2 ^ Suc l < length ?ls" unfolding tree_pairs_def by blast
      have "l < 2" "p * 2 ^ Suc l < 3" using x(2,3) r by (simp_all add: numeral_3_eq_3)
      then consider "l = 0" "p = 0" | "l = 0" "p = 1" | "l = 1" "p = 0" using cases [of l p] by blast
      then show "x \<in> {([2], [3]), ([4], []), ([1, 2, 3], [1, 4])}"
        using x(1) eqs by cases (simp_all only: insert_iff simp_thms)
    qed
    moreover have "proof_pairs sample_crypto [4] 2 (siblings ?p) = [([4], []), ([1, 2, 3], [1, 4])]" by code_simp
    ultimately show ?thesis by simp
  qed
  have "inj_on (\<lambda>(x, y). hash_children sample_crypto x y) {([2], [3]), ([4], []), ([1, 2, 3], [1, 4])}"
    by (simp add: hash_children_def sample_crypto_def)
  then have inj: "inj_on (\<lambda>(x, y). hash_children sample_crypto x y)
      (tree_pairs sample_crypto ?ls \<union> set (proof_pairs sample_crypto [4] 2 (siblings ?p)))"
    using pairs by (rule inj_on_subset)
  moreover have "length (siblings ?p) = rlevel (length ?ls)" by code_simp
  ultimately show ?thesis
    by (intro accumulator_proof_sound [OF v]) (assumption | simp)+
qed

section \<open>Reading leaves\<close>

text \<open>
  C24: \<^verbatim>\<open>get_leaves\<close> returns exactly the requested run of leaves: from \<open>start\<close> upwards, or
  from \<open>start\<close> downwards when \<open>reverse\<close>, at most \<open>max_size\<close> of them, cut off at the ends of
  the accumulator, for every \<open>u64\<close> \<open>start\<close> and \<open>max_size\<close> (the additions saturate). By
  \<open>tree_inv\<close> the leaves are distinct and none is the placeholder hash, no two nodes have the
  same hash, and there are at most \<open>2 ^ 63\<close> leaves.
\<close>

theorem get_leaves_correct:
  assumes "lru_ok K content" and "tree_inv C content (\<lambda>s. s) ls T" and "start < 2 ^ 64" and "max_size < 2 ^ 64"
  shows "fst (get_leaves (mock_env C K) (word_of_nat start) reverse (word_of_nat max_size) T) =
    Inr (if reverse then take max_size (rev (take (start + 1) ls)) else take max_size (drop start ls))"
  using mock.get_leaves_eq [of "mock_env C K" C content ls T start max_size reverse] assms by auto

theorem get_leaves_correct_witness:
  "fst (get_leaves (mock_env sample_crypto list_lru) (word_of_nat 1) True (word_of_nat 5) sample_tree3) =
    Inr (if True then take 5 (rev (take (1 + 1) [[2], [3], [4]])) else take 5 (drop 1 [[2], [3], [4]]))"
  by (rule get_leaves_correct [OF list_lru_ok sample_tree3_inv]) simp_all

text \<open>
  C33: On an accumulator without leaves, asking for leaf 0 does not return \<^verbatim>\<open>None\<close>: the check
  for a placeholder takes leaf 0 for present, and the lookup then panics in
  \<^verbatim>\<open>root_from_leaf_count(0)\<close>.
\<close>

theorem get_leaf_empty_panics:
  assumes "lru_ok K content" and "tree_inv C content (\<lambda>s. s) [] T"
  shows "fst (get_leaf (mock_env C K) 0 T) = Inl Panic"
proof -
  have n: "num_leaves T = 0" using tree_inv_sel(1) [OF assms(2)] by simp
  have "\<not> is_placeholder (from_leaf_index 0) (rightmost_leaf_index T)"
    by (simp add: is_placeholder_def rightmost_leaf_index_def n)
  moreover obtain T1 where T1: "get_node_index (mock_env C K) (from_leaf_index 0) T =
      (content (index_cache T) (from_leaf_index 0), T1)" "cache_eq content T T1"
    using get_node_index_eq [of "mock_env C K" content] assms(1) by auto
  moreover have "content (index_cache T) k = None" for k
    using tree_inv_sel(6) [OF assms(2)] by (cases "content (index_cache T) k") (auto simp: lookup_inv_def present_def)
  ultimately show ?thesis
    using cache_eq_sel(1) [OF T1(2)] n
    by (simp add: get_leaf_def get_node_hash_def get_node_hash_always_def root_from_leaf_count_def sbind_def)
qed

theorem get_leaf_empty_panics_witness: "fst (get_leaf (mock_env sample_crypto list_lru) 0 sample_tree) = Inl Panic"
  by (rule get_leaf_empty_panics [OF list_lru_ok sample_tree_inv])

text \<open>
  The condition on the leaves is needed: nodes are stored by hash and carry their position, so
  equal subtrees overwrite each other. After the leaves \<open>a, b, a, b\<close> are appended and flushed
  and the accumulator is forked, leaf 0 is not found.
\<close>

lemma repeated_leaves_lost:
  "let E = mock_env sample_crypto list_lru;
       T = snd (merkle_append E [[2], [3], [2], [3]] sample_tree);
       T = fork E (snd (flush E T))
   in num_leaves T = 4 \<and> fst (get_leaf E 0 T) = Inl (Err NodeHashNotFound)"
  by code_simp

section \<open>Appending subtrees\<close>

text \<open>The hash of the node with a given number in the tree over \<open>ls\<close>.\<close>

definition index_hash :: "'h crypto \<Rightarrow> 'h list \<Rightarrow> NodeIndex \<Rightarrow> 'h" where
  "index_hash C ls i = mhash C ls (level i) (unat i div 2 ^ Suc (level i))"

lemma index_hash_NI: "valid l p \<Longrightarrow> index_hash C ls (NI l p) = mhash C ls l p"
proof -
  assume v: "valid l p"
  have "unat (NI l p) div 2 ^ Suc l = p"
  proof (rule div_nat_eqI)
    have "0 < (2 ^ l :: nat)" by simp
    moreover have "unat (NI l p) + 1 = 2 ^ Suc l * p + 2 ^ l" using unat_NI [OF v] by (simp add: algebra_simps)
    moreover have "2 ^ Suc l * Suc p = 2 ^ Suc l * p + 2 * 2 ^ l" by simp
    ultimately show "2 ^ Suc l * p \<le> unat (NI l p)" "unat (NI l p) < 2 ^ Suc l * Suc p" by linarith+
  qed
  then show ?thesis using level_NI [OF valid_level [OF v]] by (simp add: index_hash_def)
qed

text \<open>
  C22: \<^verbatim>\<open>append_subtrees\<close> with the hashes of the subtrees that \<^verbatim>\<open>FrozenSubtreeSiblingIterator\<close>
  enumerates between the old and the new leaf count succeeds and gives the accumulator
  that appending the leaves themselves gives.
\<close>

theorem append_subtrees_correct:
  assumes "length ls + length xs \<le> 2 ^ 63"
  shows "\<exists>it. frozen_sibling_iter_new (word_of_nat (length ls)) (word_of_nat (length (ls @ xs))) =
      (Inr it :: (FrozenSubtreeSiblingIterator, unit) outcome) \<and>
    append_subtrees C (inmemory_of C ls) (map (index_hash C (ls @ xs)) (frozen_sibling_collect it))
      (word_of_nat (length xs)) = inmemory_append C (inmemory_of C ls) xs"
proof -
  let ?n = "length ls" and ?r = "length xs" and ?L = "ls @ xs"
  let ?it = "\<lparr>current_num_leaves = word_of_nat ?n, remaining_new_leaves = word_of_nat ?r\<rparr>"
  have u: "unat (word_of_nat (?n + ?r) :: u64) = ?n + ?r" "unat (word_of_nat ?n :: u64) = ?n"
    using assms by (simp_all add: unat_of_nat_eq del: of_nat_add)
  have "unat MAX_ACCUMULATOR_LEAVES = 2 ^ 63"
    by (simp add: MAX_ACCUMULATOR_LEAVES_def MAX_ACCUMULATOR_PROOF_DEPTH_def shl_one)
  then have le: "word_of_nat (?n + ?r) \<le> MAX_ACCUMULATOR_LEAVES" "(word_of_nat ?n :: u64) \<le> word_of_nat (?n + ?r)"
    unfolding word_le_nat_alt u using assms by simp_all
  have it: "frozen_sibling_iter_new (word_of_nat ?n) (word_of_nat (length ?L)) =
      (Inr ?it :: (FrozenSubtreeSiblingIterator, unit) outcome)"
    unfolding frozen_sibling_iter_new_def length_append using le by simp
  have "valid l p" if "(l, p) \<in> set (scoords ?n ?r)" for l p
    using scoords_bound [OF that] assms by (intro valid_boundI) linarith
  then have "map (index_hash C ?L) (frozen_sibling_collect ?it) = map (\<lambda>(l, p). mhash C ?L l p) (scoords ?n ?r)"
    using assms by (auto simp: frozen_sibling_collect_NI index_hash_NI)
  then show ?thesis
    using it append_subtrees_eq [OF assms, of C] assms by (simp add: inmemory_append_eq)
qed

theorem append_subtrees_correct_witness:
  "\<exists>it. frozen_sibling_iter_new (word_of_nat (length [[2 :: u8]])) (word_of_nat (length ([[2 :: u8]] @ [[3], [4]]))) =
      (Inr it :: (FrozenSubtreeSiblingIterator, unit) outcome) \<and>
    append_subtrees sample_crypto (inmemory_of sample_crypto [[2]])
      (map (index_hash sample_crypto ([[2]] @ [[3], [4]])) (frozen_sibling_collect it))
      (word_of_nat (length [[3 :: u8], [4]])) =
    inmemory_append sample_crypto (inmemory_of sample_crypto [[2]]) [[3], [4]]"
  by (rule append_subtrees_correct) simp

end
