(* ===== verification/Nibble_Path.thy ===== *)
theory Nibble_Path
  imports Prelude
begin

text \<open>
  Paths of four-bit nibbles packed two per byte, \<^verbatim>\<open>nibble.rs\<close> and \<^verbatim>\<open>nibble_path/mod.rs\<close> of
  \<^verbatim>\<open>forkable-jellyfish-merkle\<close>, with their bit and nibble iterators. A path is proved to be a
  list of nibbles: \<open>nibbles_of\<close> reads it, and every operation is the list operation on it.
  The \<^verbatim>\<open>checked_precondition!\<close> of the constructors, at most 32 bytes, is not a branch of the
  model: the paths built are those of hashes, which have 32 bytes by \<open>crypto_ok\<close>.
\<close>

section \<open>Definitions\<close>

type_synonym Nibble = u8

definition nibble_from :: "u8 \<Rightarrow> (Nibble, 'e) outcome" where
  "nibble_from n = obind (assert_that (n < 16)) (\<lambda>_. Inr n)"

definition ROOT_NIBBLE_HEIGHT :: nat where
  "ROOT_NIBBLE_HEIGHT = 32 * 2"

record NibblePath =
  num_nibbles :: nat
  bytes :: "u8 list"

definition nibble_path_new :: "u8 list \<Rightarrow> NibblePath" where
  "nibble_path_new bs = \<lparr>num_nibbles = length bs * 2, bytes = bs\<rparr>"

definition nibble_path_new_odd :: "u8 list \<Rightarrow> (NibblePath, 'e) outcome" where
  "nibble_path_new_odd bs =
     obind (expect (if bs = [] then None else Some (last bs))) (\<lambda>last_byte.
     obind (assert_that (last_byte AND 15 = 0)) (\<lambda>_.
     Inr \<lparr>num_nibbles = length bs * 2 - 1, bytes = bs\<rparr>))"

definition path_push :: "NibblePath \<Rightarrow> Nibble \<Rightarrow> (NibblePath, 'e) outcome" where
  "path_push p nibble =
     obind (assert_that (ROOT_NIBBLE_HEIGHT > num_nibbles p)) (\<lambda>_.
     obind (if num_nibbles p mod 2 = 0 then Inr (bytes p @ [shl nibble 4])
            else obind (vec_index (bytes p) (num_nibbles p div 2)) (\<lambda>b.
                 Inr ((bytes p)[num_nibbles p div 2 := b OR nibble]))) (\<lambda>bs.
     Inr \<lparr>num_nibbles = num_nibbles p + 1, bytes = bs\<rparr>))"

definition path_pop :: "NibblePath \<Rightarrow> (Nibble option \<times> NibblePath, 'e) outcome" where
  "path_pop p =
     (if bytes p = [] then Inr (None, p)
      else if num_nibbles p mod 2 = 0 then
        let last_byte = last (bytes p);
            nibble = last_byte AND 15
        in obind (nibble_from nibble) (\<lambda>nibble.
           Inr (Some nibble,
                \<lparr>num_nibbles = num_nibbles p - 1, bytes = butlast (bytes p) @ [last_byte AND 240]\<rparr>))
      else
        obind (nibble_from (shr (last (bytes p)) 4)) (\<lambda>nibble.
        Inr (Some nibble, \<lparr>num_nibbles = num_nibbles p - 1, bytes = butlast (bytes p)\<rparr>)))"

definition path_last :: "NibblePath \<Rightarrow> (Nibble option, 'e) outcome" where
  "path_last p =
     (let last_byte_option = (if bytes p = [] then None else Some (last (bytes p)))
      in if num_nibbles p mod 2 = 0 then
           (case last_byte_option of
              None \<Rightarrow> Inr None
            | Some last_byte \<Rightarrow> obind (nibble_from (last_byte AND 15)) (\<lambda>n. Inr (Some n)))
         else
           obind (expect last_byte_option) (\<lambda>last_byte.
           obind (nibble_from (shr last_byte 4)) (\<lambda>n. Inr (Some n))))"

definition path_get_bit :: "NibblePath \<Rightarrow> nat \<Rightarrow> (bool, 'e) outcome" where
  "path_get_bit p i =
     obind (assert_that (i div 4 < num_nibbles p)) (\<lambda>_.
     let pos = i div 8;
         b = 7 - i mod 8
     in obind (vec_index (bytes p) pos) (\<lambda>byte. Inr (shr byte b AND 1 \<noteq> 0)))"

definition path_get_nibble :: "NibblePath \<Rightarrow> nat \<Rightarrow> (Nibble, 'e) outcome" where
  "path_get_nibble p i =
     obind (assert_that (i < num_nibbles p)) (\<lambda>_.
     obind (vec_index (bytes p) (i div 2)) (\<lambda>byte.
     nibble_from (shr byte (if i mod 2 = 1 then 0 else 4) AND 15)))"

fun push_all :: "NibblePath \<Rightarrow> Nibble list \<Rightarrow> (NibblePath, 'e) outcome" where
  "push_all p [] = Inr p"
| "push_all p (n # ns) = obind (path_push p n) (\<lambda>p. push_all p ns)"

definition path_from_iter :: "Nibble list \<Rightarrow> (NibblePath, 'e) outcome" where
  "path_from_iter ns = push_all (nibble_path_new []) ns"

text \<open>The iterators; \<open>pos_start\<close> and \<open>pos_end\<close> are the \<^verbatim>\<open>Range\<close> in the field \<^verbatim>\<open>pos\<close>.\<close>

record BitIterator =
  bi_path :: NibblePath
  bi_pos_start :: nat
  bi_pos_end :: nat

record NibbleIterator =
  ni_path :: NibblePath
  pos_start :: nat
  pos_end :: nat
  ni_start :: nat

definition path_bits :: "NibblePath \<Rightarrow> BitIterator" where
  "path_bits p = \<lparr>bi_path = p, bi_pos_start = 0, bi_pos_end = num_nibbles p * 4\<rparr>"

definition nibble_iterator_new :: "NibblePath \<Rightarrow> nat \<Rightarrow> nat \<Rightarrow> NibbleIterator" where
  "nibble_iterator_new p start fin = \<lparr>ni_path = p, pos_start = start, pos_end = fin, ni_start = start\<rparr>"

definition path_nibbles :: "NibblePath \<Rightarrow> NibbleIterator" where
  "path_nibbles p = nibble_iterator_new p 0 (num_nibbles p)"

definition bit_peek :: "BitIterator \<Rightarrow> (bool option, 'e) outcome" where
  "bit_peek it =
     (if bi_pos_start it < bi_pos_end it
      then obind (path_get_bit (bi_path it) (bi_pos_start it)) (\<lambda>b. Inr (Some b))
      else Inr None)"

definition bit_next :: "BitIterator \<Rightarrow> (bool option \<times> BitIterator, 'e) outcome" where
  "bit_next it =
     (if bi_pos_start it < bi_pos_end it
      then obind (path_get_bit (bi_path it) (bi_pos_start it)) (\<lambda>b.
           Inr (Some b, it\<lparr>bi_pos_start := bi_pos_start it + 1\<rparr>))
      else Inr (None, it))"

definition bit_next_back :: "BitIterator \<Rightarrow> (bool option \<times> BitIterator, 'e) outcome" where
  "bit_next_back it =
     (if bi_pos_start it < bi_pos_end it
      then obind (path_get_bit (bi_path it) (bi_pos_end it - 1)) (\<lambda>b.
           Inr (Some b, it\<lparr>bi_pos_end := bi_pos_end it - 1\<rparr>))
      else Inr (None, it))"

definition nibble_next :: "NibbleIterator \<Rightarrow> (Nibble option \<times> NibbleIterator, 'e) outcome" where
  "nibble_next it =
     (if pos_start it < pos_end it
      then obind (path_get_nibble (ni_path it) (pos_start it)) (\<lambda>n.
           Inr (Some n, it\<lparr>pos_start := pos_start it + 1\<rparr>))
      else Inr (None, it))"

definition nibble_peek :: "NibbleIterator \<Rightarrow> (Nibble option, 'e) outcome" where
  "nibble_peek it =
     (if pos_start it < pos_end it
      then obind (path_get_nibble (ni_path it) (pos_start it)) (\<lambda>n. Inr (Some n))
      else Inr None)"

definition visited_nibbles :: "NibbleIterator \<Rightarrow> NibbleIterator" where
  "visited_nibbles it = nibble_iterator_new (ni_path it) (ni_start it) (pos_start it)"

definition remaining_nibbles :: "NibbleIterator \<Rightarrow> NibbleIterator" where
  "remaining_nibbles it = nibble_iterator_new (ni_path it) (pos_start it) (pos_end it)"

definition iterator_bits :: "NibbleIterator \<Rightarrow> BitIterator" where
  "iterator_bits it =
     \<lparr>bi_path = ni_path it, bi_pos_start = pos_start it * 4, bi_pos_end = pos_end it * 4\<rparr>"

text \<open>The items an iterator still has to give, and \<^verbatim>\<open>collect::<NibblePath>()\<close> on them.\<close>

definition nibble_collect :: "NibbleIterator \<Rightarrow> (Nibble list, 'e) outcome" where
  "nibble_collect it = omap (path_get_nibble (ni_path it)) [pos_start it..<pos_end it]"

definition collect_path :: "NibbleIterator \<Rightarrow> (NibblePath, 'e) outcome" where
  "collect_path it = obind (nibble_collect it) path_from_iter"

definition get_nibble_path :: "NibbleIterator \<Rightarrow> (NibblePath, 'e) outcome" where
  "get_nibble_path it =
     obind (nibble_collect (visited_nibbles it)) (\<lambda>xs.
     obind (nibble_collect (remaining_nibbles it)) (\<lambda>ys.
     path_from_iter (xs @ ys)))"

definition iterator_num_nibbles :: "NibbleIterator \<Rightarrow> nat" where
  "iterator_num_nibbles it = pos_end it - ni_start it"

definition is_finished :: "NibbleIterator \<Rightarrow> (bool, 'e) outcome" where
  "is_finished it = obind (nibble_peek it) (\<lambda>n. Inr (n = None))"

text \<open>Both iterators advance while their next nibbles agree.\<close>

function skip_common_prefix ::
  "NibbleIterator \<Rightarrow> NibbleIterator \<Rightarrow> (nat \<times> NibbleIterator \<times> NibbleIterator, 'e) outcome" where
  "skip_common_prefix x y =
     obind (nibble_peek x) (\<lambda>x_peek.
     obind (nibble_peek y) (\<lambda>y_peek.
     if x_peek = None \<or> y_peek = None \<or> x_peek \<noteq> y_peek then Inr (0, x, y)
     else
       obind (nibble_next x) (\<lambda>(_, x').
       obind (nibble_next y) (\<lambda>(_, y').
       obind (skip_common_prefix x' y') (\<lambda>(count, x'', y'').
       Inr (count + 1, x'', y''))))))"
  by pat_completeness auto
termination
  by (relation "measure (\<lambda>(x, y). pos_end x - pos_start x)")
    (auto simp: nibble_next_def nibble_peek_def split: if_splits)

declare skip_common_prefix.simps [simp del]


section \<open>Nibbles of a byte\<close>

lemma less_16_bit: "(x :: u8) < 16 \<longleftrightarrow> (\<forall>i \<ge> 4. \<not> bit x i)"
proof -
  have "x < 16 \<longleftrightarrow> take_bit 4 x = x"
    by (simp add: take_bit_eq_mod word_less_nat_alt word_unat_eq_iff unat_mod mod_eq_self_iff_div_eq_0
        div_eq_0_iff)
  also have "\<dots> \<longleftrightarrow> (\<forall>i \<ge> 4. \<not> bit x i)"
    by (metis bit_take_bit_iff bit_word_eqI not_le)
  finally show ?thesis .
qed

lemma bit_15: "bit (15 :: int) i \<longleftrightarrow> i < 4"
proof -
  have "(15 :: int) = Bit_Operations.mask 4" by (simp add: mask_eq_exp_minus_1)
  then show ?thesis by (simp only: bit_mask_iff) auto
qed

lemma bit_240: "bit (240 :: int) i \<longleftrightarrow> 4 \<le> i \<and> i < 8"
proof -
  have "(240 :: int) = push_bit 4 (Bit_Operations.mask 4)"
    by (simp add: mask_eq_exp_minus_1 push_bit_eq_mult)
  then show ?thesis by (simp only: bit_push_bit_iff bit_mask_iff) auto
qed

definition high :: "u8 \<Rightarrow> Nibble" where
  "high b = shr b 4"

definition low :: "u8 \<Rightarrow> Nibble" where
  "low b = b AND 15"

lemma bit_high: "bit (high b) i \<longleftrightarrow> bit b (i + 4)"
  by (simp add: high_def shr_def bit_drop_bit_eq add.commute [of i])

lemma bit_low: "bit (low b) i \<longleftrightarrow> i < 4 \<and> bit b i"
  by (auto simp: low_def bit_and_iff bit_15)

lemma high_less [simp]: "high b < 16"
  by (auto simp: less_16_bit bit_high dest: bit_imp_le_length)

lemma low_less [simp]: "low b < 16"
  by (auto simp: less_16_bit bit_low)

lemma byte_eqI: "high a = high b \<Longrightarrow> low a = low b \<Longrightarrow> a = b"
proof (rule bit_word_eqI)
  fix n assume h: "high a = high b" "low a = low b"
  show "bit a n \<longleftrightarrow> bit b n"
    using bit_high [of a "n - 4"] bit_high [of b "n - 4"] bit_low [of a n] bit_low [of b n] h
    by (cases "n < 4") auto
qed

lemma high_shl [simp]: "x < 16 \<Longrightarrow> high (shl x 4) = x"
  by (rule bit_word_eqI) (auto simp: bit_high shl_def bit_push_bit_iff less_16_bit
      dest: bit_imp_le_length intro: leI)

lemma low_shl [simp]: "low (shl x 4) = 0"
  by (rule bit_word_eqI) (auto simp: bit_low shl_def bit_push_bit_iff)

lemma high_or [simp]: "x < 16 \<Longrightarrow> high (b OR x) = high b"
  by (rule bit_word_eqI) (auto simp: bit_high bit_or_iff less_16_bit)

lemma low_or [simp]: "x < 16 \<Longrightarrow> low b = 0 \<Longrightarrow> low (b OR x) = x"
  by (rule bit_word_eqI) (metis bit_0_eq bit_low bit_or_iff bot_apply bot_bool_def less_16_bit not_le)

lemma high_240 [simp]: "high (b AND 240) = high b"
  by (rule bit_word_eqI) (auto simp: bit_high bit_and_iff bit_240 dest: bit_imp_le_length)

lemma low_240 [simp]: "low (b AND 240) = 0"
  by (rule bit_word_eqI) (auto simp: bit_low bit_and_iff bit_240)

lemma shr_and_15: "shr b 4 AND 15 = high b"
  by (rule bit_word_eqI)
    (auto simp: bit_and_iff bit_15 bit_high high_def [symmetric] dest: bit_imp_le_length)

lemma nibble_from_ok [simp]: "n < 16 \<Longrightarrow> nibble_from n = Inr n"
  by (simp add: nibble_from_def)

section \<open>A path is a list of nibbles\<close>

fun unpack :: "u8 list \<Rightarrow> Nibble list" where
  "unpack [] = []"
| "unpack (b # bs) = high b # low b # unpack bs"

definition nibbles_of :: "NibblePath \<Rightarrow> Nibble list" where
  "nibbles_of p = take (num_nibbles p) (unpack (bytes p))"

text \<open>The invariant stated in the comments of the struct.\<close>

definition path_ok :: "NibblePath \<Rightarrow> bool" where
  "path_ok p \<longleftrightarrow> num_nibbles p \<le> ROOT_NIBBLE_HEIGHT \<and>
     length (bytes p) = (num_nibbles p + 1) div 2 \<and>
     (num_nibbles p mod 2 = 1 \<longrightarrow> low (last (bytes p)) = 0)"

lemma length_unpack [simp]: "length (unpack bs) = 2 * length bs"
  by (induction bs) auto

lemma unpack_append [simp]: "unpack (xs @ ys) = unpack xs @ unpack ys"
  by (induction xs) auto

lemma unpack_less: "x \<in> set (unpack bs) \<Longrightarrow> x < 16"
  by (induction bs) auto

lemma unpack_nth:
  "i < 2 * length bs \<Longrightarrow> unpack bs ! i = (if i mod 2 = 1 then low (bs ! (i div 2)) else high (bs ! (i div 2)))"
proof (induction bs arbitrary: i)
  case (Cons b bs)
  show ?case
  proof (cases "i < 2")
    case True
    then have "i = 0 \<or> i = 1" by auto
    then show ?thesis by auto
  next
    case False
    then obtain j where "i = Suc (Suc j)" by (metis add_2_eq_Suc le_Suc_ex not_less)
    then show ?thesis using Cons by auto
  qed
qed simp

lemma unpack_inject: "unpack xs = unpack ys \<longleftrightarrow> xs = ys"
proof (induction xs arbitrary: ys)
  case Nil
  show ?case by (cases ys) auto
next
  case (Cons x xs)
  show ?case using Cons by (cases ys) (auto intro: byte_eqI)
qed

lemma length_nibbles_of [simp]: "path_ok p \<Longrightarrow> length (nibbles_of p) = num_nibbles p"
  by (auto simp: nibbles_of_def path_ok_def)

lemma nibbles_of_less: "x \<in> set (nibbles_of p) \<Longrightarrow> x < 16"
  by (auto simp: nibbles_of_def dest: in_set_takeD unpack_less)

lemma path_ok_new: "length bs \<le> 32 \<Longrightarrow> path_ok (nibble_path_new bs)"
  by (auto simp: path_ok_def nibble_path_new_def ROOT_NIBBLE_HEIGHT_def)

lemma nibbles_of_new [simp]: "nibbles_of (nibble_path_new bs) = unpack bs"
  by (simp add: nibbles_of_def nibble_path_new_def)

lemma num_nibbles_new [simp]: "num_nibbles (nibble_path_new bs) = 2 * length bs"
  by (simp add: nibble_path_new_def)


section \<open>The operations on lists of nibbles\<close>

lemma take_unpack_even:
  "n mod 2 = 0 \<Longrightarrow> length bs = (n + 1) div 2 \<Longrightarrow> take n (unpack bs) = unpack bs"
  by (rule take_all) (simp, presburger)

lemma unpack_butlast: "bs \<noteq> [] \<Longrightarrow> unpack bs = unpack (butlast bs) @ [high (last bs), low (last bs)]"
  by (metis append_butlast_last_id unpack.simps unpack_append)

lemma nibbles_of_odd:
  assumes "path_ok p" "num_nibbles p mod 2 = 1"
  shows "bytes p \<noteq> [] \<and> nibbles_of p = unpack (butlast (bytes p)) @ [high (last (bytes p))]"
proof -
  have ne: "bytes p \<noteq> []" using assms by (auto simp: path_ok_def)
  have "num_nibbles p = Suc (2 * length (butlast (bytes p)))"
    using assms unfolding path_ok_def length_butlast by presburger
  then show ?thesis using ne by (simp add: nibbles_of_def unpack_butlast [OF ne])
qed

lemma nibbles_of_even: "path_ok p \<Longrightarrow> num_nibbles p mod 2 = 0 \<Longrightarrow> nibbles_of p = unpack (bytes p)"
  by (auto simp: nibbles_of_def path_ok_def take_unpack_even)

lemma update_last: "i = length xs - 1 \<Longrightarrow> xs \<noteq> [] \<Longrightarrow> xs[i := v] = butlast xs @ [v]"
  by (metis butlast_list_update last_list_update length_list_update list_update_nonempty
      append_butlast_last_id)

lemma path_push_eq:
  assumes "path_ok p" "num_nibbles p < ROOT_NIBBLE_HEIGHT" "x < 16"
  shows "\<exists>q. path_push p x = Inr q \<and> path_ok q \<and> nibbles_of q = nibbles_of p @ [x] \<and>
    num_nibbles q = Suc (num_nibbles p)"
proof (cases "num_nibbles p mod 2 = 0")
  case True
  let ?q = "\<lparr>num_nibbles = num_nibbles p + 1, bytes = bytes p @ [shl x 4]\<rparr>"
  have ok: "path_ok ?q" using assms True by (auto simp: path_ok_def)
  have "(num_nibbles p + 1) mod 2 = 1" using True by presburger
  then show ?thesis
    using True assms ok nibbles_of_odd [OF ok] nibbles_of_even [OF assms(1) True]
    by (auto simp: path_push_def)
next
  case False
  then have odd: "num_nibbles p mod 2 = 1" by presburger
  note np = nibbles_of_odd [OF assms(1) odd]
  have i: "num_nibbles p div 2 = length (bytes p) - 1"
    using assms(1) odd by (auto simp: path_ok_def) presburger
  have lt: "num_nibbles p div 2 < length (bytes p)" using np i by (cases "bytes p") auto
  have b: "bytes p ! (num_nibbles p div 2) = last (bytes p)" using np i by (simp add: last_conv_nth)
  let ?q = "\<lparr>num_nibbles = num_nibbles p + 1, bytes = butlast (bytes p) @ [last (bytes p) OR x]\<rparr>"
  have push: "path_push p x = Inr ?q"
    using assms(2) odd lt b np i by (simp add: path_push_def vec_index_def update_last)
  have even: "(num_nibbles p + 1) mod 2 = 0" using odd by presburger
  have len: "length (bytes p) = (num_nibbles p + 2) div 2"
    using assms(1) odd by (auto simp: path_ok_def) presburger
  have "length (bytes p) = Suc (length (bytes p) - Suc 0)" using np by (cases "bytes p") auto
  then have ok: "path_ok ?q" using assms len even by (auto simp: path_ok_def)
  have "nibbles_of ?q = nibbles_of p @ [x]"
    using np assms(1,3) odd nibbles_of_even [OF ok] even by (simp add: path_ok_def)
  then show ?thesis using push ok by auto
qed

lemma push_all_eq:
  assumes "path_ok p" "num_nibbles p + length xs \<le> ROOT_NIBBLE_HEIGHT" "\<forall>x \<in> set xs. x < 16"
  shows "\<exists>q. push_all p xs = (Inr q :: (NibblePath, 'e) outcome) \<and> path_ok q \<and>
    nibbles_of q = nibbles_of p @ xs"
  using assms
proof (induction xs arbitrary: p)
  case (Cons x xs)
  obtain q where q: "path_push p x = (Inr q :: (NibblePath, 'e) outcome)" "path_ok q"
    "nibbles_of q = nibbles_of p @ [x]" "num_nibbles q = Suc (num_nibbles p)"
    using path_push_eq [of p x] Cons.prems by auto
  then show ?case using Cons.IH [of q] Cons.prems by simp
qed simp

text \<open>A path is determined by its nibbles.\<close>

lemma nibbles_of_inject:
  assumes "path_ok p" "path_ok q" "nibbles_of p = nibbles_of q"
  shows "p = q"
proof -
  have n: "num_nibbles p = num_nibbles q" using assms by (metis length_nibbles_of)
  have "bytes p = bytes q"
  proof (cases "num_nibbles p mod 2 = 0")
    case True
    then show ?thesis using assms n nibbles_of_even [of p] nibbles_of_even [of q]
      by (simp add: unpack_inject)
  next
    case False
    then have odd: "num_nibbles p mod 2 = 1" by presburger
    note np = nibbles_of_odd [OF assms(1) odd] nibbles_of_odd [OF assms(2) odd [unfolded n]]
    have "low (last (bytes p)) = 0" "low (last (bytes q)) = 0"
      using assms(1,2) odd n by (simp_all add: path_ok_def)
    moreover have "high (last (bytes p)) = high (last (bytes q))" using np assms(3) by simp
    ultimately have "last (bytes p) = last (bytes q)" by (simp add: byte_eqI)
    moreover have "butlast (bytes p) = butlast (bytes q)"
      using np assms(3) by (simp add: unpack_inject)
    ultimately show ?thesis using np by (metis append_butlast_last_id)
  qed
  then show ?thesis using n by simp
qed

lemma path_from_iter_eq:
  assumes "length xs \<le> ROOT_NIBBLE_HEIGHT" "\<forall>x \<in> set xs. x < 16"
  shows "\<exists>q. path_from_iter xs = Inr q \<and> path_ok q \<and> nibbles_of q = xs"
  using push_all_eq [OF path_ok_new [of "[]"], of xs] assms by (simp add: path_from_iter_def)

lemma path_from_iter_nibbles_of:
  assumes "path_ok p"
  shows "path_from_iter (nibbles_of p) = (Inr p :: (NibblePath, 'e) outcome)"
proof -
  obtain q where q: "path_from_iter (nibbles_of p) = (Inr q :: (NibblePath, 'e) outcome) \<and> path_ok q \<and> nibbles_of q = nibbles_of p"
    using path_from_iter_eq [of "nibbles_of p"] assms nibbles_of_less
    by (metis length_nibbles_of path_ok_def)
  then show ?thesis using nibbles_of_inject [of p q] assms by metis
qed


lemma path_pop_eq:
  assumes "path_ok p" "nibbles_of p \<noteq> []"
  shows "\<exists>q. (path_pop p :: (_, 'e) outcome) = Inr (Some (last (nibbles_of p)), q) \<and> path_ok q \<and>
    nibbles_of q = butlast (nibbles_of p)"
proof (cases "num_nibbles p mod 2 = 0")
  case True
  note np = nibbles_of_even [OF assms(1) True]
  have ne: "bytes p \<noteq> []" using np assms(2) by auto
  let ?q = "\<lparr>num_nibbles = num_nibbles p - 1, bytes = butlast (bytes p) @ [last (bytes p) AND 240]\<rparr>"
  have len: "length (bytes p) = Suc (length (butlast (bytes p)))" using ne by (cases "bytes p") auto
  have n: "num_nibbles p = Suc (Suc (2 * length (butlast (bytes p))))"
    using assms(1) True len unfolding path_ok_def by presburger
  have "num_nibbles p \<le> ROOT_NIBBLE_HEIGHT" using assms(1) by (simp add: path_ok_def)
  then have ok: "path_ok ?q" unfolding path_ok_def using n by simp
  have "nibbles_of ?q = unpack (butlast (bytes p)) @ [high (last (bytes p))]"
    using n by (simp add: nibbles_of_def)
  moreover have "(path_pop p :: (_, 'e) outcome) = Inr (Some (low (last (bytes p))), ?q)"
    using True ne by (simp add: path_pop_def Let_def low_def [symmetric])
  ultimately show ?thesis using ok np unpack_butlast [OF ne] by (simp add: butlast_append)
next
  case False
  then have odd: "num_nibbles p mod 2 = 1" by presburger
  note np = nibbles_of_odd [OF assms(1) odd]
  let ?q = "\<lparr>num_nibbles = num_nibbles p - 1, bytes = butlast (bytes p)\<rparr>"
  have n: "num_nibbles p = Suc (2 * length (butlast (bytes p)))"
    using assms(1) odd np unfolding path_ok_def length_butlast by presburger
  have "num_nibbles p \<le> ROOT_NIBBLE_HEIGHT" using assms(1) by (simp add: path_ok_def)
  then have ok: "path_ok ?q" unfolding path_ok_def using n by simp
  have "nibbles_of ?q = unpack (butlast (bytes p))" using n by (simp add: nibbles_of_def)
  moreover have "(path_pop p :: (_, 'e) outcome) = Inr (Some (high (last (bytes p))), ?q)"
    using odd np by (simp add: path_pop_def high_def [symmetric])
  ultimately show ?thesis using ok np by simp
qed

lemma path_pop_empty: "path_ok p \<Longrightarrow> nibbles_of p = [] \<Longrightarrow> path_pop p = Inr (None, p)"
  using length_nibbles_of [of p] by (auto simp: path_pop_def path_ok_def)

lemma path_last_eq:
  assumes "path_ok p"
  shows "path_last p = Inr (if nibbles_of p = [] then None else Some (last (nibbles_of p)))"
proof (cases "num_nibbles p mod 2 = 0")
  case True
  then show ?thesis
    using nibbles_of_even [OF assms True] unpack_butlast [of "bytes p"]
    by (cases "bytes p = []") (auto simp: path_last_def Let_def low_def [symmetric])
next
  case False
  then have odd: "num_nibbles p mod 2 = 1" by presburger
  show ?thesis
    using nibbles_of_odd [OF assms odd] odd
    by (simp add: path_last_def Let_def high_def [symmetric])
qed

lemma path_get_nibble_eq:
  assumes "path_ok p" "i < num_nibbles p"
  shows "path_get_nibble p i = Inr (nibbles_of p ! i)"
proof -
  have lt: "i div 2 < length (bytes p)" using assms unfolding path_ok_def by presburger
  have s0: "shr (b :: u8) 0 = b" for b by (simp add: shr_def)
  show ?thesis
    using assms(2) lt unpack_nth [of i "bytes p"]
    by (auto simp: path_get_nibble_def vec_index_def nibbles_of_def shr_and_15 s0 low_def
        nibble_from_ok [OF low_less, unfolded low_def])
qed

lemma path_get_nibble_panics: "num_nibbles p \<le> i \<Longrightarrow> path_get_nibble p i = Inl Panic"
  by (simp add: path_get_nibble_def)

text \<open>Bit \<open>4 i + j\<close> of a path is bit \<open>3 - j\<close> of its nibble \<open>i\<close>.\<close>

definition nibble_bits :: "Nibble \<Rightarrow> bool list" where
  "nibble_bits n = [bit n 3, bit n 2, bit n 1, bit n 0]"

lemma path_get_bit_eq:
  assumes "path_ok p" "i < 4 * num_nibbles p"
  shows "path_get_bit p i = Inr (bit (nibbles_of p ! (i div 4)) (3 - i mod 4))"
proof -
  have j: "i div 4 < num_nibbles p" using assms(2) by auto
  have d: "i div 4 div 2 = i div 8" by (simp add: div_mult2_eq [symmetric])
  have m8: "i mod 8 = 4 * (i div 4 mod 2) + i mod 4" using mod_mult2_eq [of i 4 2] by simp
  have "k div 2 < (n + 1) div 2" if "k < n" for k n :: nat using that by presburger
  then have "i div 4 div 2 < (num_nibbles p + 1) div 2" using j by blast
  then have lt: "i div 8 < length (bytes p)" using assms(1) d by (simp add: path_ok_def)
  have b1: "shr b k AND 1 \<noteq> 0 \<longleftrightarrow> bit b k" if "k < 8" for b :: u8 and k
    using that by (simp add: shr_def and_one_eq odd_iff_mod_2_eq_one [symmetric] bit_iff_odd_drop_bit)
  have nth: "nibbles_of p ! (i div 4) =
      (if i div 4 mod 2 = 1 then low (bytes p ! (i div 8)) else high (bytes p ! (i div 8)))"
    using j lt d unpack_nth [of "i div 4" "bytes p"] by (simp add: nibbles_of_def)
  have "bit (nibbles_of p ! (i div 4)) (3 - i mod 4) = bit (bytes p ! (i div 8)) (7 - i mod 8)"
  proof (cases "i div 4 mod 2 = 1")
    case True
    then have "i mod 8 = 4 + i mod 4" using m8 by simp
    moreover have "3 - i mod 4 < 4" by simp
    ultimately show ?thesis using nth True by (simp add: bit_low)
  next
    case False
    then have "i mod 8 = i mod 4" using m8 by simp
    then have "3 - i mod 4 + 4 = 7 - i mod 8" using mod_less_divisor [of 4 i] by linarith
    then show ?thesis using nth False by (simp add: bit_high)
  qed
  then show ?thesis
    using j lt b1 [of "7 - i mod 8"] by (simp add: path_get_bit_def vec_index_def Let_def)
qed

section \<open>Iterators are suffixes of a list\<close>

definition iter_ok :: "NibbleIterator \<Rightarrow> bool" where
  "iter_ok it \<longleftrightarrow> path_ok (ni_path it) \<and> ni_start it \<le> pos_start it \<and> pos_start it \<le> pos_end it \<and>
     pos_end it \<le> num_nibbles (ni_path it)"

definition rest :: "NibbleIterator \<Rightarrow> Nibble list" where
  "rest it = drop (pos_start it) (take (pos_end it) (nibbles_of (ni_path it)))"

definition seen :: "NibbleIterator \<Rightarrow> Nibble list" where
  "seen it = drop (ni_start it) (take (pos_start it) (nibbles_of (ni_path it)))"

lemma rest_Cons:
  "iter_ok it \<Longrightarrow> pos_start it < pos_end it \<Longrightarrow>
    rest it = nibbles_of (ni_path it) ! pos_start it # rest (it\<lparr>pos_start := pos_start it + 1\<rparr>)"
  by (simp add: rest_def iter_ok_def Cons_nth_drop_Suc [symmetric])

lemma rest_Nil: "iter_ok it \<Longrightarrow> rest it = [] \<longleftrightarrow> \<not> pos_start it < pos_end it"
  by (auto simp: rest_def iter_ok_def)

lemma nibble_next_eq:
  assumes "iter_ok it"
  shows "nibble_next it = Inr (case rest it of [] \<Rightarrow> (None, it)
    | x # _ \<Rightarrow> (Some x, it\<lparr>pos_start := pos_start it + 1\<rparr>))"
  using assms rest_Cons [OF assms] rest_Nil [OF assms]
  by (auto simp: nibble_next_def iter_ok_def path_get_nibble_eq)

lemma nibble_peek_eq:
  assumes "iter_ok it"
  shows "nibble_peek it = Inr (case rest it of [] \<Rightarrow> None | x # _ \<Rightarrow> Some x)"
  using assms rest_Cons [OF assms] rest_Nil [OF assms]
  by (auto simp: nibble_peek_def iter_ok_def path_get_nibble_eq)

lemma iter_ok_step: "iter_ok it \<Longrightarrow> rest it \<noteq> [] \<Longrightarrow> iter_ok (it\<lparr>pos_start := pos_start it + 1\<rparr>)"
  by (auto simp: rest_Nil) (auto simp: iter_ok_def)

lemma rest_step: "iter_ok it \<Longrightarrow> rest it = x # xs \<Longrightarrow> rest (it\<lparr>pos_start := pos_start it + 1\<rparr>) = xs"
  using rest_Cons [of it] rest_Nil [of it] by auto

lemma path_nibbles_ok:
  "path_ok p \<Longrightarrow> iter_ok (path_nibbles p) \<and> rest (path_nibbles p) = nibbles_of p"
  by (simp add: iter_ok_def rest_def path_nibbles_def nibble_iterator_new_def)

lemma nibble_collect_eq: "iter_ok it \<Longrightarrow> nibble_collect it = Inr (rest it)"
proof -
  assume ok: "iter_ok it"
  then have "nibble_collect it = Inr (map (nth (nibbles_of (ni_path it))) [pos_start it..<pos_end it])"
    unfolding nibble_collect_def
    by (intro omap_Inr) (auto simp: iter_ok_def path_get_nibble_eq)
  then show ?thesis using ok by (simp add: rest_def map_nth_upt iter_ok_def)
qed

fun common :: "'a list \<Rightarrow> 'a list \<Rightarrow> nat" where
  "common (x # xs) (y # ys) = (if x = y then Suc (common xs ys) else 0)"
| "common _ _ = 0"

text \<open>\<open>skip_common_prefix\<close> advances both iterators by the length of the longest common prefix.\<close>

lemma skip_common_prefix_eq:
  assumes "iter_ok x" "iter_ok y"
  shows "(skip_common_prefix x y :: (nat \<times> NibbleIterator \<times> NibbleIterator, 'e) outcome) =
    Inr (common (rest x) (rest y),
    x\<lparr>pos_start := pos_start x + common (rest x) (rest y)\<rparr>,
    y\<lparr>pos_start := pos_start y + common (rest x) (rest y)\<rparr>)"
  using assms
proof (induction "length (rest x)" arbitrary: x y rule: less_induct)
  case less
  show ?case
  proof (cases "rest x = [] \<or> rest y = [] \<or> hd (rest x) \<noteq> hd (rest y)")
    case True
    then have "common (rest x) (rest y) = 0" by (cases "rest x"; cases "rest y") auto
    then show ?thesis
      using True less.prems
      by (subst skip_common_prefix.simps) (auto simp: nibble_peek_eq split: list.splits)
  next
    case False
    then obtain a as bs where r: "rest x = a # as" "rest y = a # bs"
      by (cases "rest x"; cases "rest y") auto
    let ?x = "x\<lparr>pos_start := pos_start x + 1\<rparr>" and ?y = "y\<lparr>pos_start := pos_start y + 1\<rparr>"
    have ok: "iter_ok ?x" "iter_ok ?y" "rest ?x = as" "rest ?y = bs"
      using less.prems r iter_ok_step rest_step by simp_all
    have "(skip_common_prefix ?x ?y :: (nat \<times> NibbleIterator \<times> NibbleIterator, 'e) outcome) =
        Inr (common as bs, ?x\<lparr>pos_start := pos_start ?x + common as bs\<rparr>,
        ?y\<lparr>pos_start := pos_start ?y + common as bs\<rparr>)"
      using less.hyps [of ?x ?y] ok r by simp
    then show ?thesis
      using r less.prems
      by (subst skip_common_prefix.simps) (simp add: nibble_peek_eq nibble_next_eq)
  qed
qed


lemma get_nibble_path_eq:
  assumes "iter_ok it"
  shows "\<exists>q. get_nibble_path it = (Inr q :: (NibblePath, 'e) outcome) \<and> path_ok q \<and>
    nibbles_of q = seen it @ rest it"
proof -
  have ok: "iter_ok (visited_nibbles it)" "iter_ok (remaining_nibbles it)"
    "rest (visited_nibbles it) = seen it" "rest (remaining_nibbles it) = rest it"
    using assms by (auto simp: iter_ok_def visited_nibbles_def remaining_nibbles_def
        nibble_iterator_new_def rest_def seen_def)
  have "length (seen it @ rest it) \<le> ROOT_NIBBLE_HEIGHT"
    using assms by (auto simp: iter_ok_def seen_def rest_def path_ok_def)
  moreover have "\<forall>x \<in> set (seen it @ rest it). x < 16"
    by (auto simp: seen_def rest_def dest!: in_set_dropD in_set_takeD dest: nibbles_of_less)
  ultimately obtain q where
    "path_from_iter (seen it @ rest it) = (Inr q :: (NibblePath, 'e) outcome)" "path_ok q"
    "nibbles_of q = seen it @ rest it"
    using path_from_iter_eq by blast
  then show ?thesis
    by (simp add: get_nibble_path_def nibble_collect_eq [OF ok(1)] nibble_collect_eq [OF ok(2)] ok(3,4))
qed

text \<open>
  C28: A nibble path is its list of nibbles: on a well-formed path, rebuilding the path from its
  nibbles gives it back, pushing a nibble below the height limit appends it and popping it off
  again restores the path exactly, popping an empty path gives nothing, \<^verbatim>\<open>last\<close> is the last
  nibble, reading past the end panics, pushing onto a full path panics, and nibble and bit reads
  are the list's entries.\<close>

theorem nibble_path_roundtrip:
  assumes "path_ok p"
  shows "path_from_iter (nibbles_of p) = (Inr p :: (NibblePath, unit) outcome) \<and>
    (\<forall>x. num_nibbles p < ROOT_NIBBLE_HEIGHT \<and> x < 16 \<longrightarrow>
       (\<exists>q. path_push p x = (Inr q :: (NibblePath, unit) outcome) \<and> path_ok q \<and>
          nibbles_of q = nibbles_of p @ [x] \<and>
          path_pop q = (Inr (Some x, p) :: (Nibble option \<times> NibblePath, unit) outcome))) \<and>
    (nibbles_of p = [] \<longrightarrow> path_pop p = (Inr (None, p) :: (Nibble option \<times> NibblePath, unit) outcome)) \<and>
    path_last p = (Inr (if nibbles_of p = [] then None else Some (last (nibbles_of p)))
      :: (Nibble option, unit) outcome) \<and>
    (\<forall>i. path_get_nibble p i = (if i < num_nibbles p then Inr (nibbles_of p ! i) else Inl Panic
      :: (Nibble, unit) outcome)) \<and>
    (\<forall>x. num_nibbles p = ROOT_NIBBLE_HEIGHT \<longrightarrow>
       path_push p x = (Inl Panic :: (NibblePath, unit) outcome)) \<and>
    (\<forall>i < 4 * num_nibbles p. path_get_bit p i =
       (Inr (bit (nibbles_of p ! (i div 4)) (3 - i mod 4)) :: (bool, unit) outcome))"
proof -
  have pop: "\<exists>q. path_push p x = (Inr q :: (NibblePath, unit) outcome) \<and> path_ok q \<and>
      nibbles_of q = nibbles_of p @ [x] \<and>
      path_pop q = (Inr (Some x, p) :: (Nibble option \<times> NibblePath, unit) outcome)"
    if x: "num_nibbles p < ROOT_NIBBLE_HEIGHT" "x < 16" for x
  proof -
    obtain q where q: "path_push p x = (Inr q :: (NibblePath, unit) outcome)" "path_ok q"
      "nibbles_of q = nibbles_of p @ [x]"
      using path_push_eq [OF assms x] by blast
    obtain r where "path_pop q = (Inr (Some x, r) :: (Nibble option \<times> NibblePath, unit) outcome)"
      "path_ok r" "nibbles_of r = nibbles_of p"
      using path_pop_eq [OF q(2)] q(3) by auto
    then show ?thesis using q nibbles_of_inject [OF _ assms] by blast
  qed
  moreover have "path_push p x = (Inl Panic :: (NibblePath, unit) outcome)"
    if "num_nibbles p = ROOT_NIBBLE_HEIGHT" for x
    using that by (simp add: path_push_def)
  ultimately show ?thesis
    by (simp add: path_from_iter_nibbles_of [OF assms] path_pop_empty [OF assms]
        path_last_eq [OF assms] path_get_nibble_eq [OF assms] path_get_nibble_panics
        path_get_bit_eq [OF assms])
qed

theorem nibble_path_roundtrip_witness:
  "path_ok (nibble_path_new [18, 52]) \<and>
   path_from_iter (nibbles_of (nibble_path_new [18, 52])) =
     (Inr (nibble_path_new [18, 52]) :: (NibblePath, unit) outcome)"
proof -
  have "path_ok (nibble_path_new [18, 52])" by (rule path_ok_new) simp
  then show ?thesis using nibble_path_roundtrip [of "nibble_path_new [18, 52]"] by blast
qed

end
