(* ===== verification/Jellyfish_Node.thy ===== *)
theory Jellyfish_Node
  imports Crypto_Hash Nibble_Path
begin

text \<open>
  Nodes of the jellyfish Merkle tree, \<^verbatim>\<open>node_type/mod.rs\<close> of \<^verbatim>\<open>forkable-jellyfish-merkle\<close>:
  internal nodes with up to sixteen children, their bitmaps, their hash as a four-level
  binary tree, the siblings of a child, and the byte encodings. The hashers derived for
  \<^verbatim>\<open>SparseMerkleInternalNode\<close>, \<^verbatim>\<open>SparseMerkleLeafNode\<close> and \<^verbatim>\<open>Blob\<close>, the BCS codec and the raw
  key type come from other crates: they are fields of the parameter \<open>jelly\<close>.

  The hash caches (\<^verbatim>\<open>cached_hash: Cell<Option<HashValue>>\<close>) hold the value of the function they
  cache and are not part of the model. A \<^verbatim>\<open>HashMap<Nibble, Child>\<close> is a map on nibbles; the
  code visits it in an order that does not matter, here the order of the nibbles.
\<close>

section \<open>Definitions\<close>

text \<open>The errors of the crate, the messages left out.\<close>

datatype jelly_error =
    EmptyInput | UnknownTag u8 | NoChildren | ExtraLeaves u16 u16
  | UnexpectedEof | NotEnoughBytes | InvalidHash | InvalidLeaf
  | MissingNode | NodeExists | RanOutOfNibbles | NonRootNull | CyclicGraph
  | ProofTooLong | KeysDiffer | ValueHashesDiffer | ExpectedInclusion | ExpectedNonInclusion
  | NotInSubtree | RootHashesDiffer | KeyMustExist | DuplicatedRetireLog | StaleNodeMissing | UnexpectedNull

type_synonym 'a jelly_result = "('a, jelly_error) outcome"

type_synonym Blob = "u8 list"

record ('k, 'h) LeafNode =
  raw_key :: 'k
  blob_hash :: 'h
  blob :: Blob

text \<open>The code of other crates that this one calls.\<close>

record ('k, 'h) jelly =
  jcrypto :: "'h crypto"
  sparse_internal_hash :: "'h \<Rightarrow> 'h \<Rightarrow> 'h"
  sparse_leaf_hash :: "'h \<Rightarrow> 'h \<Rightarrow> 'h"
  blob_crypto_hash :: "Blob \<Rightarrow> 'h"
  key_hash :: "'k \<Rightarrow> 'h"
  iter_bits :: "'h \<Rightarrow> bool list"
  common_prefix_bits_len :: "'h \<Rightarrow> 'h \<Rightarrow> nat"
  leaf_to_bytes :: "('k, 'h) LeafNode \<Rightarrow> u8 list jelly_result"
  leaf_from_bytes :: "u8 list \<Rightarrow> ('k, 'h) LeafNode jelly_result"

abbreviation placeholder :: "('k, 'h) jelly \<Rightarrow> 'h" where
  "placeholder J \<equiv> SPARSE_MERKLE_PLACEHOLDER_HASH (jcrypto J)"

subsection \<open>Children\<close>

record 'h Child =
  child_hash :: 'h
  child_is_leaf :: bool

definition child_new :: "'h \<Rightarrow> bool \<Rightarrow> 'h Child" where
  "child_new h l = \<lparr>child_hash = h, child_is_leaf = l\<rparr>"

type_synonym 'h Children = "Nibble \<Rightarrow> 'h Child option"

definition all_nibbles :: "Nibble list" where
  "all_nibbles = map word_of_nat [0..<16]"

definition children_iter :: "'h Children \<Rightarrow> (Nibble \<times> 'h Child) list" where
  "children_iter c = List.map_filter (\<lambda>n. map_option (Pair n) (c n)) all_nibbles"

definition num_children :: "'h Children \<Rightarrow> nat" where
  "num_children c = length (children_iter c)"

definition internal_new :: "'h Children \<Rightarrow> 'h Children jelly_result" where
  "internal_new c =
     obind (assert_that (children_iter c \<noteq> [])) (\<lambda>_.
     if num_children c = 1
     then obind (assert_that (\<not> child_is_leaf (snd (hd (children_iter c))))) (\<lambda>_. Inr c)
     else Inr c)"

definition all_child :: "'h Children \<Rightarrow> 'h list" where
  "all_child c = map (\<lambda>(_, ch). child_hash ch) (children_iter c)"

subsection \<open>Bitmaps and hashes\<close>

definition bitmap_step :: "Nibble \<times> 'h Child \<Rightarrow> u16 \<times> u16 \<Rightarrow> u16 \<times> u16" where
  "bitmap_step nc b =
     (fst b OR shl 1 (unat (fst nc)), snd b OR shl (of_bool (child_is_leaf (snd nc))) (unat (fst nc)))"

definition generate_bitmaps :: "'h Children \<Rightarrow> (u16 \<times> u16) jelly_result" where
  "generate_bitmaps c =
     (let (existence, leaf) = fold bitmap_step (children_iter c) (0, 0)
      in obind (assert_that (existence OR leaf = existence)) (\<lambda>_. Inr (existence, leaf)))"

definition range_bitmaps :: "u8 \<Rightarrow> u8 \<Rightarrow> u16 \<times> u16 \<Rightarrow> (u16 \<times> u16) jelly_result" where
  "range_bitmaps start width b =
     obind (assert_that (start < 16 \<and> count_ones width = 1 \<and> start mod width = 0)) (\<lambda>_.
     obind (if width = 16 then Inr 65535
            else obind (assert_that (width \<le> 16)) (\<lambda>_. Inr (shl 1 (unat width) - 1))) (\<lambda>m.
     let msk = shl m (unat start)
     in Inr (fst b AND msk, snd b AND msk)))"

text \<open>\<^verbatim>\<open>self.child(only_child_index)\<close> with its \<^verbatim>\<open>unwrap\<close>.\<close>

definition only_child :: "'h Children \<Rightarrow> u16 \<Rightarrow> 'h jelly_result" where
  "only_child c bm =
     obind (nibble_from (word_of_nat (trailing_zeros bm))) (\<lambda>i.
     obind (expect (c i)) (\<lambda>ch. Inr (child_hash ch)))"

lemma count_ones_0 [simp]: "count_ones (0 :: 'a::len word) = 0"
  by (simp add: count_ones_def)

lemma range_bitmaps_width: "range_bitmaps start width b = Inr r \<Longrightarrow> width \<noteq> 0"
  by (auto simp: range_bitmaps_def)

function merkle_hash ::
  "('k, 'h) jelly \<Rightarrow> 'h Children \<Rightarrow> u8 \<Rightarrow> u8 \<Rightarrow> u16 \<times> u16 \<Rightarrow> 'h jelly_result" where
  "merkle_hash J c start width b =
     obind (range_bitmaps start width b) (\<lambda>r.
     if fst r = 0 then Inr (placeholder J)
     else if count_ones (fst r) = 1 \<and> (snd r \<noteq> 0 \<or> width = 1) then only_child c (fst r)
     else
       obind (merkle_hash J c start (width div 2) b) (\<lambda>left_child.
       obind (merkle_hash J c (start + width div 2) (width div 2) b) (\<lambda>right_child.
       Inr (sparse_internal_hash J left_child right_child))))"
  by pat_completeness auto
termination
proof (relation "measure (\<lambda>(J, c, start, width, b). unat width)", goal_cases)
  case 1
  show ?case by simp
next
  case (2 J c start width b r)
  then have "0 < unat width" using range_bitmaps_width [of start width b r] by (simp add: unat_gt_0)
  then show ?case by (simp add: unat_div)
next
  case (3 J c start width b r x)
  then have "0 < unat width" using range_bitmaps_width [of start width b r] by (simp add: unat_gt_0)
  then show ?case by (simp add: unat_div)
qed

declare merkle_hash.simps [simp del]

definition internal_crypto_hash :: "('k, 'h) jelly \<Rightarrow> 'h Children \<Rightarrow> 'h jelly_result" where
  "internal_crypto_hash J c = obind (generate_bitmaps c) (\<lambda>b. merkle_hash J c 0 16 b)"

definition get_child_and_sibling_half_start :: "Nibble \<Rightarrow> nat \<Rightarrow> u8 \<times> u8" where
  "get_child_and_sibling_half_start n height =
     (let child_half_start = shl 255 height AND n;
          sibling_half_start = child_half_start XOR shl 1 height
      in (child_half_start, sibling_half_start))"

text \<open>The loop over the nibble heights 3 to 0.\<close>

fun child_with_siblings_loop ::
  "('k, 'h) jelly \<Rightarrow> 'h Children \<Rightarrow> Nibble \<Rightarrow> u16 \<times> u16 \<Rightarrow> nat list \<Rightarrow> 'h list
    \<Rightarrow> ('h option \<times> 'h list) jelly_result" where
  "child_with_siblings_loop J c n b [] siblings = Inl Panic"
| "child_with_siblings_loop J c n b (h # hs) siblings =
     (let width = shl 1 h;
          (child_half_start, sibling_half_start) = get_child_and_sibling_half_start n h
      in obind (merkle_hash J c sibling_half_start width b) (\<lambda>sibling.
         obind (range_bitmaps child_half_start width b) (\<lambda>r.
         if fst r = 0 then Inr (None, siblings @ [sibling])
         else if count_ones (fst r) = 1 \<and> (count_ones (snd r) = 1 \<or> width = 1)
         then obind (only_child c (fst r)) (\<lambda>k. Inr (Some k, siblings @ [sibling]))
         else child_with_siblings_loop J c n b hs (siblings @ [sibling]))))"

definition get_child_with_siblings ::
  "('k, 'h) jelly \<Rightarrow> 'h Children \<Rightarrow> Nibble \<Rightarrow> ('h option \<times> 'h list) jelly_result" where
  "get_child_with_siblings J c n =
     obind (generate_bitmaps c) (\<lambda>b. child_with_siblings_loop J c n b (rev [0..<4]) [])"

subsection \<open>Nodes\<close>

definition leaf_new :: "('k, 'h) jelly \<Rightarrow> 'k \<Rightarrow> Blob \<Rightarrow> ('k, 'h) LeafNode" where
  "leaf_new J k v = \<lparr>raw_key = k, blob_hash = blob_crypto_hash J v, blob = v\<rparr>"

definition leaf_crypto_hash :: "('k, 'h) jelly \<Rightarrow> ('k, 'h) LeafNode \<Rightarrow> 'h" where
  "leaf_crypto_hash J l = sparse_leaf_hash J (key_hash J (raw_key l)) (blob_hash l)"

datatype ('k, 'h) Node = Null | Internal "'h Children" | Leaf "('k, 'h) LeafNode"

fun node_is_leaf :: "('k, 'h) Node \<Rightarrow> bool" where
  "node_is_leaf (Leaf _) = True"
| "node_is_leaf _ = False"

fun node_hash :: "('k, 'h) jelly \<Rightarrow> ('k, 'h) Node \<Rightarrow> 'h jelly_result" where
  "node_hash J Null = Inr (placeholder J)"
| "node_hash J (Internal c) = internal_crypto_hash J c"
| "node_hash J (Leaf l) = Inr (leaf_crypto_hash J l)"

subsection \<open>Encodings\<close>

definition u16_le :: "u16 \<Rightarrow> u8 list" where
  "u16_le w = [ucast w, ucast (shr w 8)]"

fun read_u16 :: "u8 list \<Rightarrow> (u16 \<times> u8 list) jelly_result" where
  "read_u16 (a # b # ds) = Inr (ucast a OR shl (ucast b) 8, ds)"
| "read_u16 _ = Inl (Err UnexpectedEof)"

text \<open>One round of the loops per set bit, lowest first; \<open>n\<close> rounds.\<close>

fun serialize_children :: "('k, 'h) jelly \<Rightarrow> 'h Children \<Rightarrow> nat \<Rightarrow> u16 \<Rightarrow> u8 list jelly_result" where
  "serialize_children J c 0 bm = Inr []"
| "serialize_children J c (Suc n) bm =
     (let next_child = word_of_nat (trailing_zeros bm) :: u8
      in obind (nibble_from next_child) (\<lambda>i.
         obind (expect (c i)) (\<lambda>ch.
         obind (serialize_children J c n (bm AND NOT (shl 1 (unat next_child)))) (\<lambda>out.
         Inr (to_vec (jcrypto J) (child_hash ch) @ out)))))"

definition internal_serialize :: "('k, 'h) jelly \<Rightarrow> 'h Children \<Rightarrow> u8 list jelly_result" where
  "internal_serialize J c =
     obind (generate_bitmaps c) (\<lambda>(existence, leaf).
     obind (serialize_children J c (count_ones existence) existence) (\<lambda>out.
     Inr (u16_le existence @ u16_le leaf @ out)))"

fun deserialize_children ::
  "('k, 'h) jelly \<Rightarrow> u16 \<Rightarrow> nat \<Rightarrow> u16 \<Rightarrow> 'h Children \<Rightarrow> u8 list \<Rightarrow> (u16 \<times> 'h Children) jelly_result" where
  "deserialize_children J leaf 0 bm c data = Inr (bm, c)"
| "deserialize_children J leaf (Suc n) bm c data =
     (let next_child = word_of_nat (trailing_zeros bm) :: u8
      in obind (ensure (HASH_LENGTH \<le> length data) NotEnoughBytes) (\<lambda>_.
         let child_bit = shl 1 (unat next_child)
         in obind (nibble_from next_child) (\<lambda>i.
            obind (ok_or (from_slice (jcrypto J) (take HASH_LENGTH data)) InvalidHash) (\<lambda>h.
            deserialize_children J leaf n (bm AND NOT child_bit)
              (c(i \<mapsto> child_new h (leaf AND child_bit \<noteq> 0))) (drop HASH_LENGTH data)))))"

definition internal_deserialize :: "('k, 'h) jelly \<Rightarrow> u8 list \<Rightarrow> 'h Children jelly_result" where
  "internal_deserialize J data =
     obind (read_u16 data) (\<lambda>(existence, data).
     obind (read_u16 data) (\<lambda>(leaf, data).
     if existence = 0 then Inl (Err NoChildren)
     else if existence AND leaf \<noteq> leaf then Inl (Err (ExtraLeaves existence leaf))
     else obind (deserialize_children J leaf (count_ones existence) existence Map.empty data)
       (\<lambda>(bm, c). obind (assert_that (bm = 0)) (\<lambda>_. internal_new c))))"

fun node_encode :: "('k, 'h) jelly \<Rightarrow> ('k, 'h) Node \<Rightarrow> u8 list jelly_result" where
  "node_encode J Null = Inr [0]"
| "node_encode J (Internal c) = obind (internal_serialize J c) (\<lambda>out. Inr (1 # out))"
| "node_encode J (Leaf l) = obind (leaf_to_bytes J l) (\<lambda>out. Inr (2 # out))"

fun node_decode :: "('k, 'h) jelly \<Rightarrow> u8 list \<Rightarrow> ('k, 'h) Node jelly_result" where
  "node_decode J [] = Inl (Err EmptyInput)"
| "node_decode J (tag # val) =
     (if tag = 0 then Inr Null
      else if tag = 1 then obind (internal_deserialize J val) (\<lambda>c. Inr (Internal c))
      else if tag = 2 then obind (leaf_from_bytes J val) (\<lambda>l. Inr (Leaf l))
      else Inl (Err (UnknownTag tag)))"

text \<open>Variable-length integers: seven bits a byte, the ninth byte raw.\<close>

fun varint_bytes :: "nat \<Rightarrow> u64 \<Rightarrow> u8 list jelly_result" where
  "varint_bytes 0 num =
     obind (assert_that (num \<noteq> 0)) (\<lambda>_.
     obind (assert_that (num \<le> 255)) (\<lambda>_. Inr [ucast num]))"
| "varint_bytes (Suc n) num =
     (let low_bits = ucast num AND 127 :: u8;
          num = shr num 7;
          more = of_bool (num > 0) :: u8
      in if more = 0 then Inr [low_bits OR shl more 7]
         else obind (varint_bytes n num) (\<lambda>out. Inr ((low_bits OR shl more 7) # out)))"

definition serialize_u64_varint :: "u64 \<Rightarrow> u8 list jelly_result" where
  "serialize_u64_varint num = varint_bytes 8 num"

fun read_varint :: "nat \<Rightarrow> nat \<Rightarrow> u64 \<Rightarrow> u8 list \<Rightarrow> (u64 \<times> u8 list) jelly_result" where
  "read_varint i n num [] = Inl (Err UnexpectedEof)"
| "read_varint i 0 num (byte # ds) = Inr (num OR shl (ucast byte) 56, ds)"
| "read_varint i (Suc n) num (byte # ds) =
     (let more = (byte AND 128 \<noteq> 0);
          num = num OR shl (ucast (byte AND 127)) (i * 7)
      in if \<not> more then Inr (num, ds) else read_varint (Suc i) n num ds)"

definition deserialize_u64_varint :: "u8 list \<Rightarrow> (u64 \<times> u8 list) jelly_result" where
  "deserialize_u64_varint data = read_varint 0 8 0 data"


section \<open>Bitmaps as sets of indices\<close>

abbreviation nib :: "nat \<Rightarrow> Nibble" where
  "nib i \<equiv> word_of_nat i"

definition indices :: "u16 \<Rightarrow> nat list" where
  "indices bm = filter (bit bm) [0..<16]"

lemma count_ones_indices: "count_ones bm = length (indices bm)"
  by (simp add: count_ones_def indices_def)

lemma indices_Nil [simp]: "indices bm = [] \<longleftrightarrow> bm = 0"
  by (auto simp: indices_def filter_empty_conv intro!: bit_word_eqI)

lemma set_indices: "i \<in> set (indices bm) \<longleftrightarrow> bit bm i"
  using bit_imp_le_length [of bm i] by (auto simp: indices_def)

lemma filter_upt_first:
  assumes "k < n" "P k" "\<And>i. i < k \<Longrightarrow> \<not> P i"
  shows "filter P [0..<n] = k # filter (\<lambda>i. P i \<and> i \<noteq> k) [0..<n]"
proof -
  have "[0..<n] = [0..<k] @ k # [Suc k..<n]"
    using assms(1) by (metis le0 le_add_diff_inverse less_imp_le_nat upt_add_eq_append upt_conv_Cons)
  moreover have "filter P [0..<k] = []" "filter (\<lambda>i. P i \<and> i \<noteq> k) [0..<k] = []"
    using assms(3) by (auto simp: filter_empty_conv)
  moreover have "filter (\<lambda>i. P i \<and> i \<noteq> k) [Suc k..<n] = filter P [Suc k..<n]"
    by (rule filter_cong) auto
  ultimately show ?thesis using assms(2) by simp
qed

text \<open>The lowest set bit is the first index, and clearing it leaves the others.\<close>

lemma indices_step:
  assumes "bm \<noteq> 0"
  shows "trailing_zeros bm < 16 \<and> bit bm (trailing_zeros bm) \<and>
    indices bm = trailing_zeros bm # indices (bm AND NOT (shl 1 (trailing_zeros bm)))"
proof -
  have "\<exists>n. bit bm n" using assms by (metis bit_0_eq bit_word_eqI bot_apply bot_bool_def)
  then obtain n where n: "bit bm n" "\<And>i. i < n \<Longrightarrow> \<not> bit bm i"
    using exists_least_iff [of "bit bm"] by auto
  have lt: "n < 16" using bit_imp_le_length [OF n(1)] by simp
  have t: "trailing_zeros bm = n" by (rule trailing_zeros_eqI) (use n lt in auto)
  have "bit (bm AND NOT (shl 1 n)) i \<longleftrightarrow> bit bm i \<and> i \<noteq> n" for i
    using lt by (auto simp: bit_and_iff bit_not_iff shl_one bit_exp_iff dest: bit_imp_le_length)
  then have "indices (bm AND NOT (shl 1 n)) = filter (\<lambda>i. bit bm i \<and> i \<noteq> n) [0..<16]"
    unfolding indices_def by (intro filter_cong refl)
  then show ?thesis
    using filter_upt_first [of n 16 "bit bm"] n lt t unfolding indices_def by simp
qed

lemma unat_nib: "i < 16 \<Longrightarrow> unat (nib i) = i"
  by (simp add: unat_of_nat_eq)

lemma nib_less: "i < 16 \<Longrightarrow> nib i < 16"
  by (simp add: word_less_nat_alt unat_nib)

lemma nib_unat [simp]: "nib (unat n) = n"
  by simp

lemma nib_inject: "i < 16 \<Longrightarrow> j < 16 \<Longrightarrow> nib i = nib j \<longleftrightarrow> i = j"
  using unat_nib by metis

lemma unat_less_16: "n < 16 \<Longrightarrow> unat (n :: u8) < 16"
  by (simp add: word_less_nat_alt)

section \<open>Bitmaps of a node\<close>

definition children_ok :: "'h Children \<Rightarrow> bool" where
  "children_ok c \<longleftrightarrow> (\<forall>n. c n \<noteq> None \<longrightarrow> n < 16)"

lemma set_all_nibbles: "set all_nibbles = {n. n < 16}"
proof -
  have "n \<in> nib ` {0..<16}" if "n < 16" for n
    using unat_less_16 [OF that] by (intro image_eqI [of _ _ "unat n"]) auto
  then show ?thesis by (auto simp: all_nibbles_def nib_less)
qed

lemma set_children_iter: "(n, ch) \<in> set (children_iter c) \<longleftrightarrow> n < 16 \<and> c n = Some ch"
  by (force simp: children_iter_def List.map_filter_def set_all_nibbles)

lemma children_iter_Nil: "children_ok c \<Longrightarrow> children_iter c = [] \<longleftrightarrow> c = Map.empty"
proof -
  assume ok: "children_ok c"
  have "c n = None" if "children_iter c = []" for n
  proof (cases "c n")
    case (Some ch)
    then have "(n, ch) \<in> set (children_iter c)"
      using ok by (auto simp: set_children_iter children_ok_def)
    then show ?thesis using that by simp
  qed
  then have "c = Map.empty" if "children_iter c = []" using that by (intro ext)
  moreover have "children_iter (Map.empty :: 'a Children) = []"
    by (simp add: children_iter_def List.map_filter_def)
  ultimately show ?thesis by (cases "children_iter c = []") auto
qed

lemma bit_fold_bitmap:
  assumes "\<forall>(n, ch) \<in> set xs. n < 16"
  shows "(bit (fst (fold bitmap_step xs b)) i \<longleftrightarrow> bit (fst b) i \<or> (\<exists>(n, ch) \<in> set xs. unat n = i)) \<and>
    (bit (snd (fold bitmap_step xs b)) i \<longleftrightarrow>
      bit (snd b) i \<or> (\<exists>(n, ch) \<in> set xs. unat n = i \<and> child_is_leaf ch))"
  using assms
proof (induction xs arbitrary: b)
  case (Cons x xs)
  obtain n ch where x: "x = (n, ch)" by (cases x)
  have n: "unat n < 16" using Cons.prems x by (auto intro: unat_less_16)
  have one: "bit (shl 1 (unat n) :: u16) i \<longleftrightarrow> unat n = i"
    using n by (auto simp: shl_one bit_exp_iff)
  have lf: "bit (shl (of_bool q) (unat n) :: u16) i \<longleftrightarrow> unat n = i \<and> q" for q
    using n one by (cases q) (auto simp: shl_def)
  show ?case using Cons.IH [of "bitmap_step x b"] Cons.prems one lf [of "child_is_leaf ch"]
    by (auto simp: x bitmap_step_def bit_or_iff)
qed auto

lemma generate_bitmaps_eq:
  "\<exists>e l. generate_bitmaps c = Inr (e, l) \<and>
    (\<forall>i. bit e i \<longleftrightarrow> i < 16 \<and> c (nib i) \<noteq> None) \<and>
    (\<forall>i. bit l i \<longleftrightarrow> i < 16 \<and> (\<exists>ch. c (nib i) = Some ch \<and> child_is_leaf ch))"
proof -
  obtain e l where f: "fold bitmap_step (children_iter c) (0, 0) = (e, l)" by fastforce
  have lt: "\<forall>(n, ch) \<in> set (children_iter c). n < 16" by (auto simp: set_children_iter)
  have ex: "(\<exists>(n, ch) \<in> set (children_iter c). unat n = i \<and> Q ch) \<longleftrightarrow>
      i < 16 \<and> (\<exists>ch. c (nib i) = Some ch \<and> Q ch)" for i Q
  proof
    assume "i < 16 \<and> (\<exists>ch. c (nib i) = Some ch \<and> Q ch)"
    then obtain ch where "i < 16" "(nib i, ch) \<in> set (children_iter c)" "Q ch"
      by (auto simp: set_children_iter nib_less)
    then show "\<exists>(n, ch) \<in> set (children_iter c). unat n = i \<and> Q ch"
      using unat_nib [of i] by (intro bexI [of _ "(nib i, ch)"]) simp_all
  qed (auto simp: set_children_iter unat_less_16)
  have e: "bit e i \<longleftrightarrow> i < 16 \<and> c (nib i) \<noteq> None" for i
    using bit_fold_bitmap [OF lt, of "(0, 0)" i] f ex [of i "\<lambda>_. True"] by auto
  have l: "bit l i \<longleftrightarrow> i < 16 \<and> (\<exists>ch. c (nib i) = Some ch \<and> child_is_leaf ch)" for i
    using bit_fold_bitmap [OF lt, of "(0, 0)" i] f ex [of i child_is_leaf] by auto
  have "e OR l = e" by (rule bit_word_eqI) (auto simp: bit_or_iff e l)
  then show ?thesis using f e l by (auto simp: generate_bitmaps_def)
qed


section \<open>The encoding of an internal node\<close>

lemma serialize_children_eq:
  assumes "\<forall>i \<in> set (indices bm). c (nib i) \<noteq> None"
  shows "serialize_children J c (length (indices bm)) bm =
    Inr (concat (map (\<lambda>i. to_vec (jcrypto J) (child_hash (the (c (nib i))))) (indices bm)))"
  using assms
proof (induction "indices bm" arbitrary: bm)
  case (Cons i is')
  then have ne: "bm \<noteq> 0" by (metis indices_Nil list.distinct(1))
  note st = indices_step [OF ne]
  let ?t = "trailing_zeros bm"
  let ?bm = "bm AND NOT (shl 1 ?t)"
  have IH: "serialize_children J c (length (indices ?bm)) ?bm =
      Inr (concat (map (\<lambda>i. to_vec (jcrypto J) (child_hash (the (c (nib i))))) (indices ?bm)))"
    using Cons.hyps(1) [of ?bm] Cons.hyps(2) Cons.prems st by auto
  obtain ch where "c (nib ?t) = Some ch" using Cons.prems st by auto
  moreover have "unat (nib ?t) = ?t" "nib ?t < 16" using st by (simp_all add: unat_nib nib_less)
  ultimately have "serialize_children J c (Suc (length (indices ?bm))) bm =
      Inr (concat (map (\<lambda>i. to_vec (jcrypto J) (child_hash (the (c (nib i))))) (?t # indices ?bm)))"
    using IH by (simp add: Let_def)
  then show ?case using st by (metis length_Cons)
qed simp

lemma bit_shl_one: "i < 16 \<Longrightarrow> bit (shl 1 i :: u16) j \<longleftrightarrow> j = i"
  by (auto simp: shl_one bit_exp_iff)

lemma and_shl_one: "i < 16 \<Longrightarrow> w AND shl 1 i \<noteq> 0 \<longleftrightarrow> bit w i" for w :: u16
proof -
  assume i: "i < 16"
  have "bit (w AND shl 1 i) j \<longleftrightarrow> bit w j \<and> j = i" for j
    using i by (simp add: bit_and_iff bit_shl_one)
  then show ?thesis by (metis bit_0_eq bit_word_eqI bot_apply bot_bool_def)
qed

lemma deserialize_children_eq:
  assumes "crypto_ok (jcrypto J)"
  shows "deserialize_children J leaf (length (indices bm)) bm c
      (concat (map (\<lambda>i. to_vec (jcrypto J) (h i)) (indices bm)) @ ds) =
    Inr (0, \<lambda>n. if n < 16 \<and> bit bm (unat n) then Some (child_new (h (unat n)) (bit leaf (unat n))) else c n)"
proof (induction "indices bm" arbitrary: bm c)
  case Nil
  then have "bm = 0" by (metis indices_Nil)
  then show ?case by (simp add: indices_def)
next
  case (Cons i is')
  then have ne: "bm \<noteq> 0" by (metis indices_Nil list.distinct(1))
  note st = indices_step [OF ne]
  let ?t = "trailing_zeros bm"
  let ?bm = "bm AND NOT (shl 1 ?t)"
  let ?c = "c(nib ?t \<mapsto> child_new (h ?t) (bit leaf ?t))"
  let ?d = "concat (map (\<lambda>i. to_vec (jcrypto J) (h i)) (indices ?bm)) @ ds"
  have t: "unat (nib ?t) = ?t" "nib ?t < 16" "?t < 16" using st by (simp_all add: unat_nib nib_less)
  have slice: "from_slice (jcrypto J) (to_vec (jcrypto J) (h ?t)) = Some (h ?t)"
    "length (to_vec (jcrypto J) (h ?t)) = HASH_LENGTH"
    using assms by (simp_all add: crypto_ok_def)
  have "deserialize_children J leaf (Suc (length (indices ?bm))) bm c (to_vec (jcrypto J) (h ?t) @ ?d) =
      deserialize_children J leaf (length (indices ?bm)) ?bm ?c ?d"
    using t slice and_shl_one [of ?t leaf] by (simp add: Let_def)
  also have "\<dots> = Inr (0, \<lambda>n. if n < 16 \<and> bit ?bm (unat n)
      then Some (child_new (h (unat n)) (bit leaf (unat n))) else ?c n)"
    using Cons.hyps(1) [of ?bm ?c] Cons.hyps(2) st by simp
  also have "(\<lambda>n. if n < 16 \<and> bit ?bm (unat n)
      then Some (child_new (h (unat n)) (bit leaf (unat n))) else ?c n) =
    (\<lambda>n. if n < 16 \<and> bit bm (unat n) then Some (child_new (h (unat n)) (bit leaf (unat n))) else c n)"
  proof
    fix n :: Nibble
    have "bit ?bm (unat n) \<longleftrightarrow> bit bm (unat n) \<and> unat n \<noteq> ?t"
      using t(3) by (auto simp: bit_and_iff bit_not_iff shl_one bit_exp_iff dest: bit_imp_le_length)
    moreover have "unat n = ?t \<longleftrightarrow> n = nib ?t" using t(1) by (metis nib_unat)
    ultimately show "(if n < 16 \<and> bit ?bm (unat n)
        then Some (child_new (h (unat n)) (bit leaf (unat n))) else ?c n) =
      (if n < 16 \<and> bit bm (unat n) then Some (child_new (h (unat n)) (bit leaf (unat n))) else c n)"
      using st t by auto
  qed
  finally show ?case using st by (metis (no_types, lifting) append_assoc concat.simps(2) length_Cons list.simps(9))
qed

lemma read_u16_le: "read_u16 (u16_le w @ ds) = Inr (w, ds)"
proof -
  have "ucast (ucast w :: u8) OR shl (ucast (ucast (shr w 8) :: u8)) 8 = w"
    by (rule bit_word_eqI)
      (auto simp: bit_or_iff shl_def shr_def bit_push_bit_iff bit_ucast_iff bit_drop_bit_eq not_less)
  then show ?thesis by (simp add: u16_le_def)
qed

text \<open>What \<^verbatim>\<open>InternalNode::new\<close> accepts.\<close>

definition internal_ok :: "'h Children \<Rightarrow> bool" where
  "internal_ok c \<longleftrightarrow> children_ok c \<and> internal_new c = Inr c"

lemma internal_roundtrip:
  assumes "crypto_ok (jcrypto J)" "internal_ok c"
  shows "\<exists>out. internal_serialize J c = Inr out \<and> internal_deserialize J out = Inr c"
proof -
  obtain e l where el: "generate_bitmaps c = Inr (e, l)"
    "\<And>i. bit e i \<longleftrightarrow> i < 16 \<and> c (nib i) \<noteq> None"
    "\<And>i. bit l i \<longleftrightarrow> i < 16 \<and> (\<exists>ch. c (nib i) = Some ch \<and> child_is_leaf ch)"
    using generate_bitmaps_eq [of c] by blast
  let ?h = "\<lambda>i. child_hash (the (c (nib i)))"
  let ?d = "concat (map (\<lambda>i. to_vec (jcrypto J) (?h i)) (indices e))"
  have ser: "internal_serialize J c = Inr (u16_le e @ u16_le l @ ?d)"
    using serialize_children_eq [of e c J] el(2)
    by (simp add: internal_serialize_def el(1) count_ones_indices set_indices)
  have ok: "children_ok c" "internal_new c = Inr c" using assms(2) by (simp_all add: internal_ok_def)
  have "e \<noteq> 0"
  proof
    assume "e = 0"
    then have none: "c (nib i) = None" if "i < 16" for i using el(2) [of i] that by simp
    have "c n = None" for n
      using none [of "unat n"] ok(1) unat_less_16 [of n] by (auto simp: children_ok_def)
    then have "c = Map.empty" by (intro ext)
    then show False using ok children_iter_Nil [of c] by (simp add: internal_new_def)
  qed
  moreover have "e AND l = l" by (rule bit_word_eqI) (auto simp: bit_and_iff el(2,3))
  moreover have "(\<lambda>n. if n < 16 \<and> bit e (unat n) then Some (child_new (?h (unat n)) (bit l (unat n))) else None) = c"
  proof
    fix n
    show "(if n < 16 \<and> bit e (unat n) then Some (child_new (?h (unat n)) (bit l (unat n))) else None) = c n"
      using el(2,3) [of "unat n"] ok(1) unat_less_16 [of n]
      by (cases "c n") (auto simp: child_new_def children_ok_def)
  qed
  ultimately have "internal_deserialize J (u16_le e @ u16_le l @ ?d) = Inr c"
    using deserialize_children_eq [OF assms(1), of l e Map.empty ?h "[]"] ok(2)
    by (simp add: internal_deserialize_def read_u16_le count_ones_indices)
  then show ?thesis using ser by blast
qed


section \<open>Variable-length integers\<close>

lemma bit_127: "bit (127 :: int) i \<longleftrightarrow> i < 7"
proof -
  have "(127 :: int) = Bit_Operations.mask 7" by (simp add: mask_eq_exp_minus_1)
  then show ?thesis by (simp only: bit_mask_iff) auto
qed

lemma bit_128: "bit (128 :: u8) i \<longleftrightarrow> i = 7"
proof -
  have "(128 :: u8) = push_bit 7 1" by (simp add: push_bit_eq_mult)
  then show ?thesis by (simp only: bit_push_bit_iff bit_1_iff) auto
qed

lemma varint_byte:
  fixes num :: u64 and q :: bool
  defines "b \<equiv> ((ucast num AND 127) OR shl (of_bool q) 7 :: u8)"
  shows "b AND 128 \<noteq> 0 \<longleftrightarrow> q" and "b AND 127 = ucast num AND 127"
proof -
  have s: "bit (shl (of_bool q) 7 :: u8) i \<longleftrightarrow> q \<and> i = 7" for i
  proof (cases q)
    case True
    then have "shl (of_bool q) 7 = (128 :: u8)" by (simp add: shl_def)
    then show ?thesis using True bit_128 [of i] by metis
  qed (simp add: shl_def)
  have "bit b 7 \<longleftrightarrow> q" by (simp add: b_def bit_or_iff bit_and_iff s bit_127)
  then have "bit (b AND 128) i \<longleftrightarrow> q \<and> i = 7" for i by (simp only: bit_and_iff bit_128) blast
  then show "b AND 128 \<noteq> 0 \<longleftrightarrow> q" by (metis bit_0_eq bit_word_eqI bot_apply bot_bool_def)
  show "b AND 127 = ucast num AND 127"
    by (rule bit_word_eqI) (auto simp: b_def bit_and_iff bit_or_iff s bit_127)
qed

lemma varint_acc:
  fixes num acc :: u64
  assumes "i < 8"
  shows "acc OR shl (ucast (ucast num AND 127 :: u8)) (i * 7) OR shl (shr num 7) (Suc i * 7) =
    acc OR shl num (i * 7)"
proof (rule bit_word_eqI)
  fix n assume "n < LENGTH(64)"
  then have n: "n < 64" by simp
  have k: "i * 7 < 64" "Suc i * 7 < 64" using assms by auto
  have l: "bit (ucast (ucast num AND 127 :: u8) :: u64) j \<longleftrightarrow> j < 7 \<and> bit num j" for j
    by (auto simp: bit_ucast_iff bit_and_iff bit_127)
  have "bit (shl (shr num 7) (Suc i * 7)) n \<longleftrightarrow> Suc i * 7 \<le> n \<and> bit num (7 + (n - Suc i * 7))"
    using k n by (subst bit_shl) (simp_all add: bit_shr)
  moreover have "7 + (n - Suc i * 7) = n - i * 7" if "Suc i * 7 \<le> n" using that by simp
  ultimately have "bit (shl (shr num 7) (Suc i * 7)) n \<longleftrightarrow> 7 \<le> n - i * 7 \<and> bit num (n - i * 7)"
    using k by auto
  moreover have "bit (shl (ucast (ucast num AND 127 :: u8)) (i * 7) :: u64) n \<longleftrightarrow>
      i * 7 \<le> n \<and> n - i * 7 < 7 \<and> bit num (n - i * 7)"
    using k n by (subst bit_shl) (simp_all only: l, simp_all)
  moreover have "bit (shl num (i * 7)) n \<longleftrightarrow> i * 7 \<le> n \<and> bit num (n - i * 7)"
    using k n by (subst bit_shl) simp_all
  ultimately show "bit (acc OR shl (ucast (ucast num AND 127 :: u8)) (i * 7) OR shl (shr num 7) (Suc i * 7)) n =
      bit (acc OR shl num (i * 7)) n"
    by (auto simp: bit_or_iff)
qed


lemma read_varint_bytes:
  assumes "i + n = 8" "unat num < 2 ^ (64 - 7 * i)" "n = 0 \<Longrightarrow> num \<noteq> 0"
  shows "\<exists>out. varint_bytes n num = Inr out \<and>
    read_varint i n acc (out @ ds) = Inr (acc OR shl num (i * 7), ds)"
  using assms
proof (induction n arbitrary: i num acc)
  case 0
  then have i: "i = 8" and lt: "unat num < 256" and le: "num \<le> 255"
    by (auto simp: word_le_nat_alt)
  then have "unat (ucast (ucast num :: u8) :: u64) = unat num"
    by (simp add: unsigned_ucast_eq take_bit_eq_mod unat_mod)
  then have "ucast (ucast num :: u8) = num" by (rule unsigned_word_eqI)
  then show ?case using 0 le i by simp
next
  case (Suc n)
  have i: "i < 8" "Suc i + n = 8" using Suc.prems(1) by auto
  let ?num = "shr num 7" and ?low = "ucast num AND 127 :: u8"
  have sn: "unat ?num = unat num div 128" by (simp add: shr_def unat_drop_bit_eq drop_bit_eq_div unat_div)
  have byte: "(?low OR shl (of_bool q) 7) AND 128 \<noteq> 0 \<longleftrightarrow> q"
    "(?low OR shl (of_bool q) 7) AND 127 = ?low" for q
    using varint_byte [of num q] by auto
  show ?case
  proof (cases "0 < ?num")
    case True
    have "unat num < 2 ^ (64 - 7 * i)" using Suc.prems(2) .
    also have "(2::nat) ^ (64 - 7 * i) = 2 ^ (64 - 7 * Suc i) * 128"
    proof -
      have "64 - 7 * i = (64 - 7 * Suc i) + 7" using i by auto
      then show ?thesis by (simp only: power_add) simp
    qed
    finally have lt: "unat ?num < 2 ^ (64 - 7 * Suc i)"
      unfolding sn by (simp add: less_mult_imp_div_less)
    have nz: "?num \<noteq> 0" using True by (simp add: word_neq_0_conv)
    obtain out where out: "varint_bytes n ?num = Inr out"
      "read_varint (Suc i) n (acc OR shl (ucast ?low) (i * 7)) (out @ ds) =
        Inr ((acc OR shl (ucast ?low) (i * 7)) OR shl ?num (Suc i * 7), ds)"
      using Suc.IH [OF i(2) lt nz, of "acc OR shl (ucast ?low) (i * 7)"] by (elim exE conjE) rule
    then show ?thesis
      using True byte [of True] varint_acc [OF i(1), of acc num] by (simp add: Let_def or.assoc)
  next
    case False
    then have z: "?num = 0" by (simp add: word_gt_0)
    then have "shl ?num (Suc i * 7) = 0" by (simp add: shl_def)
    then show ?thesis
      using z byte [of False] varint_acc [OF i(1), of acc num] by (simp add: Let_def)
  qed
qed

section \<open>Round trips\<close>

text \<open>
  C32: Every \<^verbatim>\<open>u64\<close> is written as a variable-length integer without a failing assertion, and
  reading the bytes back gives the number and leaves what follows them.\<close>

theorem varint_roundtrip:
  "\<exists>out. serialize_u64_varint num = Inr out \<and>
    deserialize_u64_varint (out @ ds) = Inr (num, ds)"
  using read_varint_bytes [of 0 8 num 0 ds] unsigned_less [of num]
  by (auto simp: serialize_u64_varint_def deserialize_u64_varint_def shl_def)


text \<open>Reading a leaf back through BCS gives the leaf.\<close>

definition bcs_ok :: "('k, 'h) jelly \<Rightarrow> bool" where
  "bcs_ok J \<longleftrightarrow> (\<forall>l out. leaf_to_bytes J l = Inr out \<longrightarrow> leaf_from_bytes J out = Inr l)"

text \<open>
  C25: Node encoding: every node that \<^verbatim>\<open>InternalNode::new\<close> accepts encodes, whatever encodes
  decodes to the node it came from (given that BCS reads back the leaves it writes), and the
  decoder rejects an empty input, an unknown tag, an internal node without children and one
  whose leaf bitmap names children that do not exist. An internal node whose only child is a
  leaf is not among the rejected inputs: \<^verbatim>\<open>InternalNode::new\<close> asserts against it.\<close>

theorem node_codec_roundtrip:
  fixes J :: "('a, 'b) jelly"
  assumes "crypto_ok (jcrypto J)" and "bcs_ok J"
  shows "(\<forall>nd out. (\<forall>c. nd = Internal c \<longrightarrow> internal_ok c) \<longrightarrow> node_encode J nd = Inr out \<longrightarrow>
      node_decode J out = Inr nd) \<and>
    (\<forall>c. internal_ok c \<longrightarrow> (\<exists>out. node_encode J (Internal c) = Inr out)) \<and>
    node_decode J [] = Inl (Err EmptyInput) \<and>
    (\<forall>tag val. tag > 2 \<longrightarrow> node_decode J (tag # val) = Inl (Err (UnknownTag tag))) \<and>
    (\<forall>l ds. node_decode J (1 # u16_le 0 @ u16_le l @ ds) = Inl (Err NoChildren)) \<and>
    (\<forall>e l ds. e \<noteq> 0 \<and> e AND l \<noteq> l \<longrightarrow>
      node_decode J (1 # u16_le e @ u16_le l @ ds) = Inl (Err (ExtraLeaves e l)))"
proof (intro conjI allI impI)
  fix nd out
  assume ok: "\<forall>c. nd = Internal c \<longrightarrow> internal_ok c" and enc: "node_encode J nd = Inr out"
  show "node_decode J out = Inr nd"
  proof (cases nd)
    case (Internal c)
    then show ?thesis using internal_roundtrip [OF assms(1), of c] ok enc by auto
  next
    case (Leaf l)
    then show ?thesis using enc assms(2) by (auto simp: bcs_ok_def)
  qed (use enc in auto)
next
  fix c :: "'b Children" assume "internal_ok c"
  then show "\<exists>out. node_encode J (Internal c) = Inr out"
    using internal_roundtrip [OF assms(1), of c] by auto
next
  fix tag :: u8 and val assume "tag > 2"
  then have "tag \<noteq> 0" "tag \<noteq> 1" "tag \<noteq> 2" by (auto simp: word_less_nat_alt)
  then show "node_decode J (tag # val) = Inl (Err (UnknownTag tag))" by simp
qed (simp_all add: internal_deserialize_def read_u16_le)

text \<open>A concrete instance: a leaf is encoded as its key and value bytes.\<close>

definition sample_jelly :: "(hash256, hash256) jelly" where
  "sample_jelly =
     \<lparr>jcrypto = word_crypto,
      sparse_internal_hash = (\<lambda>a b. 3 * a + 5 * b + 1),
      sparse_leaf_hash = (\<lambda>k v. 7 * k + 11 * v + 2),
      blob_crypto_hash = (\<lambda>b. foldl (\<lambda>a x. a * 257 + ucast x + 1) 7 b),
      key_hash = (\<lambda>k. k),
      iter_bits = (\<lambda>h. concat (map nibble_bits (unpack (hash256_to_vec h)))),
      common_prefix_bits_len = (\<lambda>a b. common (concat (map nibble_bits (unpack (hash256_to_vec a))))
        (concat (map nibble_bits (unpack (hash256_to_vec b))))),
      leaf_to_bytes = (\<lambda>l. Inr (hash256_to_vec (raw_key l) @ hash256_to_vec (blob_hash l) @ blob l)),
      leaf_from_bytes = (\<lambda>b.
        case (hash256_from_slice (take 32 b), hash256_from_slice (take 32 (drop 32 b))) of
          (Some k, Some h) \<Rightarrow> Inr \<lparr>raw_key = k, blob_hash = h, blob = drop 64 b\<rparr>
        | _ \<Rightarrow> Inl (Err InvalidLeaf))\<rparr>"

lemma sample_jelly_ok: "crypto_ok (jcrypto sample_jelly)" "bcs_ok sample_jelly"
proof -
  have l: "length (hash256_to_vec w) = 32" "hash256_from_slice (hash256_to_vec w) = Some w" for w
    using word_crypto_ok by (simp_all add: crypto_ok_def word_crypto_def HASH_LENGTH_def)
  show "crypto_ok (jcrypto sample_jelly)" by (simp add: sample_jelly_def word_crypto_ok)
  show "bcs_ok sample_jelly" by (auto simp: bcs_ok_def sample_jelly_def l)
qed

theorem node_codec_roundtrip_witness:
  "node_decode sample_jelly (1 # u16_le 0 @ u16_le 1 @ []) = Inl (Err NoChildren) \<and>
   (\<exists>out. node_encode sample_jelly
      (Internal [3 \<mapsto> child_new 5 True, 9 \<mapsto> child_new 6 False]) = Inr out)"
proof -
  let ?c = "[3 \<mapsto> child_new 5 True, 9 \<mapsto> child_new 6 False] :: hash256 Children"
  have "children_iter ?c = [(3, child_new 5 True), (9, child_new 6 False)]" by code_simp
  then have "internal_new ?c = Inr ?c" by (simp add: internal_new_def num_children_def)
  then have "internal_ok ?c" by (simp add: internal_ok_def children_ok_def)
  then show ?thesis using node_codec_roundtrip [OF sample_jelly_ok] by blast
qed

end
