(* ===== verification/Jellyfish_Tree.thy ===== *)
theory Jellyfish_Tree
  imports Jellyfish_Node
begin

text \<open>
  The jellyfish Merkle tree over a node store: \<^verbatim>\<open>tree_cache/mod.rs\<close>, \<^verbatim>\<open>lib.rs\<close>, \<^verbatim>\<open>proof.rs\<close> and
  \<^verbatim>\<open>mock_tree_store.rs\<close> of \<^verbatim>\<open>forkable-jellyfish-merkle\<close>. The \<^verbatim>\<open>TreeReader\<close> is a function from
  node keys. A tree cache is discarded when a call on it fails, so the operations on it
  return the new cache only with a result. \<open>usize\<close> counters are 64-bit words.
\<close>

section \<open>Stores\<close>

type_synonym ('k, 'h) TreeReader = "'h \<Rightarrow> ('k, 'h) Node option jelly_result"

definition get_node :: "('k, 'h) TreeReader \<Rightarrow> 'h \<Rightarrow> ('k, 'h) Node jelly_result" where
  "get_node R node_key = obind (R node_key) (\<lambda>nd. ok_or nd MissingNode)"

record 'h StaleNodeIndex =
  stale_since_version :: 'h
  stale_node_key :: 'h

record ('k, 'h) TreeUpdateBatch =
  batch_nodes :: "'h \<Rightarrow> ('k, 'h) Node option"
  batch_stale :: "'h StaleNodeIndex set"
  batch_num_new_leaves :: u64
  batch_num_stale_leaves :: u64

text \<open>\<^verbatim>\<open>MockTreeStore\<close>: nodes and stale records.\<close>

record ('k, 'h) MockTreeStore =
  mts_nodes :: "'h \<Rightarrow> ('k, 'h) Node option"
  mts_stale :: "'h StaleNodeIndex set"

definition mts_reader :: "('k, 'h) MockTreeStore \<Rightarrow> ('k, 'h) TreeReader" where
  "mts_reader s node_key = Inr (mts_nodes s node_key)"

definition mts_put_node ::
  "'h \<Rightarrow> ('k, 'h) Node \<Rightarrow> ('k, 'h) MockTreeStore \<Rightarrow> ('k, 'h) MockTreeStore jelly_result" where
  "mts_put_node node_key nd s =
     (case mts_nodes s node_key of
        Some _ \<Rightarrow> Inl (Err NodeExists)
      | None \<Rightarrow> Inr (s\<lparr>mts_nodes := (mts_nodes s)(node_key \<mapsto> nd)\<rparr>))"

section \<open>The tree cache\<close>

record ('k, 'h) FrozenTreeCache =
  fz_node_cache :: "'h \<Rightarrow> ('k, 'h) Node option"
  fz_num_new_leaves :: u64
  fz_stale_node_index_cache :: "'h StaleNodeIndex set"
  fz_num_stale_leaves :: u64
  fz_root_hashes :: "'h list"

definition frozen_default :: "('k, 'h) FrozenTreeCache" where
  "frozen_default = \<lparr>fz_node_cache = Map.empty, fz_num_new_leaves = 0,
     fz_stale_node_index_cache = {}, fz_num_stale_leaves = 0, fz_root_hashes = []\<rparr>"

record ('k, 'h) TreeCache =
  root_node_key :: 'h
  node_cache :: "'h \<Rightarrow> ('k, 'h) Node option"
  num_new_leaves :: u64
  stale_node_index_cache :: "'h set"
  num_stale_leaves :: u64
  frozen_cache :: "('k, 'h) FrozenTreeCache"
  tc_reader :: "('k, 'h) TreeReader"

definition tree_cache_new ::
  "('k, 'h) jelly \<Rightarrow> ('k, 'h) TreeReader \<Rightarrow> 'h option \<Rightarrow> ('k, 'h) TreeCache" where
  "tree_cache_new J R state_root_hash =
     (let (nodes, root) = (case state_root_hash of
            None \<Rightarrow> ([placeholder J \<mapsto> Null], placeholder J)
          | Some r \<Rightarrow> (Map.empty, r))
      in \<lparr>root_node_key = root, node_cache = nodes, num_new_leaves = 0,
          stale_node_index_cache = {}, num_stale_leaves = 0,
          frozen_cache = frozen_default, tc_reader = R\<rparr>)"

definition cache_get_node ::
  "('k, 'h) jelly \<Rightarrow> ('k, 'h) TreeCache \<Rightarrow> 'h \<Rightarrow> ('k, 'h) Node jelly_result" where
  "cache_get_node J c node_key =
     (if node_key = placeholder J then Inr Null
      else case node_cache c node_key of
        Some nd \<Rightarrow> Inr nd
      | None \<Rightarrow> (case fz_node_cache (frozen_cache c) node_key of
          Some nd \<Rightarrow> Inr nd
        | None \<Rightarrow> get_node (tc_reader c) node_key))"

definition put_node ::
  "'h \<Rightarrow> ('k, 'h) Node \<Rightarrow> ('k, 'h) TreeCache \<Rightarrow> ('k, 'h) TreeCache jelly_result" where
  "put_node node_key new_node c =
     (case node_cache c node_key of
        None \<Rightarrow> Inr (c\<lparr>num_new_leaves := num_new_leaves c + (if node_is_leaf new_node then 1 else 0),
                     node_cache := (node_cache c)(node_key \<mapsto> new_node)\<rparr>)
      | Some _ \<Rightarrow> Inl (Err NodeExists))"

definition delete_node ::
  "'h \<Rightarrow> bool \<Rightarrow> ('k, 'h) TreeCache \<Rightarrow> ('k, 'h) TreeCache jelly_result" where
  "delete_node old_node_key is_leaf c =
     (if node_cache c old_node_key = None then
        obind (assert_that (old_node_key \<notin> stale_node_index_cache c)) (\<lambda>_.
        Inr (c\<lparr>stale_node_index_cache := insert old_node_key (stale_node_index_cache c),
              num_stale_leaves := num_stale_leaves c + (if is_leaf then 1 else 0)\<rparr>))
      else
        Inr (c\<lparr>node_cache := (node_cache c)(old_node_key := None),
              num_new_leaves := num_new_leaves c - (if is_leaf then 1 else 0)\<rparr>))"

definition freeze ::
  "('k, 'h) jelly \<Rightarrow> ('k, 'h) TreeCache \<Rightarrow> ('k, 'h) TreeCache jelly_result" where
  "freeze J c =
     (case cache_get_node J c (root_node_key c) of
        Inl _ \<Rightarrow> Inl Panic
      | Inr root \<Rightarrow>
          obind (node_hash J root) (\<lambda>root_hash.
          let f = frozen_cache c
          in Inr (c\<lparr>node_cache := Map.empty,
                stale_node_index_cache := {},
                num_stale_leaves := 0,
                num_new_leaves := 0,
                frozen_cache := f\<lparr>
                  fz_root_hashes := fz_root_hashes f @ [root_hash],
                  fz_node_cache := fz_node_cache f ++ node_cache c,
                  fz_stale_node_index_cache := fz_stale_node_index_cache f \<union>
                    (\<lambda>k. \<lparr>stale_since_version = root_hash, stale_node_key = k\<rparr>) ` stale_node_index_cache c,
                  fz_num_stale_leaves := fz_num_stale_leaves f + num_stale_leaves c,
                  fz_num_new_leaves := fz_num_new_leaves f + num_new_leaves c\<rparr>\<rparr>)))"

definition tree_cache_into ::
  "('k, 'h) TreeCache \<Rightarrow> 'h list \<times> ('k, 'h) TreeUpdateBatch" where
  "tree_cache_into c =
     (fz_root_hashes (frozen_cache c),
      \<lparr>batch_nodes = fz_node_cache (frozen_cache c),
       batch_stale = fz_stale_node_index_cache (frozen_cache c),
       batch_num_new_leaves = fz_num_new_leaves (frozen_cache c),
       batch_num_stale_leaves = fz_num_stale_leaves (frozen_cache c)\<rparr>)"

section \<open>Insertion\<close>

type_synonym ('k, 'h) inserted = "('h \<times> ('k, 'h) Node) \<times> ('k, 'h) TreeCache"

definition create_leaf_node ::
  "('k, 'h) jelly \<Rightarrow> 'k \<Rightarrow> Blob \<Rightarrow> ('k, 'h) TreeCache \<Rightarrow> ('k, 'h) inserted jelly_result" where
  "create_leaf_node J key b c =
     (let new_leaf_node = Leaf (leaf_new J key b)
      in obind (node_hash J new_leaf_node) (\<lambda>node_key.
         obind (put_node node_key new_leaf_node c) (\<lambda>c.
         Inr ((node_key, new_leaf_node), c))))"

text \<open>The chain of internal nodes above a fork: one per nibble of the common path.\<close>

fun extend_internal ::
  "('k, 'h) jelly \<Rightarrow> nat \<Rightarrow> NibblePath \<Rightarrow> 'h Children \<Rightarrow> ('k, 'h) TreeCache
    \<Rightarrow> ('h Children \<times> ('k, 'h) TreeCache) jelly_result" where
  "extend_internal J 0 common_nibble_path next_internal_node c = Inr (next_internal_node, c)"
| "extend_internal J (Suc n) common_nibble_path next_internal_node c =
     obind (path_pop common_nibble_path) (\<lambda>(popped, common_nibble_path).
     obind (expect popped) (\<lambda>nibble.
     obind (internal_crypto_hash J next_internal_node) (\<lambda>h.
     obind (internal_new [nibble \<mapsto> child_new h False]) (\<lambda>internal_node.
     obind (node_hash J (Internal internal_node)) (\<lambda>key.
     obind (put_node key (Internal internal_node) c) (\<lambda>c.
     extend_internal J n common_nibble_path internal_node c))))))"

definition insert_at_leaf_node ::
  "('k, 'h) jelly \<Rightarrow> 'h \<Rightarrow> ('k, 'h) LeafNode \<Rightarrow> NibbleIterator \<Rightarrow> 'k \<Rightarrow> Blob option
    \<Rightarrow> ('k, 'h) TreeCache \<Rightarrow> ('k, 'h) inserted jelly_result" where
  "insert_at_leaf_node J node_key existing_leaf_node nibble_iter key blob_opt c =
     (let existing_path = nibble_path_new (to_vec (jcrypto J) (key_hash J (raw_key existing_leaf_node)))
      in obind (skip_common_prefix (visited_nibbles nibble_iter) (path_nibbles existing_path))
         (\<lambda>(_, visited_nibble_iter, existing_iter).
         obind (is_finished visited_nibble_iter) (\<lambda>finished.
         obind (assert_that finished) (\<lambda>_.
         obind (skip_common_prefix nibble_iter (remaining_nibbles existing_iter))
         (\<lambda>(num_common, nibble_iter, existing_below).
         obind (collect_path (visited_nibbles nibble_iter)) (\<lambda>common_nibble_path.
         obind (is_finished nibble_iter) (\<lambda>finished.
         if finished then
           obind (is_finished existing_below) (\<lambda>finished.
           obind (assert_that finished) (\<lambda>_.
           case blob_opt of
             None \<Rightarrow>
               obind (delete_node node_key True c) (\<lambda>c. Inr ((placeholder J, Null), c))
           | Some b \<Rightarrow>
               if blob_crypto_hash J b = blob_hash existing_leaf_node
               then Inr ((node_key, Leaf existing_leaf_node), c)
               else obind (delete_node node_key True c) (\<lambda>c. create_leaf_node J key b c)))
         else
           obind (nibble_next existing_below) (\<lambda>(x, _).
           obind (expect x) (\<lambda>existing_leaf_index.
           obind (nibble_next nibble_iter) (\<lambda>(y, _).
           obind (expect y) (\<lambda>new_leaf_index.
           obind (assert_that (existing_leaf_index \<noteq> new_leaf_index)) (\<lambda>_.
           case blob_opt of
             None \<Rightarrow> Inr ((node_key, Leaf existing_leaf_node), c)
           | Some b \<Rightarrow>
               obind (create_leaf_node J key b c) (\<lambda>((_, new_leaf_node), c).
               obind (node_hash J new_leaf_node) (\<lambda>new_leaf_hash.
               obind (internal_new [existing_leaf_index \<mapsto> child_new (leaf_crypto_hash J existing_leaf_node) True,
                                    new_leaf_index \<mapsto> child_new new_leaf_hash True]) (\<lambda>internal_node.
               obind (node_hash J (Internal internal_node)) (\<lambda>internal_key.
               obind (put_node internal_key (Internal internal_node) c) (\<lambda>c.
               obind (extend_internal J num_common common_nibble_path internal_node c)
               (\<lambda>(next_internal_node, c).
               obind (node_hash J (Internal next_internal_node)) (\<lambda>h.
               Inr ((h, Internal next_internal_node), c))))))))))))))))))))"

text \<open>The part of \<^verbatim>\<open>insert_at_internal_node\<close> after the child has been inserted.\<close>

definition rebuild_internal_node ::
  "('k, 'h) jelly \<Rightarrow> 'h \<Rightarrow> 'h Children \<Rightarrow> Nibble \<Rightarrow> ('k, 'h) inserted \<Rightarrow> ('k, 'h) inserted jelly_result" where
  "rebuild_internal_node J node_key internal_node child_index r =
     (let new_child_key = fst (fst r); new_child_node = snd (fst r); c = snd r;
          child_not_changed = (case internal_node child_index of
              None \<Rightarrow> False
            | Some old \<Rightarrow> child_hash old = new_child_key \<and> child_is_leaf old = node_is_leaf new_child_node)
      in if child_not_changed then Inr ((node_key, Internal internal_node), c)
         else
           obind (delete_node node_key False c) (\<lambda>c.
           let children = internal_node(child_index := None);
               children = (case new_child_node of
                   Null \<Rightarrow> children
                 | _ \<Rightarrow> children(child_index \<mapsto> child_new new_child_key (node_is_leaf new_child_node)))
           in if children_iter children = [] then Inr ((placeholder J, Null), c)
              else if num_children children = 1 \<and> child_is_leaf (snd (hd (children_iter children))) then
                let leaf = snd (hd (children_iter children))
                in obind (cache_get_node J c (child_hash leaf)) (\<lambda>leaf_node.
                   Inr ((child_hash leaf, leaf_node), c))
              else
                obind (internal_new children) (\<lambda>new_internal_node.
                obind (node_hash J (Internal new_internal_node)) (\<lambda>h.
                obind (put_node h (Internal new_internal_node) c) (\<lambda>c.
                Inr ((h, Internal new_internal_node), c))))))"

text \<open>The iterator advances on every call that goes down, so the recursion ends.\<close>

function insert_at ::
  "('k, 'h) jelly \<Rightarrow> 'h \<Rightarrow> NibbleIterator \<Rightarrow> 'k \<Rightarrow> Blob option \<Rightarrow> ('k, 'h) TreeCache
    \<Rightarrow> ('k, 'h) inserted jelly_result"
and insert_at_internal_node ::
  "('k, 'h) jelly \<Rightarrow> 'h \<Rightarrow> 'h Children \<Rightarrow> NibbleIterator \<Rightarrow> 'k \<Rightarrow> Blob option \<Rightarrow> ('k, 'h) TreeCache
    \<Rightarrow> ('k, 'h) inserted jelly_result" where
  "insert_at J node_key nibble_iter key blob_opt c =
     obind (cache_get_node J c node_key) (\<lambda>nd.
     case nd of
       Internal internal_node \<Rightarrow>
         insert_at_internal_node J node_key internal_node nibble_iter key blob_opt c
     | Leaf leaf_node \<Rightarrow> insert_at_leaf_node J node_key leaf_node nibble_iter key blob_opt c
     | Null \<Rightarrow> (case blob_opt of
           None \<Rightarrow> Inr ((node_key, Null), c)
         | Some b \<Rightarrow> obind (delete_node node_key False c) (\<lambda>c. create_leaf_node J key b c)))"
| "insert_at_internal_node J node_key internal_node nibble_iter key blob_opt c =
     obind (nibble_next nibble_iter) (\<lambda>r.
     case r of
       (None, _) \<Rightarrow> Inl Panic
     | (Some child_index, nibble_iter') \<Rightarrow>
         (case internal_node child_index of
            Some child \<Rightarrow>
              obind (insert_at J (child_hash child) nibble_iter' key blob_opt c)
                (rebuild_internal_node J node_key internal_node child_index)
          | None \<Rightarrow>
              (case blob_opt of
                 Some b \<Rightarrow>
                   obind (create_leaf_node J key b c)
                     (rebuild_internal_node J node_key internal_node child_index)
               | None \<Rightarrow> Inr ((node_key, Internal internal_node), c))))"
  by pat_completeness auto
termination
  by (relation "measure (\<lambda>x. case x of
        Inl (J, node_key, it, _) \<Rightarrow> Suc (2 * (pos_end it - pos_start it))
      | Inr (J, node_key, n, it, _) \<Rightarrow> 2 * (pos_end it - pos_start it))")
    (auto simp: nibble_next_def split: if_splits)

declare insert_at.simps [simp del] insert_at_internal_node.simps [simp del]

definition put ::
  "('k, 'h) jelly \<Rightarrow> 'k \<Rightarrow> Blob option \<Rightarrow> ('k, 'h) TreeCache \<Rightarrow> ('k, 'h) TreeCache jelly_result" where
  "put J key blob_opt c =
     (let nibble_path = nibble_path_new (to_vec (jcrypto J) (key_hash J key))
      in obind (insert_at J (root_node_key c) (path_nibbles nibble_path) key blob_opt c)
         (\<lambda>((new_root_node_key, _), c). Inr (c\<lparr>root_node_key := new_root_node_key\<rparr>)))"

fun put_all ::
  "('k, 'h) jelly \<Rightarrow> ('k \<times> Blob option) list \<Rightarrow> ('k, 'h) TreeCache \<Rightarrow> ('k, 'h) TreeCache jelly_result" where
  "put_all J [] c = Inr c"
| "put_all J ((key, blob_opt) # kvs) c = obind (put J key blob_opt c) (\<lambda>c. put_all J kvs c)"

fun put_sets ::
  "('k, 'h) jelly \<Rightarrow> ('k \<times> Blob option) list list \<Rightarrow> ('k, 'h) TreeCache
    \<Rightarrow> ('k, 'h) TreeCache jelly_result" where
  "put_sets J [] c = Inr c"
| "put_sets J (blob_set # blob_sets) c =
     obind (assert_that (blob_set \<noteq> [])) (\<lambda>_.
     obind (put_all J blob_set c) (\<lambda>c.
     obind (freeze J c) (\<lambda>c.
     put_sets J blob_sets c)))"

definition puts ::
  "('k, 'h) jelly \<Rightarrow> ('k, 'h) TreeReader \<Rightarrow> 'h option \<Rightarrow> ('k \<times> Blob option) list list
    \<Rightarrow> ('h list \<times> ('k, 'h) TreeUpdateBatch) jelly_result" where
  "puts J R state_root_hash blob_sets =
     obind (put_sets J blob_sets (tree_cache_new J R state_root_hash)) (\<lambda>c.
     Inr (tree_cache_into c))"

definition updates ::
  "('k, 'h) jelly \<Rightarrow> ('k, 'h) TreeReader \<Rightarrow> 'h option \<Rightarrow> ('k \<times> Blob option) list
    \<Rightarrow> ('h \<times> ('k, 'h) TreeUpdateBatch) jelly_result" where
  "updates J R state_root_hash blob_set =
     obind (puts J R state_root_hash [blob_set]) (\<lambda>(root_hashes, batch).
     obind (assert_that (length root_hashes = 1)) (\<lambda>_.
     Inr (hd root_hashes, batch)))"

definition insert_all ::
  "('k, 'h) jelly \<Rightarrow> ('k, 'h) TreeReader \<Rightarrow> 'h option \<Rightarrow> ('k \<times> Blob) list
    \<Rightarrow> ('h \<times> ('k, 'h) TreeUpdateBatch) jelly_result" where
  "insert_all J R state_root_hash blob_set =
     updates J R state_root_hash (map (\<lambda>(k, v). (k, Some v)) blob_set)"

section \<open>Proofs\<close>

definition LENGTH_IN_BITS :: nat where
  "LENGTH_IN_BITS = 256"

record 'h SparseMerkleProof =
  smp_leaf :: "('h \<times> 'h) option"
  smp_siblings :: "'h list"

definition smp_check ::
  "('k, 'h) jelly \<Rightarrow> 'h SparseMerkleProof \<Rightarrow> 'h \<Rightarrow> Blob option \<Rightarrow> unit jelly_result" where
  "smp_check J p element_key element_blob =
     (case (element_blob, smp_leaf p) of
        (Some b, Some (proof_key, proof_value_hash)) \<Rightarrow>
          obind (ensure (element_key = proof_key) KeysDiffer) (\<lambda>_.
          ensure (blob_crypto_hash J b = proof_value_hash) ValueHashesDiffer)
      | (Some _, None) \<Rightarrow> Inl (Err ExpectedInclusion)
      | (None, Some (proof_key, _)) \<Rightarrow>
          obind (ensure (element_key \<noteq> proof_key) ExpectedNonInclusion) (\<lambda>_.
          ensure (common_prefix_bits_len J element_key proof_key \<ge> length (smp_siblings p)) NotInSubtree)
      | (None, None) \<Rightarrow> Inr ())"

definition smp_fold_step :: "('k, 'h) jelly \<Rightarrow> 'h \<times> bool \<Rightarrow> 'h \<Rightarrow> 'h" where
  "smp_fold_step J sb h =
     (if snd sb then sparse_internal_hash J (fst sb) h else sparse_internal_hash J h (fst sb))"

definition smp_verify ::
  "('k, 'h) jelly \<Rightarrow> 'h SparseMerkleProof \<Rightarrow> 'h \<Rightarrow> 'h \<Rightarrow> Blob option \<Rightarrow> unit jelly_result" where
  "smp_verify J p expected_root_hash element_key element_blob =
     obind (ensure (length (smp_siblings p) \<le> LENGTH_IN_BITS) ProofTooLong) (\<lambda>_.
     obind (smp_check J p element_key element_blob) (\<lambda>_.
     let current_hash = (case smp_leaf p of
             None \<Rightarrow> placeholder J
           | Some (key, value_hash) \<Rightarrow> sparse_leaf_hash J key value_hash);
         bits = drop (LENGTH_IN_BITS - length (smp_siblings p)) (rev (iter_bits J element_key));
         actual_root_hash = fold (smp_fold_step J) (zip (smp_siblings p) bits) current_hash
     in ensure (actual_root_hash = expected_root_hash) RootHashesDiffer))"

text \<open>The loop of \<^verbatim>\<open>get_with_proof\<close>: \<open>n\<close> rounds are left, \<open>depth\<close> is the number done.\<close>

fun get_with_proof_loop ::
  "('k, 'h) jelly \<Rightarrow> ('k, 'h) TreeReader \<Rightarrow> 'h \<Rightarrow> nat \<Rightarrow> nat \<Rightarrow> 'h \<Rightarrow> 'h list \<Rightarrow> NibbleIterator
    \<Rightarrow> (Blob option \<times> 'h SparseMerkleProof) jelly_result" where
  "get_with_proof_loop J R key 0 depth next_node_key siblings it = Inl (Err CyclicGraph)"
| "get_with_proof_loop J R key (Suc n) depth next_node_key siblings it =
     obind (get_node R next_node_key) (\<lambda>next_node.
     case next_node of
       Internal internal_node \<Rightarrow>
         obind (nibble_next it) (\<lambda>(x, it).
         obind (ok_or x RanOutOfNibbles) (\<lambda>queried_child_index.
         obind (get_child_with_siblings J internal_node queried_child_index)
         (\<lambda>(child_node_key, siblings_in_internal).
         let siblings = siblings @ siblings_in_internal
         in case child_node_key of
              Some node_key \<Rightarrow> get_with_proof_loop J R key n (Suc depth) node_key siblings it
            | None \<Rightarrow> Inr (None, \<lparr>smp_leaf = None, smp_siblings = rev siblings\<rparr>))))
     | Leaf leaf_node \<Rightarrow>
         Inr (if key_hash J (raw_key leaf_node) = key then Some (blob leaf_node) else None,
              \<lparr>smp_leaf = Some (key_hash J (raw_key leaf_node), blob_hash leaf_node),
               smp_siblings = rev siblings\<rparr>)
     | Null \<Rightarrow>
         if depth = 0 then Inr (None, \<lparr>smp_leaf = None, smp_siblings = []\<rparr>)
         else Inl (Err NonRootNull))"

definition get_with_proof ::
  "('k, 'h) jelly \<Rightarrow> ('k, 'h) TreeReader \<Rightarrow> 'h \<Rightarrow> 'h \<Rightarrow> (Blob option \<times> 'h SparseMerkleProof) jelly_result" where
  "get_with_proof J R state_root_hash key =
     get_with_proof_loop J R key (ROOT_NIBBLE_HEIGHT + 1) 0 state_root_hash []
       (path_nibbles (nibble_path_new (to_vec (jcrypto J) key)))"

definition get_range_proof ::
  "('k, 'h) jelly \<Rightarrow> ('k, 'h) TreeReader \<Rightarrow> 'h \<Rightarrow> 'h \<Rightarrow> 'h list jelly_result" where
  "get_range_proof J R state_root_hash rightmost_key_to_prove =
     obind (get_with_proof J R state_root_hash rightmost_key_to_prove) (\<lambda>(account, p).
     obind (ensure (account \<noteq> None) KeyMustExist) (\<lambda>_.
     Inr (rev (map fst (filter (\<lambda>(sibling, b). \<not> b)
       (zip (rev (smp_siblings p)) (iter_bits J rightmost_key_to_prove)))))))"

end
