(* ===== verification/Sparse_Spec.thy ===== *)
theory Sparse_Spec
  imports Jellyfish_Tree
begin

text \<open>
  What a jellyfish Merkle tree stands for: a finite set of leaves with different key hashes.
  Its root hash is that of a binary sparse Merkle tree, \<open>smt\<close>; at every nibble depth the
  set has a canonical node, \<open>cnode\<close>, and the nodes below it are \<open>live\<close>. The hash of a node
  with sixteen children, computed over bitmaps, is the hash of the binary tree.
\<close>

section \<open>Leaves and their paths\<close>

type_synonym ('k, 'h) leaves = "('k, 'h) LeafNode set"

definition hpath :: "('k, 'h) jelly \<Rightarrow> 'h \<Rightarrow> Nibble list" where
  "hpath J h = unpack (to_vec (jcrypto J) h)"

definition lpath :: "('k, 'h) jelly \<Rightarrow> ('k, 'h) LeafNode \<Rightarrow> Nibble list" where
  "lpath J l = hpath J (key_hash J (raw_key l))"

text \<open>Bit \<open>i\<close> of a path, the highest bit of the first nibble first.\<close>

definition pbit :: "Nibble list \<Rightarrow> nat \<Rightarrow> bool" where
  "pbit p i = bit (p ! (i div 4)) (3 - i mod 4)"

definition sub :: "('k, 'h) jelly \<Rightarrow> nat \<Rightarrow> Nibble \<Rightarrow> ('k, 'h) leaves \<Rightarrow> ('k, 'h) leaves" where
  "sub J d n A = {l \<in> A. lpath J l ! d = n}"

definition leaves_ok :: "('k, 'h) jelly \<Rightarrow> nat \<Rightarrow> ('k, 'h) leaves \<Rightarrow> bool" where
  "leaves_ok J d A \<longleftrightarrow> finite A \<and> inj_on (\<lambda>l. drop d (lpath J l)) A"

text \<open>The binary sparse Merkle tree with \<open>n\<close> bits left.\<close>

fun smt :: "('k, 'h) jelly \<Rightarrow> nat \<Rightarrow> ('k, 'h) leaves \<Rightarrow> 'h" where
  "smt J 0 A = (if A = {} then placeholder J else leaf_crypto_hash J (the_elem A))"
| "smt J (Suc n) A =
     (if A = {} then placeholder J
      else if is_singleton A then leaf_crypto_hash J (the_elem A)
      else sparse_internal_hash J
        (smt J n {l \<in> A. \<not> pbit (lpath J l) (255 - n)}) (smt J n {l \<in> A. pbit (lpath J l) (255 - n)}))"

abbreviation hash_at :: "('k, 'h) jelly \<Rightarrow> nat \<Rightarrow> ('k, 'h) leaves \<Rightarrow> 'h" where
  "hash_at J d A \<equiv> smt J (256 - 4 * d) A"

definition cchildren :: "('k, 'h) jelly \<Rightarrow> nat \<Rightarrow> ('k, 'h) leaves \<Rightarrow> 'h Children" where
  "cchildren J d A n =
     (if n < 16 \<and> sub J d n A \<noteq> {}
      then Some (child_new (hash_at J (Suc d) (sub J d n A)) (is_singleton (sub J d n A))) else None)"

definition cnode :: "('k, 'h) jelly \<Rightarrow> nat \<Rightarrow> ('k, 'h) leaves \<Rightarrow> ('k, 'h) Node" where
  "cnode J d A =
     (if A = {} then Null
      else if is_singleton A then Leaf (the_elem A)
      else Internal (cchildren J d A))"

lemma length_hpath [simp]: "crypto_ok (jcrypto J) \<Longrightarrow> length (hpath J h) = 64"
  by (simp add: hpath_def crypto_ok_def HASH_LENGTH_def)

lemma length_lpath [simp]: "crypto_ok (jcrypto J) \<Longrightarrow> length (lpath J l) = 64"
  by (simp add: lpath_def)

lemma hpath_less: "crypto_ok (jcrypto J) \<Longrightarrow> d < 64 \<Longrightarrow> hpath J h ! d < 16"
  using nth_mem [of d "hpath J h"] unpack_less unfolding hpath_def [symmetric]
  by (metis hpath_def length_hpath)

lemma lpath_less: "crypto_ok (jcrypto J) \<Longrightarrow> d < 64 \<Longrightarrow> lpath J l ! d < 16"
  by (simp add: lpath_def hpath_less)

lemma hpath_inject: "crypto_ok (jcrypto J) \<Longrightarrow> hpath J h = hpath J h' \<longleftrightarrow> h = h'"
  by (simp add: hpath_def unpack_inject to_vec_inject)

lemma is_singleton_iff: "is_singleton A \<longleftrightarrow> (\<exists>x. A = {x})"
  by (auto elim: is_singletonE)

lemma smt_singleton [simp]: "smt J n {l} = leaf_crypto_hash J l"
  by (cases n) auto

lemma smt_empty [simp]: "smt J n {} = placeholder J"
  by (cases n) auto

lemma sub_subset: "sub J d n A \<subseteq> A"
  by (auto simp: sub_def)

lemma finite_sub [simp]: "finite A \<Longrightarrow> finite (sub J d n A)"
  by (simp add: sub_def)

lemma leaves_ok_sub:
  assumes C: "crypto_ok (jcrypto J)" and "leaves_ok J d A" and "d < 64"
  shows "leaves_ok J (Suc d) (sub J d n A)"
proof -
  have "drop d (lpath J l) = n # drop (Suc d) (lpath J l)" if "l \<in> sub J d n A" for l
    using that assms(3) C by (simp add: sub_def Cons_nth_drop_Suc [symmetric])
  then show ?thesis
    using assms(2) unfolding leaves_ok_def inj_on_def by (auto simp: sub_def)
qed

lemma leaves_ok_64: "crypto_ok (jcrypto J) \<Longrightarrow> leaves_ok J d A \<Longrightarrow> 64 \<le> d \<Longrightarrow> A \<noteq> {} \<Longrightarrow> is_singleton A"
  unfolding leaves_ok_def inj_on_def is_singleton_iff by (metis (no_types) drop_all ex_in_conv
    insertI1 length_lpath singletonD subsetI subset_antisym)

lemma leaves_ok_lt_64:
  "crypto_ok (jcrypto J) \<Longrightarrow> leaves_ok J d A \<Longrightarrow> A \<noteq> {} \<Longrightarrow> \<not> is_singleton A \<Longrightarrow> d < 64"
  using leaves_ok_64 not_le by blast

lemma leaves_ok_mono: "leaves_ok J d A \<Longrightarrow> B \<subseteq> A \<Longrightarrow> leaves_ok J d B"
  unfolding leaves_ok_def by (meson finite_subset inj_on_subset)

lemma sub_cover:
  assumes "crypto_ok (jcrypto J)" "d < 64"
  shows "A = (\<Union>n \<in> {n. n < 16}. sub J d n A)"
  using lpath_less [OF assms] by (auto simp: sub_def)


section \<open>The hash of an internal node\<close>

definition rng :: "('k, 'h) jelly \<Rightarrow> nat \<Rightarrow> nat \<Rightarrow> nat \<Rightarrow> ('k, 'h) leaves \<Rightarrow> ('k, 'h) leaves" where
  "rng J d s w A = {l \<in> A. s \<le> unat (lpath J l ! d) \<and> unat (lpath J l ! d) < s + w}"

text \<open>The halves of a range are told apart by a bit.\<close>

lemma half_bit:
  fixes x :: Nibble
  assumes "s = q * 2 ^ Suc k" "s \<le> unat x" "unat x < s + 2 ^ Suc k"
  shows "bit x k \<longleftrightarrow> s + 2 ^ k \<le> unat x"
proof -
  define r where "r = unat x - s"
  have x: "unat x = q * 2 ^ Suc k + r" "r < 2 ^ Suc k" using assms by (auto simp: r_def)
  have "bit x k \<longleftrightarrow> bit (uint x) k" using bit_imp_le_length [of x k] by (auto simp: bit_uint_iff)
  also have "\<dots> \<longleftrightarrow> odd (int (unat x) div int (2 ^ k))" by (simp add: bit_iff_odd)
  also have "\<dots> \<longleftrightarrow> odd (unat x div 2 ^ k)" unfolding zdiv_int [symmetric] by simp
  also have "unat x div 2 ^ k = (r + (2 * q) * 2 ^ k) div 2 ^ k" using x(1) by (simp add: algebra_simps)
  also have "\<dots> = 2 * q + r div 2 ^ k" by simp
  also have "odd \<dots> \<longleftrightarrow> odd (r div 2 ^ k)" by simp
  also have "\<dots> \<longleftrightarrow> 2 ^ k \<le> r"
  proof (cases "2 ^ k \<le> r")
    case True
    then have "r div 2 ^ k = 1" using x(2) by (intro div_nat_eqI) auto
    then show ?thesis using True by simp
  qed simp
  finally show ?thesis using x(1) assms(1) by simp
qed

lemma smt_rng:
  assumes "k < 4" "s = q * 2 ^ Suc k" "d < 64"
    and "rng J d s (2 ^ Suc k) A \<noteq> {}" "\<not> is_singleton (rng J d s (2 ^ Suc k) A)"
  shows "smt J (253 - 4 * d + k) (rng J d s (2 ^ Suc k) A) =
    sparse_internal_hash J (smt J (252 - 4 * d + k) (rng J d s (2 ^ k) A))
      (smt J (252 - 4 * d + k) (rng J d (s + 2 ^ k) (2 ^ k) A))"
proof -
  have e: "253 - 4 * d + k = Suc (252 - 4 * d + k)" using assms(3) by simp
  have i: "255 - (252 - 4 * d + k) = 4 * d + (3 - k)" using assms(1,3) by simp
  obtain j where j: "j = 3 - k" "j < 4" "3 - j = k" using assms(1) by simp
  have b: "pbit (lpath J l) (4 * d + (3 - k)) = bit (lpath J l ! d) k" for l
    unfolding j(1) [symmetric] using j(2,3) by (simp add: pbit_def)
  have "{l \<in> rng J d s (2 ^ Suc k) A. \<not> pbit (lpath J l) (4 * d + (3 - k))} = rng J d s (2 ^ k) A"
    "{l \<in> rng J d s (2 ^ Suc k) A. pbit (lpath J l) (4 * d + (3 - k))} = rng J d (s + 2 ^ k) (2 ^ k) A"
    using half_bit [OF assms(2)] by (auto simp: rng_def b)
  then show ?thesis unfolding e smt.simps(2) i using assms(4,5) by simp
qed

lemma indices_single: "indices bm = [i] \<Longrightarrow> trailing_zeros bm = i \<and> i < 16"
  using indices_step [of bm] indices_Nil [of bm] by (cases "bm = 0") auto

lemma count_ones_1: "count_ones (bm :: u16) = 1 \<longleftrightarrow> (\<exists>i. indices bm = [i])"
  by (simp add: count_ones_indices length_Suc_conv)

text \<open>The bitmaps restricted to a range.\<close>

lemma range_bitmaps_eq:
  assumes "k \<le> 4" "s = q * 2 ^ k" "s + 2 ^ k \<le> 16"
  shows "\<exists>e' l'. range_bitmaps (word_of_nat s) (word_of_nat (2 ^ k)) (e, l) = Inr (e', l') \<and>
    (\<forall>i. bit e' i \<longleftrightarrow> bit e i \<and> s \<le> i \<and> i < s + 2 ^ k) \<and>
    (\<forall>i. bit l' i \<longleftrightarrow> bit l i \<and> s \<le> i \<and> i < s + 2 ^ k)"
proof -
  have w: "(word_of_nat (2 ^ k) :: u8) = 2 ^ k" by simp
  have k: "k \<in> {0, 1, 2, 3, 4}" using assms(1) by auto
  have c1: "count_ones (2 ^ k :: u8) = 1" using k by (auto simp: count_ones_def upt_rec) 
  have us: "unat (word_of_nat s :: u8) = s" and uw: "unat (2 ^ k :: u8) = 2 ^ k"
    using assms(3) k by (auto simp: unat_of_nat_eq)
  have m0: "(word_of_nat s :: u8) mod 2 ^ k = 0"
    using us uw assms(2) by (intro word_unat_eq_iff [THEN iffD2]) (simp add: unat_mod)
  have "0 < (2 :: nat) ^ k" by simp
  then have "s < 16" using assms(3) by linarith
  then have lt: "(word_of_nat s :: u8) < 16" using us by (simp add: word_less_nat_alt)
  have msk: "(if (2 ^ k :: u8) = 16 then Inr 65535
      else obind (assert_that ((2 ^ k :: u8) \<le> 16)) (\<lambda>_. Inr (shl 1 (unat (2 ^ k :: u8)) - 1))) =
      (Inr (mask (2 ^ k)) :: u16 jelly_result)"
    using k by (auto simp: mask_eq_exp_minus_1 shl_def word_le_nat_alt)
  have bits: "bit (shl (mask (2 ^ k) :: u16) s) i \<longleftrightarrow> s \<le> i \<and> i < s + 2 ^ k" for i
    using assms(3) by (auto simp: shl_def bit_push_bit_iff bit_mask_iff)
  show ?thesis
    unfolding range_bitmaps_def w using c1 m0 lt msk bits us by (simp add: bit_and_iff Let_def) 
qed

lemma indices_singleI:
  assumes "\<And>j. bit bm j \<longleftrightarrow> j = i"
  shows "indices bm = [i]"
proof -
  have "x \<in> set (indices bm) \<longleftrightarrow> x \<in> {i}" for x unfolding set_indices assms by simp
  then have s: "set (indices bm) = {i}" by (rule set_eqI)
  have "distinct (indices bm)" by (simp add: indices_def)
  then have "length (indices bm) = 1" using s distinct_card [of "indices bm"] by simp
  then obtain y where "indices bm = [y]" by (cases "indices bm") auto
  then show ?thesis using s by simp
qed

lemma sub_rng: "i < 16 \<Longrightarrow> s \<le> i \<Longrightarrow> i < s + w \<Longrightarrow> sub J d (nib i) A \<subseteq> rng J d s w A"
  by (auto simp: sub_def rng_def unat_nib)

text \<open>The bitmaps of a node restricted to a range, against the leaves in the range.\<close>

lemma rng_bitmaps:
  fixes J :: "('k, 'h) jelly" and e l e' l' :: u16
  assumes C: "crypto_ok (jcrypto J)" and d: "d < 64"
    and e: "\<And>i. bit e i \<longleftrightarrow> i < 16 \<and> sub J d (nib i) A \<noteq> {}"
    and l: "\<And>i. bit l i \<longleftrightarrow> i < 16 \<and> is_singleton (sub J d (nib i) A)"
    and e': "\<And>i. bit e' i \<longleftrightarrow> bit e i \<and> s \<le> i \<and> i < s + w"
    and l': "\<And>i. bit l' i \<longleftrightarrow> bit l i \<and> s \<le> i \<and> i < s + w"
  shows "e' = 0 \<longleftrightarrow> rng J d s w A = {}"
    and "indices e' = [i] \<Longrightarrow> rng J d s w A = sub J d (nib i) A \<and> i < 16"
    and "indices e' = [i] \<Longrightarrow> only_child (cchildren J d A) e' = Inr (hash_at J (Suc d) (rng J d s w A))"
    and "count_ones e' = 1 \<and> l' \<noteq> 0 \<longleftrightarrow> is_singleton (rng J d s w A)"
    and "count_ones e' = 1 \<Longrightarrow> l' \<noteq> 0 \<Longrightarrow> count_ones l' = 1"
    and "w = 1 \<Longrightarrow> rng J d s w A \<noteq> {} \<Longrightarrow> count_ones e' = 1"
proof -
  let ?R = "rng J d s w A" and ?c = "cchildren J d A"
  have in_R: "bit e' (unat (lpath J x ! d)) \<and> x \<in> sub J d (nib (unat (lpath J x ! d))) A" if "x \<in> ?R" for x
    using that unat_less_16 [OF lpath_less [OF C d]] by (auto simp: e' e rng_def sub_def)
  have R_in: "sub J d (nib i) A \<noteq> {} \<and> sub J d (nib i) A \<subseteq> ?R \<and> i < 16" if "bit e' i" for i
    using that sub_rng [of i s w J d A] by (simp add: e' e)
  show "e' = 0 \<longleftrightarrow> ?R = {}"
    using in_R R_in by (metis bit_0_eq bit_word_eqI bot_apply bot_bool_def ex_in_conv subset_empty)
  have bits: "bit e' j \<longleftrightarrow> j = i" if "indices e' = [i]" for i j using set_indices [of j e'] that by auto
  show one: "?R = sub J d (nib i) A \<and> i < 16" if i: "indices e' = [i]" for i
  proof -
    have "?R \<subseteq> sub J d (nib i) A"
    proof
      fix x assume "x \<in> ?R"
      from in_R [OF this] have "unat (lpath J x ! d) = i" "x \<in> sub J d (nib (unat (lpath J x ! d))) A"
        using bits [OF i] by blast+
      then show "x \<in> sub J d (nib i) A" by simp
    qed
    then show ?thesis using R_in [of i] bits [OF i] by blast
  qed
  show "only_child ?c e' = Inr (hash_at J (Suc d) ?R)" if i: "indices e' = [i]" for i
    using one [OF i] R_in [of i] bits [OF i] indices_single [OF i]
    by (simp add: only_child_def nib_less child_new_def cchildren_def)
  have leaf: "\<exists>i. indices e' = [i] \<and> bit l' i" if x: "?R = {x}" for x
  proof -
    let ?i = "unat (lpath J x ! d)"
    have b: "bit e' j \<longleftrightarrow> j = ?i" for j
    proof
      assume j: "bit e' j"
      then have "x \<in> sub J d (nib j) A" using R_in [of j] x by auto
      then show "j = ?i" using R_in [OF j] by (auto simp: sub_def unat_nib)
    qed (use in_R x in auto)
    have "sub J d (nib ?i) A = {x}" using R_in [of ?i] b x subset_singletonD by metis
    then have "bit l' ?i" using b [of ?i] by (auto simp: l' l e' e)
    then show ?thesis using indices_singleI [OF b] by blast
  qed
  have leaf_in: "is_singleton (sub J d (nib j) A) \<and> bit e' j" if "bit l' j" for j
    using that by (auto simp: l' l e' e is_singleton_iff)
  show "count_ones e' = 1 \<and> l' \<noteq> 0 \<longleftrightarrow> is_singleton ?R"
  proof
    assume a: "count_ones e' = 1 \<and> l' \<noteq> 0"
    then obtain i where i: "indices e' = [i]" unfolding count_ones_1 by blast
    obtain j where j: "bit l' j" using a by (metis bit_0_eq bit_word_eqI bot_apply bot_bool_def)
    have "j = i" using leaf_in [OF j] bits [OF i] by blast
    then show "is_singleton ?R" using one [OF i] leaf_in [OF j] by simp
  next
    assume "is_singleton ?R"
    then obtain x where "?R = {x}" by (auto simp: is_singleton_iff)
    from leaf [OF this] show "count_ones e' = 1 \<and> l' \<noteq> 0" unfolding count_ones_1 by auto
  qed
  show "count_ones l' = 1" if el: "count_ones e' = 1" "l' \<noteq> 0"
  proof -
    obtain i where i: "indices e' = [i]" using el(1) unfolding count_ones_1 by blast
    obtain j where j: "bit l' j" using el(2) by (metis bit_0_eq bit_word_eqI bot_apply bot_bool_def)
    have "bit l' k \<longleftrightarrow> k = j" for k using leaf_in [of k] leaf_in [OF j] bits [OF i] j by metis
    from indices_singleI [OF this] show ?thesis unfolding count_ones_1 by blast
  qed
  show "count_ones e' = 1" if w: "w = 1" and ne: "?R \<noteq> {}"
  proof -
    obtain x where x: "x \<in> ?R" using ne by blast
    then have "unat (lpath J x ! d) = s" using w by (simp add: rng_def)
    then have "bit e' s" using in_R [OF x] by simp
    then have "bit e' j \<longleftrightarrow> j = s" for j using e' [of j] w by auto
    from indices_singleI [OF this] show ?thesis unfolding count_ones_1 by blast
  qed
qed

lemma merkle_hash_eq:
  assumes C: "crypto_ok (jcrypto J)" and d: "d < 64" and k: "k \<le> 4" "s = q * 2 ^ k" "s + 2 ^ k \<le> 16"
    and e: "\<And>i. bit e i \<longleftrightarrow> i < 16 \<and> sub J d (nib i) A \<noteq> {}"
    and l: "\<And>i. bit l i \<longleftrightarrow> i < 16 \<and> is_singleton (sub J d (nib i) A)"
  shows "merkle_hash J (cchildren J d A) (word_of_nat s) (word_of_nat (2 ^ k)) (e, l) =
    Inr (smt J (252 - 4 * d + k) (rng J d s (2 ^ k) A))"
  using k
proof (induction k arbitrary: s q rule: less_induct)
  case (less k)
  let ?R = "rng J d s (2 ^ k) A" and ?c = "cchildren J d A" and ?w = "word_of_nat (2 ^ k) :: u8"
  obtain e' l' where r: "range_bitmaps (word_of_nat s) ?w (e, l) = Inr (e', l')"
    and e': "\<And>i. bit e' i \<longleftrightarrow> bit e i \<and> s \<le> i \<and> i < s + 2 ^ k"
    and l': "\<And>i. bit l' i \<longleftrightarrow> bit l i \<and> s \<le> i \<and> i < s + 2 ^ k"
    using range_bitmaps_eq [OF less.prems] by blast
  note R = rng_bitmaps [OF C d e l e' l']
  have w1: "?w = 1 \<longleftrightarrow> k = 0"
    using less.prems(1) by (cases "k = 0 \<or> k = 1 \<or> k = 2 \<or> k = 3 \<or> k = 4") auto
  consider "?R = {}" | "?R \<noteq> {}" "count_ones e' = 1 \<and> (l' \<noteq> 0 \<or> ?w = 1)"
    | "?R \<noteq> {}" "\<not> (count_ones e' = 1 \<and> (l' \<noteq> 0 \<or> ?w = 1))" by blast
  then show ?case
  proof cases
    case 1
    then show ?thesis using r R(1) by (subst merkle_hash.simps) simp
  next
    case 2
    then obtain i where i: "indices e' = [i]" unfolding count_ones_1 by blast
    have "hash_at J (Suc d) ?R = smt J (252 - 4 * d + k) ?R"
    proof (cases "is_singleton ?R")
      case False
      then have "k = 0" using 2(2) R(4) w1 by blast
      moreover have "256 - 4 * Suc d = 252 - 4 * d" by simp
      ultimately show ?thesis by simp
    qed (auto simp: is_singleton_iff)
    then show ?thesis using r 2 R(1) R(3) [OF i] by (subst merkle_hash.simps) auto
  next
    case 3
    have ns: "\<not> is_singleton ?R" using 3(2) R(4) by blast
    have "k \<noteq> 0" using 3 R(6) w1 by fastforce
    then obtain k' where k': "k = Suc k'" by (cases k) auto
    have w: "?w div 2 = word_of_nat (2 ^ k')"
    proof -
      have "k' \<in> {0, 1, 2, 3}" using k' less.prems(1) by auto
      then show ?thesis by (auto simp: k')
    qed
    have left: "merkle_hash J ?c (word_of_nat s) (word_of_nat (2 ^ k')) (e, l) =
        Inr (smt J (252 - 4 * d + k') (rng J d s (2 ^ k') A))"
      by (rule less.IH [where q = "2 * q"]) (use less.prems k' in auto)
    have right: "merkle_hash J ?c (word_of_nat (s + 2 ^ k')) (word_of_nat (2 ^ k')) (e, l) =
        Inr (smt J (252 - 4 * d + k') (rng J d (s + 2 ^ k') (2 ^ k') A))"
      by (rule less.IH [where q = "2 * q + 1"]) (use less.prems k' in auto)
    have "smt J (252 - 4 * d + k) ?R = sparse_internal_hash J
        (smt J (252 - 4 * d + k') (rng J d s (2 ^ k') A)) (smt J (252 - 4 * d + k') (rng J d (s + 2 ^ k') (2 ^ k') A))"
    proof -
      have e: "252 - 4 * d + k = 253 - 4 * d + k'" using k' d by simp
      show ?thesis unfolding e using smt_rng [of k' s q d J A] d less.prems k' 3(1) ns by (simp del: smt.simps)
    qed
    then show ?thesis
      using r 3 R(1) left right [unfolded of_nat_add] w by (subst merkle_hash.simps) auto
  qed
qed

lemma internal_crypto_hash_eq:
  assumes C: "crypto_ok (jcrypto J)" and d: "d < 64"
  shows "internal_crypto_hash J (cchildren J d A) = Inr (hash_at J d A)"
proof -
  obtain e l where g: "generate_bitmaps (cchildren J d A) = Inr (e, l)"
    and e: "\<And>i. bit e i \<longleftrightarrow> i < 16 \<and> cchildren J d A (nib i) \<noteq> None"
    and l: "\<And>i. bit l i \<longleftrightarrow> i < 16 \<and> (\<exists>ch. cchildren J d A (nib i) = Some ch \<and> child_is_leaf ch)"
    using generate_bitmaps_eq by blast
  have "bit e i \<longleftrightarrow> i < 16 \<and> sub J d (nib i) A \<noteq> {}"
    "bit l i \<longleftrightarrow> i < 16 \<and> is_singleton (sub J d (nib i) A)" for i
    by (auto simp: e l cchildren_def nib_less child_new_def is_singleton_iff)
  then have "merkle_hash J (cchildren J d A) (word_of_nat 0) (word_of_nat (2 ^ 4)) (e, l) =
      Inr (smt J (252 - 4 * d + 4) (rng J d 0 (2 ^ 4) A))"
    by (intro merkle_hash_eq [OF C d, where q = 0]) auto
  moreover have "rng J d 0 (2 ^ 4) A = A"
    using unat_less_16 [OF lpath_less [OF C d]] by (auto simp: rng_def)
  moreover have "252 - 4 * d + 4 = 256 - 4 * d" using d by simp
  ultimately show ?thesis using g by (simp add: internal_crypto_hash_def)
qed

lemma node_hash_cnode:
  assumes C: "crypto_ok (jcrypto J)" and A: "leaves_ok J d A"
  shows "node_hash J (cnode J d A) = Inr (hash_at J d A)"
proof (cases "A = {} \<or> is_singleton A")
  case False
  then show ?thesis
    using internal_crypto_hash_eq [OF C leaves_ok_lt_64 [OF C A]] by (simp add: cnode_def)
qed (auto simp: cnode_def is_singleton_iff)


section \<open>The nodes of a tree\<close>

text \<open>
  A node is identified by its set of leaves and, unless it is a leaf, by its depth; a leaf has
  the same node at every depth.
\<close>

type_synonym ('k, 'h) node_id = "nat \<times> ('k, 'h) leaves"

definition nid :: "nat \<Rightarrow> ('k, 'h) leaves \<Rightarrow> ('k, 'h) node_id" where
  "nid d A = (if is_singleton A then 0 else d, A)"

function live :: "('k, 'h) jelly \<Rightarrow> nat \<Rightarrow> ('k, 'h) leaves \<Rightarrow> ('k, 'h) node_id set" where
  "live J d A =
     (if A = {} then {}
      else if is_singleton A \<or> 64 \<le> d then {(0, A)}
      else insert (d, A) (\<Union>n \<in> set all_nibbles. live J (Suc d) (sub J d n A)))"
  by pat_completeness auto
termination by (relation "measure (\<lambda>(J, d, A). 64 - d)") auto

declare live.simps [simp del]

definition node_of :: "('k, 'h) jelly \<Rightarrow> ('k, 'h) node_id \<Rightarrow> ('k, 'h) Node" where
  "node_of J x = cnode J (fst x) (snd x)"

definition hash_of :: "('k, 'h) jelly \<Rightarrow> ('k, 'h) node_id \<Rightarrow> 'h" where
  "hash_of J x = hash_at J (fst x) (snd x)"

definition tree_nodes :: "('k, 'h) jelly \<Rightarrow> ('k, 'h) leaves \<Rightarrow> ('k, 'h) Node set" where
  "tree_nodes J S = insert Null (node_of J ` live J 0 S)"

lemma node_of_nid [simp]: "node_of J (nid d A) = cnode J d A"
  by (simp add: node_of_def nid_def cnode_def)

lemma hash_of_nid [simp]: "hash_of J (nid d A) = hash_at J d A"
  by (auto simp: hash_of_def nid_def is_singleton_iff)

lemma snd_nid [simp]: "snd (nid d A) = A"
  by (simp add: nid_def)

lemma live_empty [simp]: "live J d {} = {}"
  by (simp add: live.simps)

lemma live_singleton [simp]: "live J d {l} = {nid d {l}}"
  by (simp add: live.simps nid_def)

lemma live_step:
  "A \<noteq> {} \<Longrightarrow> \<not> is_singleton A \<Longrightarrow> d < 64 \<Longrightarrow>
    live J d A = insert (nid d A) (\<Union>n \<in> {n. n < 16}. live J (Suc d) (sub J d n A))"
  by (subst live.simps) (simp add: nid_def set_all_nibbles)

lemma nid_live: "A \<noteq> {} \<Longrightarrow> is_singleton A \<or> d < 64 \<Longrightarrow> nid d A \<in> live J d A"
  by (cases "is_singleton A") (auto simp: is_singleton_iff live_step)

lemma live_dest:
  assumes "crypto_ok (jcrypto J)" "leaves_ok J d A" "(e, B) \<in> live J d A"
  shows "B \<noteq> {} \<and> B \<subseteq> A \<and> (is_singleton B \<longrightarrow> e = 0) \<and>
    (\<not> is_singleton B \<longrightarrow> d \<le> e \<and> e < 64 \<and> leaves_ok J e B \<and> (e = d \<longrightarrow> B = A)) \<and>
    (\<forall>i l l'. \<not> is_singleton B \<longrightarrow> d \<le> i \<longrightarrow> i < e \<longrightarrow> l \<in> B \<longrightarrow> l' \<in> B \<longrightarrow> lpath J l ! i = lpath J l' ! i)"
  using assms
proof (induction J d A rule: live.induct)
  case (1 J d A)
  show ?case
  proof (cases "A = {} \<or> is_singleton A")
    case True
    then show ?thesis using "1.prems"(3) by (auto simp: is_singleton_iff nid_def)
  next
    case False
    then have d: "d < 64" using leaves_ok_lt_64 "1.prems"(1,2) by blast
    then consider "(e, B) = nid d A" | n where "n < 16" "(e, B) \<in> live J (Suc d) (sub J d n A)"
      using False "1.prems"(3) live_step [of A d J] by auto
    then show ?thesis
    proof cases
      case 1
      then show ?thesis using False d "1.prems"(2) by (auto simp: nid_def)
    next
      case 2
      have p: "A \<noteq> {}" "\<not> (is_singleton A \<or> 64 \<le> d)" "n \<in> set all_nibbles"
        using False d 2(1) by (auto simp: set_all_nibbles)
      note ih0 = "1.IH" [OF p "1.prems"(1) leaves_ok_sub [OF "1.prems"(1,2) d] 2(2)]
      have ih: "B \<noteq> {}" "B \<subseteq> sub J d n A" "is_singleton B \<Longrightarrow> e = 0"
        "\<not> is_singleton B \<Longrightarrow> Suc d \<le> e \<and> e < 64 \<and> leaves_ok J e B"
        using ih0 by blast+
      have ih5: "\<not> is_singleton B \<Longrightarrow> Suc d \<le> i \<Longrightarrow> i < e \<Longrightarrow> l \<in> B \<Longrightarrow> l' \<in> B \<Longrightarrow> lpath J l ! i = lpath J l' ! i"
        for i l l'
        using ih0 by blast
      have "B \<subseteq> A" using ih(2) sub_subset by blast
      moreover have "lpath J l ! i = lpath J l' ! i"
        if "\<not> is_singleton B" "d \<le> i" "i < e" "l \<in> B" "l' \<in> B" for i l l'
      proof (cases "i = d")
        case True
        have "l \<in> sub J d n A" "l' \<in> sub J d n A" using ih(2) that(4,5) by blast+
        then show ?thesis using True by (simp add: sub_def)
      next
        case False
        then have "Suc d \<le> i" using that(2) by simp
        then show ?thesis using ih5 that by blast
      qed
      moreover have "\<not> is_singleton B \<Longrightarrow> d \<le> e \<and> e < 64 \<and> leaves_ok J e B \<and> (e = d \<longrightarrow> B = A)"
        using ih(4) by simp
      ultimately show ?thesis using ih(1,3) by blast
    qed
  qed
qed

text \<open>
  The nodes below a live node are live, and a set of nodes with this property whose hashes
  differ can be told apart by their hashes.
\<close>

definition ids_ok :: "('k, 'h) jelly \<Rightarrow> ('k, 'h) node_id set \<Rightarrow> bool" where
  "ids_ok J T \<longleftrightarrow> (\<forall>e B. (e, B) \<in> T \<longrightarrow> B \<noteq> {} \<and> (is_singleton B \<longrightarrow> e = 0) \<and>
     (\<not> is_singleton B \<longrightarrow> e < 64 \<and> leaves_ok J e B) \<and>
     (\<forall>i l l'. \<not> is_singleton B \<longrightarrow> i < e \<longrightarrow> l \<in> B \<longrightarrow> l' \<in> B \<longrightarrow> lpath J l ! i = lpath J l' ! i) \<and>
     (\<forall>n. \<not> is_singleton B \<longrightarrow> n < 16 \<longrightarrow> sub J e n B \<noteq> {} \<longrightarrow> nid (Suc e) (sub J e n B) \<in> T))"

lemma ids_okD:
  assumes "ids_ok J T" "nid e B \<in> T"
  shows "B \<noteq> {}" "\<not> is_singleton B \<Longrightarrow> e < 64" "\<not> is_singleton B \<Longrightarrow> leaves_ok J e B"
    "\<not> is_singleton B \<Longrightarrow> i < e \<Longrightarrow> l \<in> B \<Longrightarrow> l' \<in> B \<Longrightarrow> lpath J l ! i = lpath J l' ! i"
    "\<not> is_singleton B \<Longrightarrow> n < 16 \<Longrightarrow> sub J e n B \<noteq> {} \<Longrightarrow> nid (Suc e) (sub J e n B) \<in> T"
proof -
  have e: "(if is_singleton B then 0 else e, B) \<in> T" using assms(2) by (simp add: nid_def)
  note D = mp [OF spec [OF spec [OF assms(1) [unfolded ids_ok_def]]] e]
  show "B \<noteq> {}" by (rule conjunct1 [OF D])
  assume s: "\<not> is_singleton B"
  have D: "(e < 64 \<and> leaves_ok J e B) \<and>
     (\<forall>i l l'. i < e \<longrightarrow> l \<in> B \<longrightarrow> l' \<in> B \<longrightarrow> lpath J l ! i = lpath J l' ! i) \<and>
     (\<forall>n. n < 16 \<longrightarrow> sub J e n B \<noteq> {} \<longrightarrow> nid (Suc e) (sub J e n B) \<in> T)"
    using D [THEN conjunct2, THEN conjunct2] unfolding if_not_P [OF s] using s by blast
  show "e < 64" "leaves_ok J e B" using D [THEN conjunct1] by blast+
  show "i < e \<Longrightarrow> l \<in> B \<Longrightarrow> l' \<in> B \<Longrightarrow> lpath J l ! i = lpath J l' ! i" using D by blast
  show "n < 16 \<Longrightarrow> sub J e n B \<noteq> {} \<Longrightarrow> nid (Suc e) (sub J e n B) \<in> T" using D by blast
qed

lemma ids_ok_nid: "ids_ok J T \<Longrightarrow> x \<in> T \<Longrightarrow> nid (fst x) (snd x) = x"
  by (cases x) (auto simp: ids_ok_def nid_def)

lemma live_closed:
  assumes "crypto_ok (jcrypto J)" "leaves_ok J d A" "(e, B) \<in> live J d A"
    "\<not> is_singleton B" "n < 16" "sub J e n B \<noteq> {}"
  shows "nid (Suc e) (sub J e n B) \<in> live J d A"
  using assms
proof (induction J d A rule: live.induct)
  case (1 J d A)
  have A: "A \<noteq> {}" "\<not> is_singleton A"
    using "1.prems"(3,4) by (auto simp: is_singleton_iff nid_def)
  then have d: "d < 64" using leaves_ok_lt_64 "1.prems"(1,2) by blast
  then consider "(e, B) = nid d A" | m where "m < 16" "(e, B) \<in> live J (Suc d) (sub J d m A)"
    using A "1.prems"(3) live_step [of A d J] by auto
  then show ?case
  proof cases
    case 1
    then have [simp]: "e = d" "B = A" using A by (simp_all add: nid_def)
    have "is_singleton (sub J d n A) \<or> Suc d < 64"
      using leaves_ok_lt_64 [OF "1.prems"(1) leaves_ok_sub [OF "1.prems"(1,2) d, of n]] "1.prems"(6) by auto
    then have "nid (Suc d) (sub J d n A) \<in> live J (Suc d) (sub J d n A)"
      using "1.prems"(6) by (intro nid_live) auto
    then show ?thesis using A d "1.prems"(5) by (auto simp: live_step)
  next
    case 2
    have "nid (Suc e) (sub J e n B) \<in> live J (Suc d) (sub J d m A)"
      using "1.IH" [of m] A d 2 "1.prems"(1,4-6) leaves_ok_sub [OF "1.prems"(1,2) d, of m]
      by (simp add: set_all_nibbles)
    then show ?thesis using A d 2(1) by (auto simp: live_step)
  qed
qed

lemma live_ids_ok:
  assumes "crypto_ok (jcrypto J)" "leaves_ok J 0 S"
  shows "ids_ok J (live J 0 S)"
  unfolding ids_ok_def
proof (intro allI impI conjI)
  fix e B assume x: "(e, B) \<in> live J 0 S"
  note D = live_dest [OF assms x]
  show "B \<noteq> {}" using D by blast
  show "is_singleton B \<Longrightarrow> e = 0" using D by blast
  show "\<not> is_singleton B \<Longrightarrow> e < 64" "\<not> is_singleton B \<Longrightarrow> leaves_ok J e B" using D by blast+
  show "\<not> is_singleton B \<Longrightarrow> i < e \<Longrightarrow> l \<in> B \<Longrightarrow> l' \<in> B \<Longrightarrow> lpath J l ! i = lpath J l' ! i" for i l l'
    using D by blast
  show "\<not> is_singleton B \<Longrightarrow> n < 16 \<Longrightarrow> sub J e n B \<noteq> {} \<Longrightarrow> nid (Suc e) (sub J e n B) \<in> live J 0 S" for n
    using live_closed [OF assms x] by blast
qed

lemma ids_ok_Un: "ids_ok J T \<Longrightarrow> ids_ok J T' \<Longrightarrow> ids_ok J (T \<union> T')"
  unfolding ids_ok_def by blast

lemma sub_eqI:
  assumes "crypto_ok (jcrypto J)" "d < 64" "e < 64" "\<And>n. n < 16 \<Longrightarrow> sub J d n A = sub J e n B"
  shows "A = B"
  using sub_cover [OF assms(1,2), of A] sub_cover [OF assms(1,3), of B] assms(4) by auto

lemma cnode_cases:
  assumes "A \<noteq> {}" "B \<noteq> {}" "cnode J d A = cnode J e B"
  shows "(is_singleton A \<and> B = A) \<or> (\<not> is_singleton A \<and> \<not> is_singleton B \<and> cchildren J d A = cchildren J e B)"
  using assms by (auto simp: cnode_def is_singleton_iff split: if_splits)

lemma cnode_inject:
  assumes C: "crypto_ok (jcrypto J)" and T: "ids_ok J T" and inj: "inj_on (node_hash J) (node_of J ` T)"
    and "nid d A \<in> T" "nid e B \<in> T" "cnode J d A = cnode J e B"
  shows "nid d A = nid e B"
  using assms(4-6)
proof (induction "64 - d" arbitrary: d e A B)
  case 0
  have ne: "A \<noteq> {}" "B \<noteq> {}" using ids_okD(1) [OF T] 0 by blast+
  have "is_singleton A" using ids_okD(2) [OF T 0(2)] 0(1) by fastforce
  then show ?case using cnode_cases [OF ne 0(4)] by (auto simp: nid_def)
next
  case (Suc k)
  have ne: "A \<noteq> {}" "B \<noteq> {}" using ids_okD(1) [OF T] Suc.prems by blast+
  show ?case
  proof (cases "is_singleton A")
    case True
    then show ?thesis using cnode_cases [OF ne Suc.prems(3)] by (auto simp: nid_def)
  next
    case False
    then have nb: "\<not> is_singleton B" and ch: "cchildren J d A = cchildren J e B"
      using cnode_cases [OF ne Suc.prems(3)] by auto
    have a: "d < 64" "leaves_ok J d A" "\<And>n. n < 16 \<Longrightarrow> sub J d n A \<noteq> {} \<Longrightarrow> nid (Suc d) (sub J d n A) \<in> T"
      "\<And>i l l'. i < d \<Longrightarrow> l \<in> A \<Longrightarrow> l' \<in> A \<Longrightarrow> lpath J l ! i = lpath J l' ! i"
      using ids_okD(2-5) [OF T Suc.prems(1) False] by blast+
    have b: "e < 64" "leaves_ok J e B" "\<And>n. n < 16 \<Longrightarrow> sub J e n B \<noteq> {} \<Longrightarrow> nid (Suc e) (sub J e n B) \<in> T"
      "\<And>i l l'. i < e \<Longrightarrow> l \<in> B \<Longrightarrow> l' \<in> B \<Longrightarrow> lpath J l ! i = lpath J l' ! i"
      using ids_okD(2-5) [OF T Suc.prems(2) nb] by blast+
    have child: "nid (Suc d) (sub J d n A) = nid (Suc e) (sub J e n B)" if n: "n < 16" "sub J d n A \<noteq> {}" for n
    proof -
      have c: "sub J e n B \<noteq> {}" "hash_at J (Suc d) (sub J d n A) = hash_at J (Suc e) (sub J e n B)"
        using fun_cong [OF ch, of n] n by (auto simp: cchildren_def child_new_def split: if_splits)
      have "node_hash J (cnode J (Suc d) (sub J d n A)) = node_hash J (cnode J (Suc e) (sub J e n B))"
        using node_hash_cnode [OF C leaves_ok_sub [OF C a(2,1), of n]]
          node_hash_cnode [OF C leaves_ok_sub [OF C b(2,1), of n]] c(2) by simp
      then have "cnode J (Suc d) (sub J d n A) = cnode J (Suc e) (sub J e n B)"
        using inj a(3) [OF n] b(3) [OF n(1) c(1)] unfolding inj_on_def by (metis imageI node_of_nid)
      then show ?thesis using Suc.hyps(1) [of "Suc d"] Suc.hyps(2) a(3) [OF n] b(3) [OF n(1) c(1)] by simp
    qed
    have sub: "sub J d n A = sub J e n B" if n: "n < 16" for n
    proof (cases "sub J d n A = {}")
      case True
      then show ?thesis using fun_cong [OF ch, of n] n by (auto simp: cchildren_def split: if_splits)
    qed (use child [OF n] in \<open>metis snd_nid\<close>)
    have AB: "A = B" by (rule sub_eqI [OF C a(1) b(1) sub])
    obtain l where l1: "l \<in> A" using ne(1) by blast
    have "A \<noteq> {l}" using False by (auto simp: is_singleton_iff)
    then obtain l' where l: "l \<in> A" "l' \<in> A" "l \<noteq> l'" using l1 by blast
    have share: False if "i < 64" "\<And>n. n < 16 \<Longrightarrow> sub J i n A \<noteq> {} \<Longrightarrow> is_singleton (sub J i n A)"
      "lpath J l ! i = lpath J l' ! i" for i
    proof -
      have "l \<in> sub J i (lpath J l ! i) A" "l' \<in> sub J i (lpath J l ! i) A" using l that(3) by (auto simp: sub_def)
      then show False
        using that(2) [OF lpath_less [OF C that(1), of l]] l(3) by (metis empty_iff is_singleton_iff singletonD)
    qed
    have "d = e"
    proof (cases "\<exists>n < 16. sub J d n A \<noteq> {} \<and> \<not> is_singleton (sub J d n A)")
      case True
      then show ?thesis using child sub by (fastforce simp: nid_def)
    next
      case singles: False
      show ?thesis
      proof (cases d e rule: linorder_cases)
        case less
        then show ?thesis using share [of d] a(1) singles b(4) [of d l l'] l AB by auto
      next
        case greater
        then show ?thesis using share [of e] b(1) singles sub a(4) [of e l l'] l AB by auto
      qed
    qed
    then show ?thesis using AB by simp
  qed
qed

lemma ids_node_hash:
  assumes "crypto_ok (jcrypto J)" "ids_ok J T" "x \<in> T"
  shows "node_hash J (node_of J x) = Inr (hash_of J x)"
proof (cases "is_singleton (snd x)")
  case True
  then show ?thesis by (auto simp: node_of_def hash_of_def cnode_def is_singleton_iff)
next
  case False
  then have "leaves_ok J (fst x) (snd x)"
    using ids_okD(3) [OF assms(2), of "fst x" "snd x"] ids_ok_nid [OF assms(2,3)] assms(3) by simp
  then show ?thesis using node_hash_cnode [OF assms(1)] by (simp add: node_of_def hash_of_def)
qed

lemma hash_of_inject:
  assumes C: "crypto_ok (jcrypto J)" and T: "ids_ok J T" and inj: "inj_on (node_hash J) (node_of J ` T)"
    and "x \<in> T" "y \<in> T" "hash_of J x = hash_of J y"
  shows "x = y"
proof -
  have "node_of J x = node_of J y"
    using inj ids_node_hash [OF C T assms(4)] ids_node_hash [OF C T assms(5)] assms(4-6)
    by (metis imageI inj_onD)
  then show ?thesis
    using cnode_inject [OF C T inj, of "fst x" "snd x" "fst y" "snd y"] ids_ok_nid [OF T assms(4)] ids_ok_nid [OF T assms(5)] assms(4,5)
    by (simp add: node_of_def)
qed

end
