(* ===== verification/Sparse_Update.thy ===== *)
theory Sparse_Update
  imports Sparse_Spec
begin

text \<open>
  What an insertion or deletion does to the set of leaves, \<open>leaf_update\<close>, and how the nodes
  of the tree before and after relate: only the nodes on the path of the key differ.
\<close>

section \<open>Updating a set of leaves\<close>

definition same_key :: "('k, 'h) jelly \<Rightarrow> 'k \<Rightarrow> ('k, 'h) LeafNode \<Rightarrow> bool" where
  "same_key J key l \<longleftrightarrow> key_hash J (raw_key l) = key_hash J key"

definition leaf_update ::
  "('k, 'h) jelly \<Rightarrow> 'k \<Rightarrow> Blob option \<Rightarrow> ('k, 'h) leaves \<Rightarrow> ('k, 'h) leaves" where
  "leaf_update J key blob_opt A =
     (case blob_opt of
        None \<Rightarrow> {l \<in> A. \<not> same_key J key l}
      | Some b \<Rightarrow>
          if \<exists>l \<in> A. same_key J key l \<and> blob_hash l = blob_crypto_hash J b then A
          else insert (leaf_new J key b) {l \<in> A. \<not> same_key J key l})"

abbreviation kpath :: "('k, 'h) jelly \<Rightarrow> 'k \<Rightarrow> Nibble list" where
  "kpath J key \<equiv> hpath J (key_hash J key)"

lemma same_key_path: "crypto_ok (jcrypto J) \<Longrightarrow> same_key J key l \<longleftrightarrow> lpath J l = kpath J key"
  by (simp add: same_key_def lpath_def hpath_inject)

lemma lpath_leaf_new [simp]: "lpath J (leaf_new J key b) = kpath J key"
  by (simp add: lpath_def leaf_new_def)

lemma leaf_update_cases:
  obtains "leaf_update J key blob_opt A = A"
  | "leaf_update J key blob_opt A = {l \<in> A. \<not> same_key J key l}" "blob_opt = None"
  | b where "leaf_update J key blob_opt A = insert (leaf_new J key b) {l \<in> A. \<not> same_key J key l}"
      "blob_opt = Some b" "leaf_new J key b \<notin> A"
      "\<not> (\<exists>l \<in> A. same_key J key l \<and> blob_hash l = blob_crypto_hash J b)"
proof (cases blob_opt)
  case None
  then show ?thesis using that(2) by (simp add: leaf_update_def)
next
  case (Some b)
  show ?thesis
  proof (cases "\<exists>l \<in> A. same_key J key l \<and> blob_hash l = blob_crypto_hash J b")
    case True
    then show ?thesis using that(1) Some by (simp add: leaf_update_def)
  next
    case False
    then have "leaf_new J key b \<notin> A" by (auto simp: same_key_def leaf_new_def)
    then show ?thesis using that(3) [of b] False Some by (simp add: leaf_update_def)
  qed
qed

lemma leaf_update_subset: "l \<in> leaf_update J key blob_opt A \<Longrightarrow> l \<in> A \<or> lpath J l = kpath J key"
  by (rule leaf_update_cases [of J key blob_opt A]) auto

lemma leaf_update_other: "l \<in> A \<Longrightarrow> \<not> same_key J key l \<Longrightarrow> l \<in> leaf_update J key blob_opt A"
  by (rule leaf_update_cases [of J key blob_opt A]) auto

lemma leaves_ok_update:
  assumes C: "crypto_ok (jcrypto J)" and A: "leaves_ok J d A"
    and pre: "\<And>l. l \<in> A \<Longrightarrow> take d (lpath J l) = take d (kpath J key)"
  shows "leaves_ok J d (leaf_update J key blob_opt A)"
proof (rule leaf_update_cases [of J key blob_opt A])
  fix b assume e: "leaf_update J key blob_opt A = insert (leaf_new J key b) {l \<in> A. \<not> same_key J key l}"
  have "drop d (lpath J l) \<noteq> drop d (kpath J key)" if "l \<in> A" "\<not> same_key J key l" for l
    using pre [OF that(1)] that(2) same_key_path [OF C] by (metis append_take_drop_id)
  then show ?thesis using A unfolding e leaves_ok_def inj_on_def by fastforce
qed (use A in \<open>auto intro: leaves_ok_mono\<close>)

lemma sub_update:
  assumes C: "crypto_ok (jcrypto J)" and n: "n = kpath J key ! d"
  shows "sub J d n (leaf_update J key blob_opt A) = leaf_update J key blob_opt (sub J d n A)"
    and "m \<noteq> n \<Longrightarrow> sub J d m (leaf_update J key blob_opt A) = sub J d m A"
proof -
  have s: "same_key J key l \<Longrightarrow> lpath J l ! d = n" for l using same_key_path [OF C] n by auto
  then show "sub J d n (leaf_update J key blob_opt A) = leaf_update J key blob_opt (sub J d n A)"
    using n by (auto simp: leaf_update_def sub_def split: option.splits)
  assume "m \<noteq> n"
  then show "sub J d m (leaf_update J key blob_opt A) = sub J d m A"
    using s n by (auto simp: leaf_update_def sub_def split: option.splits)
qed

lemma update_eq_iff:
  assumes "crypto_ok (jcrypto J)" "n = kpath J key ! d" "d < 64"
  shows "leaf_update J key blob_opt (sub J d n A) = sub J d n A \<longleftrightarrow> leaf_update J key blob_opt A = A"
proof
  assume "leaf_update J key blob_opt (sub J d n A) = sub J d n A"
  then have "sub J d m (leaf_update J key blob_opt A) = sub J d m A" for m
    using sub_update [OF assms(1,2)] by metis
  then show "leaf_update J key blob_opt A = A" using sub_eqI [OF assms(1,3,3)] by blast
next
  assume "leaf_update J key blob_opt A = A"
  then show "leaf_update J key blob_opt (sub J d n A) = sub J d n A" using sub_update(1) [OF assms(1,2)] by metis
qed

section \<open>Live nodes\<close>

lemma live_leaf:
  assumes "crypto_ok (jcrypto J)" "leaves_ok J d A" "l \<in> A"
  shows "(0, {l}) \<in> live J d A"
  using assms
proof (induction J d A rule: live.induct)
  case (1 J d A)
  show ?case
  proof (cases "is_singleton A")
    case True
    then show ?thesis using "1.prems"(3) by (auto simp: is_singleton_iff nid_def)
  next
    case False
    then have d: "d < 64" using leaves_ok_lt_64 "1.prems" by blast
    let ?n = "lpath J l ! d"
    have n: "?n < 16" using lpath_less [OF "1.prems"(1) d] .
    have p: "A \<noteq> {}" "\<not> (is_singleton A \<or> 64 \<le> d)" "?n \<in> set all_nibbles" "l \<in> sub J d ?n A"
      using False d n "1.prems"(3) by (auto simp: set_all_nibbles sub_def)
    have "(0, {l}) \<in> live J (Suc d) (sub J d ?n A)"
      using "1.IH" [OF p(1-3) "1.prems"(1) leaves_ok_sub [OF "1.prems"(1,2) d] p(4)] .
    then show ?thesis using live_step [OF p(1) False d, of J] n by blast
  qed
qed

lemma live_sub_subset:
  assumes C: "crypto_ok (jcrypto J)" "leaves_ok J d A" and d: "d < 64" "n < 16"
  shows "live J (Suc d) (sub J d n A) \<subseteq> live J d A"
proof (cases "A = {} \<or> is_singleton A")
  case True
  then consider "A = {}" | l where "A = {l}" by (auto simp: is_singleton_iff)
  then show ?thesis
  proof cases
    case 2
    have "sub J d n {l} = {} \<or> sub J d n {l} = {l}" by (auto simp: sub_def)
    then show ?thesis unfolding 2 by (elim disjE) (simp_all add: nid_def)
  qed (simp add: sub_def)
next
  case False
  then show ?thesis using live_step [of A d J] d by blast
qed

text \<open>Nodes below different children, or at different depths, are different.\<close>

lemma live_disjoint:
  assumes C: "crypto_ok (jcrypto J)" and A: "leaves_ok J (Suc d) (sub J d m A)" "leaves_ok J (Suc d) (sub J d n B)"
    and "m \<noteq> n" "x \<in> live J (Suc d) (sub J d m A)"
  shows "x \<notin> live J (Suc d) (sub J d n B)"
proof
  assume y: "x \<in> live J (Suc d) (sub J d n B)"
  obtain e X where x: "x = (e, X)" by (cases x)
  have "X \<noteq> {}" "X \<subseteq> sub J d m A" "X \<subseteq> sub J d n B"
    using live_dest [OF C A(1), of e X] live_dest [OF C A(2), of e X] assms(5) y x by blast+
  then show False using assms(4) by (auto simp: sub_def)
qed

lemma live_deeper:
  assumes "crypto_ok (jcrypto J)" "leaves_ok J (Suc d) B" "\<not> is_singleton A"
  shows "nid d A \<notin> live J (Suc d) B"
  using live_dest [OF assms(1,2), of d A] assms(3) by (auto simp: nid_def)

definition siblings_live :: "('k, 'h) jelly \<Rightarrow> nat \<Rightarrow> Nibble \<Rightarrow> ('k, 'h) leaves \<Rightarrow> ('k, 'h) node_id set" where
  "siblings_live J d n A = (\<Union>m \<in> {m. m < 16 \<and> m \<noteq> n}. live J (Suc d) (sub J d m A))"

lemma live_decomp:
  assumes "A \<noteq> {}" "\<not> is_singleton A" "d < 64" "n < 16"
  shows "live J d A = insert (nid d A) (siblings_live J d n A \<union> live J (Suc d) (sub J d n A))"
  unfolding live_step [OF assms(1-3)] siblings_live_def using assms(4) by auto

lemma live_update_diff:
  fixes J :: "('k, 'h) jelly"
  assumes C: "crypto_ok (jcrypto J)" and A: "leaves_ok J d A" "A \<noteq> {}" "\<not> is_singleton A"
    and A': "leaves_ok J d A'" "A' \<noteq> {}" and n: "n < 16" and other: "\<And>m. m \<noteq> n \<Longrightarrow> sub J d m A' = sub J d m A"
    and ne: "A' \<noteq> A"
  shows "live J d A - live J d A' =
      insert (nid d A) (live J (Suc d) (sub J d n A) - live J (Suc d) (sub J d n A'))"
    and "live J d A' - live J d A = (if is_singleton A' then {} else {nid d A'}) \<union>
      (live J (Suc d) (sub J d n A') - live J (Suc d) (sub J d n A))"
proof -
  have d: "d < 64" using leaves_ok_lt_64 [OF C A] .
  let ?U = "siblings_live J d n A" and ?I = "live J (Suc d) (sub J d n A)" and ?I' = "live J (Suc d) (sub J d n A')"
  note ok = leaves_ok_sub [OF C A(1) d] leaves_ok_sub [OF C A'(1) d]
  have U': "siblings_live J d n A' = ?U" using other by (simp add: siblings_live_def)
  have dis: "?U \<inter> ?I = {}" "?U \<inter> ?I' = {}"
    using live_disjoint [OF C ok(1) ok(1)] live_disjoint [OF C ok(1) ok(2)] unfolding siblings_live_def by blast+
  have deep: "nid d B \<notin> ?U" "nid d B \<notin> ?I" "nid d B \<notin> ?I'" if "\<not> is_singleton B" for B
    using live_deeper [OF C _ that] ok unfolding siblings_live_def by blast+
  have LA: "live J d A = insert (nid d A) (?U \<union> ?I)" using live_decomp [OF A(2,3) d n] .
  show "live J d A - live J d A' = insert (nid d A) (?I - ?I')"
    "live J d A' - live J d A = (if is_singleton A' then {} else {nid d A'}) \<union> (?I' - ?I)"
  proof (atomize (full), cases "is_singleton A'")
    case False
    have LA': "live J d A' = insert (nid d A') (?U \<union> ?I')" using live_decomp [OF A'(2) False d n, of J] U' by simp
    have "nid d A \<noteq> nid d A'" using ne by (metis snd_nid)
    then show "live J d A - live J d A' = insert (nid d A) (?I - ?I') \<and>
        live J d A' - live J d A = (if is_singleton A' then {} else {nid d A'}) \<union> (?I' - ?I)"
      unfolding LA LA' using False deep [OF A(3)] deep [OF False] dis by auto
  next
    case True
    then obtain l where l: "A' = {l}" by (auto simp: is_singleton_iff)
    have LA': "live J d A' = ?U \<union> ?I'"
    proof (cases "lpath J l ! d = n")
      case True
      then have "sub J d n A' = {l}" "\<And>m. m \<noteq> n \<Longrightarrow> sub J d m A' = {}" by (auto simp: l sub_def)
      moreover have "?U = {}" using calculation(2) other by (simp add: siblings_live_def)
      ultimately show ?thesis by (simp add: l nid_def)
    next
      case False
      let ?m = "lpath J l ! d"
      have s: "sub J d n A' = {}" "sub J d ?m A' = {l}" "\<And>m. m \<noteq> ?m \<Longrightarrow> sub J d m A' = {}"
        using False by (auto simp: l sub_def)
      have "siblings_live J d n A' = live J (Suc d) {l}"
      proof -
        have e: "live J (Suc d) (sub J d m A') = (if m = ?m then live J (Suc d) {l} else {})" for m
          using s(2,3) by simp
        show ?thesis unfolding siblings_live_def e using False lpath_less [OF C d, of l] by (auto split: if_splits)
      qed
      then show ?thesis using s(1) U' by (simp add: l nid_def)
    qed
    have "live J d A' = {nid d A'}" by (simp add: l)
    then have "nid d A \<notin> live J d A'" using ne by (metis singletonD snd_nid)
    then show "live J d A - live J d A' = insert (nid d A) (?I - ?I') \<and>
        live J d A' - live J d A = (if is_singleton A' then {} else {nid d A'}) \<union> (?I' - ?I)"
      unfolding LA LA' using True deep [OF A(3)] dis by auto
  qed
qed

section \<open>Children of a canonical node\<close>

lemma cchildren_ok [simp]: "children_ok (cchildren J d A)"
  by (simp add: children_ok_def cchildren_def)

lemma children_iter_eq_single:
  assumes "children_iter c = [(n, ch)]"
  shows "c n = Some ch" "n < 16" "m < 16 \<Longrightarrow> m \<noteq> n \<Longrightarrow> c m = None"
proof -
  have "(n, ch) \<in> set (children_iter c)" using assms by simp
  then show "c n = Some ch" "n < 16" by (auto simp: set_children_iter)
  assume "m < 16" "m \<noteq> n"
  then show "c m = None" using assms set_children_iter [of m _ c] by (cases "c m") auto
qed

lemma map_fst_map_filter: "map fst (List.map_filter (\<lambda>n. map_option (Pair n) (f n)) ns) = filter (\<lambda>n. f n \<noteq> None) ns"
  by (induction ns) (auto simp: List.map_filter_simps split: option.splits)

lemma children_iter_cchildren:
  assumes C: "crypto_ok (jcrypto J)" and d: "d < 64" and A: "A \<noteq> {}"
  shows "children_iter (cchildren J d A) \<noteq> []"
    and "is_singleton A \<Longrightarrow> children_iter (cchildren J d A) =
      [(lpath J (the_elem A) ! d, child_new (leaf_crypto_hash J (the_elem A)) True)]"
    and "\<not> is_singleton A \<Longrightarrow> children_iter (cchildren J d A) = [(n, ch)] \<Longrightarrow> \<not> child_is_leaf ch"
proof -
  obtain l where l: "l \<in> A" using A by blast
  have "lpath J l ! d < 16" using lpath_less [OF C d] .
  moreover have "sub J d (lpath J l ! d) A \<noteq> {}" using l by (auto simp: sub_def)
  ultimately have "cchildren J d A (lpath J l ! d) \<noteq> None" by (simp add: cchildren_def)
  then show ne: "children_iter (cchildren J d A) \<noteq> []" using children_iter_Nil [of "cchildren J d A"] by auto
  show "children_iter (cchildren J d A) =
      [(lpath J (the_elem A) ! d, child_new (leaf_crypto_hash J (the_elem A)) True)]" if s: "is_singleton A"
  proof -
    obtain a where a: "A = {a}" using s by (auto simp: is_singleton_iff)
    let ?n = "lpath J a ! d"
    have c: "cchildren J d A m = (if m = ?n then Some (child_new (leaf_crypto_hash J a) True) else None)" for m
    proof (cases "m = ?n")
      case True
      then have "sub J d m A = {a}" by (auto simp: a sub_def)
      then show ?thesis using True lpath_less [OF C d, of a] by (simp add: cchildren_def)
    next
      case False
      then have "sub J d m A = {}" by (auto simp: a sub_def)
      then show ?thesis using False by (simp add: cchildren_def)
    qed
    have n16: "?n < 16" using lpath_less [OF C d] .
    let ?xs = "children_iter (cchildren J d A)"
    have "distinct (map fst ?xs)"
    proof -
      have "distinct all_nibbles" by code_simp
      moreover have "map fst ?xs = filter (\<lambda>n. cchildren J d A n \<noteq> None) all_nibbles"
        unfolding children_iter_def by (rule map_fst_map_filter)
      ultimately show ?thesis by simp
    qed
    then have "distinct ?xs" by (simp add: distinct_map)
    moreover have "set ?xs = {(?n, child_new (leaf_crypto_hash J a) True)}"
      using set_children_iter [of _ _ "cchildren J d A"] n16 by (auto simp: c split: if_splits)
    ultimately have "length ?xs = 1" using distinct_card by fastforce
    then obtain y where "?xs = [y]" by (cases ?xs) auto
    then show ?thesis using \<open>set ?xs = _\<close> a by simp
  qed
  show "\<not> child_is_leaf ch" if s: "\<not> is_singleton A" "children_iter (cchildren J d A) = [(n, ch)]"
  proof -
    note k = children_iter_eq_single [OF s(2)]
    have "sub J d m A = {}" if "m < 16" "m \<noteq> n" for m
      using k(3) [OF that] that by (simp add: cchildren_def split: if_splits)
    then have "A = sub J d n A" using sub_cover [OF C d, of A] sub_subset [of J d n A] by blast
    then show ?thesis using k(1) s(1) by (auto simp: cchildren_def child_new_def split: if_splits)
  qed
qed

end
