(* ===== verification/Sparse_Path.thy ===== *)
theory Sparse_Path
  imports Sparse_Update
begin

text \<open>
  Paths in the binary sparse Merkle tree: the leaves that share the first bits of a path, the
  siblings on the way down, and that the siblings fold back to the root hash. Within a node
  of sixteen children, going down one bit halves an aligned range of nibbles.
\<close>

section \<open>Paths in the binary tree\<close>

text \<open>The leaves that share \<open>m\<close> bits from bit \<open>i\<close> on with the path \<open>p\<close>, and the siblings on the way.\<close>

definition bdown :: "('k, 'h) jelly \<Rightarrow> Nibble list \<Rightarrow> nat \<Rightarrow> nat \<Rightarrow> ('k, 'h) leaves \<Rightarrow> ('k, 'h) leaves" where
  "bdown J p i m A = {l \<in> A. \<forall>j. i \<le> j \<longrightarrow> j < i + m \<longrightarrow> pbit (lpath J l) j = pbit p j}"

fun bsibs :: "('k, 'h) jelly \<Rightarrow> Nibble list \<Rightarrow> nat \<Rightarrow> nat \<Rightarrow> ('k, 'h) leaves \<Rightarrow> 'h list" where
  "bsibs J p i 0 A = []"
| "bsibs J p i (Suc m) A =
     smt J (255 - i) {l \<in> A. pbit (lpath J l) i \<noteq> pbit p i} # bsibs J p (Suc i) m (bdown J p i 1 A)"

text \<open>The hash that the siblings give back.\<close>

fun climb :: "('k, 'h) jelly \<Rightarrow> Nibble list \<Rightarrow> nat \<Rightarrow> 'h list \<Rightarrow> 'h \<Rightarrow> 'h" where
  "climb J p i [] h = h"
| "climb J p i (s # ss) h =
     (if pbit p i then sparse_internal_hash J s (climb J p (Suc i) ss h)
      else sparse_internal_hash J (climb J p (Suc i) ss h) s)"

definition small :: "('k, 'h) leaves \<Rightarrow> bool" where
  "small A \<longleftrightarrow> A = {} \<or> is_singleton A"

lemma bdown_0 [simp]: "bdown J p i 0 A = A"
  by (simp add: bdown_def)

lemma bdown_subset: "bdown J p i m A \<subseteq> A"
  by (auto simp: bdown_def)

lemma bdown_add: "bdown J p i (m + k) A = bdown J p (i + m) k (bdown J p i m A)"
proof -
  have "(\<forall>j. i \<le> j \<longrightarrow> j < i + (m + k) \<longrightarrow> Q j) \<longleftrightarrow>
      (\<forall>j. i \<le> j \<longrightarrow> j < i + m \<longrightarrow> Q j) \<and> (\<forall>j. i + m \<le> j \<longrightarrow> j < i + m + k \<longrightarrow> Q j)" for Q
  proof (intro iffI conjI allI impI)
    fix j assume "(\<forall>j. i \<le> j \<longrightarrow> j < i + m \<longrightarrow> Q j) \<and> (\<forall>j. i + m \<le> j \<longrightarrow> j < i + m + k \<longrightarrow> Q j)"
      "i \<le> j" "j < i + (m + k)"
    then show "Q j" by (cases "j < i + m") auto
  qed auto
  then show ?thesis unfolding bdown_def by auto
qed

lemma bdown_Suc: "bdown J p i (Suc m) A = bdown J p (Suc i) m (bdown J p i 1 A)"
  using bdown_add [of J p i 1 m A] by simp

lemma length_bsibs [simp]: "length (bsibs J p i m A) = m"
  by (induction m arbitrary: i A) auto

lemma bsibs_add: "bsibs J p i (m + k) A = bsibs J p i m A @ bsibs J p (i + m) k (bdown J p i m A)"
proof (induction m arbitrary: i A)
  case (Suc m)
  show ?case using Suc.IH [of "Suc i" "bdown J p i 1 A"] unfolding bdown_Suc [of J p i m A] by simp
qed simp

lemma climb_append: "climb J p i (xs @ ys) h = climb J p i xs (climb J p (i + length xs) ys h)"
  by (induction xs arbitrary: i) auto

lemma smt_big: "\<not> small A \<Longrightarrow> smt J (Suc n) A = sparse_internal_hash J
    (smt J n {l \<in> A. \<not> pbit (lpath J l) (255 - n)}) (smt J n {l \<in> A. pbit (lpath J l) (255 - n)})"
  by (simp add: small_def)

lemma smt_climb1:
  assumes "i < 256" "\<not> small A"
  shows "smt J (256 - i) A = climb J p i (bsibs J p i 1 A) (smt J (255 - i) (bdown J p i 1 A))"
proof -
  have n: "256 - i = Suc (255 - i)" "255 - (255 - i) = i" using assms(1) by simp_all
  have b: "bdown J p i 1 A = {l \<in> A. pbit (lpath J l) i = pbit p i}" by (auto simp: bdown_def le_less_Suc_eq)
  show ?thesis unfolding n(1) smt_big [OF assms(2)] n(2) b by (cases "pbit p i") simp_all
qed

lemma smt_climb:
  assumes "\<And>j. j < m \<Longrightarrow> \<not> small (bdown J p i j A)" "i + m \<le> 256"
  shows "smt J (256 - i) A = climb J p i (bsibs J p i m A) (smt J (256 - (i + m)) (bdown J p i m A))"
  using assms
proof (induction m arbitrary: i A)
  case (Suc m)
  have big: "\<not> small A" using Suc.prems(1) [of 0] by simp
  have "\<not> small (bdown J p (Suc i) j (bdown J p i 1 A))" if "j < m" for j
    using Suc.prems(1) [of "Suc j", unfolded bdown_Suc [of J p i j A]] that by blast
  then have ih: "smt J (256 - Suc i) (bdown J p i 1 A) = climb J p (Suc i) (bsibs J p (Suc i) m (bdown J p i 1 A))
      (smt J (256 - (Suc i + m)) (bdown J p (Suc i) m (bdown J p i 1 A)))"
    by (rule Suc.IH) (use Suc.prems(2) in simp_all)
  have e: "256 - Suc i = 255 - i" "Suc i + m = i + Suc m" by simp_all
  have i: "i < 256" using Suc.prems(2) by simp
  show ?case
    unfolding smt_climb1 [OF i big, of J p] ih [unfolded e] bdown_Suc [of J p i m A] by simp
qed simp

section \<open>Within a node\<close>

text \<open>Sharing the upper bits of a nibble means being in the same aligned range.\<close>

lemma upper_bits:
  fixes x n :: Nibble
  assumes "x < 16" "n < 16" "k \<le> 4"
  shows "(\<forall>i. k \<le> i \<longrightarrow> i < 4 \<longrightarrow> bit x i = bit n i) \<longleftrightarrow> unat x div 2 ^ k = unat n div 2 ^ k"
proof -
  have hi: "\<not> bit y i" if "y < 16" "4 \<le> i" for y :: Nibble and i using that less_16_bit by blast
  have "(\<forall>i. k \<le> i \<longrightarrow> i < 4 \<longrightarrow> bit x i = bit n i) \<longleftrightarrow> (\<forall>i. k \<le> i \<longrightarrow> bit x i = bit n i)"
    using hi assms(1,2) by (metis not_le)
  also have "\<dots> \<longleftrightarrow> (\<forall>i. bit x (k + i) = bit n (k + i))" by (metis le_add1 le_add_diff_inverse)
  also have "\<dots> \<longleftrightarrow> drop_bit k x = drop_bit k n"
  proof
    assume e: "drop_bit k x = drop_bit k n"
    have "bit (drop_bit k x) i = bit (drop_bit k n) i" for i using e by simp
    then show "\<forall>i. bit x (k + i) = bit n (k + i)" by (simp add: bit_drop_bit_eq)
  qed (auto intro!: bit_word_eqI simp: bit_drop_bit_eq)
  also have "\<dots> \<longleftrightarrow> unat (drop_bit k x) = unat (drop_bit k n)" by (simp add: word_unat_eq_iff)
  also have "\<dots> \<longleftrightarrow> unat x div 2 ^ k = unat n div 2 ^ k" 
    by (metis unat_drop_bit_eq drop_bit_eq_div)
  finally show ?thesis .
qed

lemma block_iff: "x div (2 ^ k) = n div 2 ^ k \<longleftrightarrow> n div 2 ^ k * 2 ^ k \<le> x \<and> x < n div 2 ^ k * 2 ^ k + 2 ^ k" for x n k :: nat
proof -
  have "n div 2 ^ k * 2 ^ k \<le> x \<and> x < n div 2 ^ k * 2 ^ k + 2 ^ k \<longleftrightarrow> x div 2 ^ k = n div 2 ^ k"
    by (metis add.commute div_nat_eqI dividend_less_div_times mult.commute mult_Suc_right times_div_less_eq_dividend
        zero_less_numeral zero_less_power)
  then show ?thesis by blast
qed

lemma bdown_rng:
  assumes C: "crypto_ok (jcrypto J)" and d: "d < 64" and n: "p ! d < 16" and k: "k \<le> 4"
  shows "bdown J p (4 * d) (4 - k) A = rng J d (unat (p ! d) div 2 ^ k * 2 ^ k) (2 ^ k) A"
proof -
  have "(\<forall>j. 4 * d \<le> j \<longrightarrow> j < 4 * d + (4 - k) \<longrightarrow> pbit (lpath J l) j = pbit p j) \<longleftrightarrow>
      (\<forall>i. k \<le> i \<longrightarrow> i < 4 \<longrightarrow> bit (lpath J l ! d) i = bit (p ! d) i)" for l
  proof -
    have b: "pbit q (4 * d + j) = bit (q ! d) (3 - j)" if "j < 4" for q j using that by (simp add: pbit_def)
    have "(\<forall>j. 4 * d \<le> j \<longrightarrow> j < 4 * d + (4 - k) \<longrightarrow> pbit (lpath J l) j = pbit p j) \<longleftrightarrow>
        (\<forall>j. j < 4 - k \<longrightarrow> pbit (lpath J l) (4 * d + j) = pbit p (4 * d + j))"
      by (metis le_add1 le_add_diff_inverse nat_add_left_cancel_less)
    also have "\<dots> \<longleftrightarrow> (\<forall>j. j < 4 - k \<longrightarrow> bit (lpath J l ! d) (3 - j) = bit (p ! d) (3 - j))" using b by auto
    also have "\<dots> \<longleftrightarrow> (\<forall>i. k \<le> i \<longrightarrow> i < 4 \<longrightarrow> bit (lpath J l ! d) i = bit (p ! d) i)"
    proof (rule iffI; intro allI impI)
      fix i assume a: "\<forall>j. j < 4 - k \<longrightarrow> bit (lpath J l ! d) (3 - j) = bit (p ! d) (3 - j)" and i: "k \<le> i" "i < 4"
      then have "3 - i < 4 - k" "3 - (3 - i) = i" by auto
      then show "bit (lpath J l ! d) i = bit (p ! d) i" using a by metis
    next
      fix j assume a: "\<forall>i. k \<le> i \<longrightarrow> i < 4 \<longrightarrow> bit (lpath J l ! d) i = bit (p ! d) i" and j: "j < 4 - k"
      then have "k \<le> 3 - j" "3 - j < 4" by auto
      then show "bit (lpath J l ! d) (3 - j) = bit (p ! d) (3 - j)" using a by blast
    qed
    finally show ?thesis .
  qed
  then show ?thesis
    using upper_bits [OF lpath_less [OF C d] n k] by (simp add: bdown_def rng_def block_iff)
qed

definition sibling_start :: "nat \<Rightarrow> nat \<Rightarrow> nat" where
  "sibling_start n h = (if even (n div 2 ^ h) then n div 2 ^ h * 2 ^ h + 2 ^ h else n div 2 ^ h * 2 ^ h - 2 ^ h)"

lemma half_starts:
  assumes "n < 16" "h < 4"
  shows "get_child_and_sibling_half_start n h =
    (word_of_nat (unat n div 2 ^ h * 2 ^ h), word_of_nat (sibling_start (unat n) h))"
proof -
  have all: "list_all (\<lambda>i. list_all (\<lambda>h. get_child_and_sibling_half_start (nib i) h =
      (word_of_nat (i div 2 ^ h * 2 ^ h), word_of_nat (sibling_start i h))) [0..<4]) [0..<16]" by code_simp
  have i: "unat n < 16" using unat_less_16 [OF assms(1)] .
  have "get_child_and_sibling_half_start (nib i) h = (word_of_nat (i div 2 ^ h * 2 ^ h), word_of_nat (sibling_start i h))"
    if "i < 16" for i using all that assms(2) by (simp add: list_all_iff)
  from this [OF i] show ?thesis by simp
qed

lemma sibling_start_block:
  fixes n a h :: nat
  shows "(n div 2 ^ Suc h * 2 ^ Suc h \<le> a \<and> a < n div 2 ^ Suc h * 2 ^ Suc h + 2 ^ Suc h) \<and>
      \<not> (n div 2 ^ h * 2 ^ h \<le> a \<and> a < n div 2 ^ h * 2 ^ h + 2 ^ h) \<longleftrightarrow>
    sibling_start n h \<le> a \<and> a < sibling_start n h + 2 ^ h"
proof -
  define P where "P = (2 :: nat) ^ h"
  define q where "q = n div P"
  have P: "0 < P" by (simp add: P_def)
  have hi: "n div (2 * P) = q div 2" by (simp add: q_def div_mult2_eq [symmetric] mult.commute)
  show ?thesis
  proof (cases "even q")
    case True
    then have "q div 2 * (2 * P) = q * P" by (metis dvd_div_mult_self mult.assoc)
    then show ?thesis using True P 
      unfolding sibling_start_def power_Suc P_def [symmetric] hi q_def [symmetric] by auto
  next
    case False
    then have "q div 2 * 2 = q - 1" "1 \<le> q" by (auto elim!: oddE)
    then have "q div 2 * (2 * P) = q * P - P" "P \<le> q * P"
      by (metis mult.assoc diff_mult_distrib mult_1) (use \<open>1 \<le> q\<close> in \<open>cases q; simp\<close>)
    then show ?thesis using False P 
      unfolding sibling_start_def power_Suc P_def [symmetric] hi q_def [symmetric] by auto
  qed
qed

lemma bdown_1: "bdown J p i 1 A = {l \<in> A. pbit (lpath J l) i = pbit p i}"
  by (auto simp: bdown_def le_less_Suc_eq)

lemma sibling_rng:
  assumes C: "crypto_ok (jcrypto J)" and d: "d < 64" and n: "p ! d < 16" and h: "h < 4"
  shows "{l \<in> bdown J p (4 * d) (3 - h) A. pbit (lpath J l) (4 * d + (3 - h)) \<noteq> pbit p (4 * d + (3 - h))} =
    rng J d (sibling_start (unat (p ! d)) h) (2 ^ h) A"
proof -
  have s: "4 - Suc h = 3 - h" "4 - h = 3 - h + 1" using h by simp_all
  have X: "bdown J p (4 * d) (3 - h) A = rng J d (unat (p ! d) div 2 ^ Suc h * 2 ^ Suc h) (2 ^ Suc h) A"
    using bdown_rng [OF C d n, of "Suc h"] h unfolding s by simp
  have Y: "bdown J p (4 * d) (4 - h) A = rng J d (unat (p ! d) div 2 ^ h * 2 ^ h) (2 ^ h) A"
    using bdown_rng [OF C d n, of h] h by simp
  have "{l \<in> bdown J p (4 * d) (3 - h) A. pbit (lpath J l) (4 * d + (3 - h)) \<noteq> pbit p (4 * d + (3 - h))} =
      bdown J p (4 * d) (3 - h) A - bdown J p (4 * d) (4 - h) A"
    unfolding s(2) bdown_add bdown_1 by blast
  also have "\<dots> = rng J d (sibling_start (unat (p ! d)) h) (2 ^ h) A"
    unfolding X Y rng_def using sibling_start_block [of "unat (p ! d)" h] by blast
  finally show ?thesis .
qed

lemma sibling_start_bound: "n < 16 \<Longrightarrow> h < 4 \<Longrightarrow> \<exists>q. sibling_start n h = q * 2 ^ h \<and> sibling_start n h + 2 ^ h \<le> 16"
proof -
  assume a: "n < 16" "h < 4"
  have all: "list_all (\<lambda>n. list_all (\<lambda>h. sibling_start n h mod 2 ^ h = 0 \<and> sibling_start n h + 2 ^ h \<le> 16) [0..<4]) [0..<16]"
    by code_simp
  have "sibling_start n h mod 2 ^ h = 0 \<and> sibling_start n h + 2 ^ h \<le> 16" using all a by (simp add: list_all_iff)
  then show ?thesis by (metis mod_0_imp_dvd dvd_div_mult_self)
qed

lemma block_bound: "n < 16 \<Longrightarrow> h < 4 \<Longrightarrow> n div 2 ^ h * 2 ^ h + 2 ^ h \<le> (16 :: nat)"
proof -
  assume a: "n < 16" "h < 4"
  have all: "list_all (\<lambda>n. list_all (\<lambda>h. n div 2 ^ h * 2 ^ h + 2 ^ h \<le> (16 :: nat)) [0..<4]) [0..<16]" by code_simp
  show ?thesis using all a by (simp add: list_all_iff)
qed

end
