(* ===== verification/Jellyfish_Rebuild.thy ===== *)
theory Jellyfish_Rebuild
  imports Sparse_Update
begin

text \<open>
  The steps of an insertion on a tree cache that holds the nodes of a set of leaves: what it
  means that a cache changed by some nodes, rebuilding an internal node from its changed
  child, the paths of keys as iterators, and the chain of nodes where a leaf forks.
\<close>

section \<open>The cache as a set of nodes\<close>

definition apart :: "('k, 'h) jelly \<Rightarrow> ('k, 'h) node_id set \<Rightarrow> bool" where
  "apart J T \<longleftrightarrow> inj_on (hash_of J) T \<and> placeholder J \<notin> hash_of J ` T"

lemma apartD:
  assumes "apart J T"
  shows "x \<in> T \<Longrightarrow> y \<in> T \<Longrightarrow> hash_of J x = hash_of J y \<longleftrightarrow> x = y" "x \<in> T \<Longrightarrow> hash_of J x \<noteq> placeholder J"
  using assms unfolding apart_def by (metis inj_on_eq_iff) (metis assms apart_def image_eqI)

text \<open>From \<open>c\<close> to \<open>c'\<close> the nodes \<open>N\<close> were put and the nodes \<open>R\<close> were deleted.\<close>

definition changed ::
  "('k, 'h) jelly \<Rightarrow> ('k, 'h) node_id set \<Rightarrow> ('k, 'h) node_id set \<Rightarrow> ('k, 'h) TreeCache \<Rightarrow> ('k, 'h) TreeCache \<Rightarrow> bool" where
  "changed J R N c c' \<longleftrightarrow>
     (\<forall>x \<in> N. node_cache c' (hash_of J x) = Some (node_of J x)) \<and>
     (\<forall>x \<in> R. node_cache c' (hash_of J x) = None) \<and>
     (\<forall>h. h \<notin> hash_of J ` (R \<union> N) \<longrightarrow> node_cache c' h = node_cache c h) \<and>
     stale_node_index_cache c' = stale_node_index_cache c \<union>
       hash_of J ` {x \<in> R. node_cache c (hash_of J x) = None} \<and>
     frozen_cache c' = frozen_cache c \<and> tc_reader c' = tc_reader c \<and> root_node_key c' = root_node_key c"

lemma changed_refl: "changed J {} {} c c"
  by (simp add: changed_def)

lemma changed_comp:
  assumes T: "apart J T" "R1 \<union> N1 \<union> R2 \<union> N2 \<subseteq> T" "(R1 \<union> N1) \<inter> (R2 \<union> N2) = {}"
    and c: "changed J R1 N1 c c1" "changed J R2 N2 c1 c2"
  shows "changed J (R1 \<union> R2) (N1 \<union> N2) c c2"
proof -
  have no1: "hash_of J x \<notin> hash_of J ` (R2 \<union> N2)" if "x \<in> R1 \<union> N1" for x
  proof
    assume "hash_of J x \<in> hash_of J ` (R2 \<union> N2)"
    then obtain y where y: "y \<in> R2 \<union> N2" "hash_of J x = hash_of J y" by blast
    then have "x = y" using apartD(1) [OF T(1), of x y] that T(2) by blast
    then show False using that y(1) T(3) by blast
  qed
  have no2: "hash_of J x \<notin> hash_of J ` (R1 \<union> N1)" if x: "x \<in> R2 \<union> N2" for x
  proof
    assume "hash_of J x \<in> hash_of J ` (R1 \<union> N1)"
    then obtain y where y: "y \<in> R1 \<union> N1" "hash_of J x = hash_of J y" by blast
    show False using no1 [OF y(1)] x y(2) [symmetric] by simp
  qed
  have same1: "node_cache c1 (hash_of J x) = node_cache c (hash_of J x)" if "x \<in> R2 \<union> N2" for x
    using c(1) no2 [OF that] by (simp add: changed_def)
  have same2: "node_cache c2 (hash_of J x) = node_cache c1 (hash_of J x)" if "x \<in> R1 \<union> N1" for x
    using c(2) no1 [OF that] by (simp add: changed_def)
  have "{x \<in> R2. node_cache c1 (hash_of J x) = None} = {x \<in> R2. node_cache c (hash_of J x) = None}"
    using same1 by auto
  then have st: "stale_node_index_cache c2 = stale_node_index_cache c \<union>
      hash_of J ` {x \<in> R1 \<union> R2. node_cache c (hash_of J x) = None}"
    using c unfolding changed_def by auto
  have eq: "node_cache c2 h = node_cache c h" if h: "h \<notin> hash_of J ` ((R1 \<union> R2) \<union> (N1 \<union> N2))" for h
  proof -
    have "h \<notin> hash_of J ` (R1 \<union> N1)" "h \<notin> hash_of J ` (R2 \<union> N2)" using h by blast+
    then show ?thesis using c by (simp add: changed_def)
  qed
  have N: "node_cache c2 (hash_of J x) = Some (node_of J x)" if "x \<in> N1 \<union> N2" for x
    using that c same2 [of x] by (auto simp: changed_def)
  have R: "node_cache c2 (hash_of J x) = None" if "x \<in> R1 \<union> R2" for x
    using that c same2 [of x] by (auto simp: changed_def)
  show ?thesis
    using c N R eq st unfolding changed_def by simp
qed

lemma put_node_changed:
  assumes "node_cache c (hash_of J x) = None"
  shows "\<exists>c'. put_node (hash_of J x) (node_of J x) c = Inr c' \<and> changed J {} {x} c c'"
  using assms by (simp add: put_node_def changed_def)

lemma delete_node_changed:
  assumes "node_cache c (hash_of J x) = None \<longrightarrow> hash_of J x \<notin> stale_node_index_cache c"
  shows "\<exists>c'. delete_node (hash_of J x) b c = Inr c' \<and> changed J {x} {} c c'"
  using assms by (auto simp: delete_node_def changed_def)

lemma cache_get_node_cong:
  "node_cache c' h = node_cache c h \<Longrightarrow> frozen_cache c' = frozen_cache c \<Longrightarrow> tc_reader c' = tc_reader c \<Longrightarrow>
    cache_get_node J c' h = cache_get_node J c h"
  by (simp add: cache_get_node_def split: option.splits)

text \<open>
  A cache ready for the step from the nodes \<open>Od\<close> to the nodes \<open>Nw\<close>: it finds the old nodes,
  it does not hold the new ones yet, and no old node it does not hold is stale.
\<close>

definition ready ::
  "('k, 'h) jelly \<Rightarrow> ('k, 'h) node_id set \<Rightarrow> ('k, 'h) node_id set \<Rightarrow> ('k, 'h) TreeCache \<Rightarrow> bool" where
  "ready J Od Nw c \<longleftrightarrow>
     (\<forall>x \<in> Od. cache_get_node J c (hash_of J x) = Inr (node_of J x)) \<and>
     (\<forall>x \<in> Nw - Od. node_cache c (hash_of J x) = None) \<and>
     (\<forall>x \<in> Od. node_cache c (hash_of J x) = None \<longrightarrow> hash_of J x \<notin> stale_node_index_cache c)"

section \<open>Leaves with the key of an update\<close>

lemma same_key_unique:
  assumes "crypto_ok (jcrypto J)" "leaves_ok J d A" "l \<in> A" "l' \<in> A" "same_key J key l" "same_key J key l'"
  shows "l = l'"
  using assms same_key_path [OF assms(1), of key] unfolding leaves_ok_def inj_on_def by auto

lemma other_key:
  assumes "crypto_ok (jcrypto J)" "leaves_ok J d A" "A \<noteq> {}" "\<not> is_singleton A"
  shows "\<exists>l \<in> A. \<not> same_key J key l"
proof (rule ccontr)
  assume "\<not> (\<exists>l \<in> A. \<not> same_key J key l)"
  then have s: "same_key J key l" if "l \<in> A" for l using that by blast
  obtain a where a: "a \<in> A" using assms(3) by blast
  have "l = a" if "l \<in> A" for l using same_key_unique [OF assms(1,2) that a s [OF that] s [OF a]] .
  then have "A = {a}" using a by blast
  then show False using assms(4) by (simp add: is_singleton_iff)
qed

lemma update_nonempty:
  assumes "crypto_ok (jcrypto J)" "leaves_ok J d A" "A \<noteq> {}" "\<not> is_singleton A"
  shows "leaf_update J key blob_opt A \<noteq> {}"
  using other_key [OF assms, of key] leaf_update_other by fast

lemma update_singleton:
  assumes C: "crypto_ok (jcrypto J)" and A: "leaves_ok J d A" "A \<noteq> {}" "\<not> is_singleton A"
    and s: "leaf_update J key blob_opt A = {l}"
  shows "l \<in> A"
proof -
  obtain a where a: "a \<in> A" "\<not> same_key J key a" using other_key [OF C A] by blast
  then have "a \<in> leaf_update J key blob_opt A" by (rule leaf_update_other)
  then show ?thesis using s a(1) by simp
qed

lemma nid_live_ok:
  assumes "crypto_ok (jcrypto J)" "leaves_ok J d A" "A \<noteq> {}"
  shows "nid d A \<in> live J d A"
  using nid_live [OF assms(3)] leaves_ok_lt_64 [OF assms] by blast

lemma node_is_leaf_cnode: "node_is_leaf (cnode J d A) \<longleftrightarrow> is_singleton A"
  by (auto simp: cnode_def is_singleton_iff)

lemma cchildren_upd:
  assumes C: "crypto_ok (jcrypto J)" and n: "n < 16" and other: "\<And>m. m \<noteq> n \<Longrightarrow> sub J d m A' = sub J d m A"
  shows "(case cnode J (Suc d) (sub J d n A') of Null \<Rightarrow> (cchildren J d A)(n := None)
      | _ \<Rightarrow> ((cchildren J d A)(n := None))(n \<mapsto> child_new (hash_at J (Suc d) (sub J d n A'))
        (node_is_leaf (cnode J (Suc d) (sub J d n A'))))) = cchildren J d A'"
proof (rule ext)
  fix m
  show "(case cnode J (Suc d) (sub J d n A') of Null \<Rightarrow> (cchildren J d A)(n := None)
      | _ \<Rightarrow> ((cchildren J d A)(n := None))(n \<mapsto> child_new (hash_at J (Suc d) (sub J d n A'))
        (node_is_leaf (cnode J (Suc d) (sub J d n A'))))) m = cchildren J d A' m"
    using n other [of m] unfolding node_is_leaf_cnode
    by (cases "m = n") (auto simp: cnode_def cchildren_def split: Node.splits)
qed

lemma apart_notin: "apart J T \<Longrightarrow> x \<in> T \<Longrightarrow> X \<subseteq> T \<Longrightarrow> x \<notin> X \<Longrightarrow> hash_of J x \<notin> hash_of J ` X"
  unfolding apart_def by (metis inj_on_image_mem_iff)

lemma changed_same:
  assumes "changed J R N c c'" "apart J T" "x \<in> T" "R \<union> N \<subseteq> T" "x \<notin> R \<union> N"
  shows "node_cache c' (hash_of J x) = node_cache c (hash_of J x)"
    "cache_get_node J c' (hash_of J x) = cache_get_node J c (hash_of J x)"
    "hash_of J x \<in> stale_node_index_cache c' \<longleftrightarrow> hash_of J x \<in> stale_node_index_cache c"
proof -
  have no: "hash_of J x \<notin> hash_of J ` (R \<union> N)" using apart_notin [OF assms(2-5)] .
  then show n: "node_cache c' (hash_of J x) = node_cache c (hash_of J x)" using assms(1) by (simp add: changed_def)
  show "cache_get_node J c' (hash_of J x) = cache_get_node J c (hash_of J x)"
    by (rule cache_get_node_cong [OF n]) (use assms(1) in \<open>simp_all add: changed_def\<close>)
  have "hash_of J x \<notin> hash_of J ` {x \<in> R. node_cache c (hash_of J x) = None}" using no by blast
  moreover have "stale_node_index_cache c' = stale_node_index_cache c \<union>
      hash_of J ` {x \<in> R. node_cache c (hash_of J x) = None}" using assms(1) unfolding changed_def by blast
  ultimately show "hash_of J x \<in> stale_node_index_cache c' \<longleftrightarrow> hash_of J x \<in> stale_node_index_cache c" by blast
qed

section \<open>Rebuilding an internal node\<close>

text \<open>The test whether the child has changed compares hashes; it decides equality of the sets.\<close>

lemma child_unchanged_iff:
  assumes C: "crypto_ok (jcrypto J)" and ap: "apart J T" and n: "n < 16" and B: "B = sub J d n A"
    and ok: "leaves_ok J (Suc d) B" "leaves_ok J (Suc d) B'" and some: "B \<noteq> {} \<or> B' \<noteq> {}"
    and T: "live J (Suc d) B \<subseteq> T" "live J (Suc d) B' \<subseteq> T"
  shows "(case cchildren J d A n of None \<Rightarrow> False
      | Some old \<Rightarrow> child_hash old = hash_at J (Suc d) B' \<and> child_is_leaf old = node_is_leaf (cnode J (Suc d) B')) \<longleftrightarrow>
    B' = B"
proof (cases "B = {}")
  case True
  then show ?thesis using some n by (auto simp: cchildren_def B)
next
  case False
  then have old: "cchildren J d A n = Some (child_new (hash_at J (Suc d) B) (is_singleton B))"
    using n by (simp add: cchildren_def B)
  have i: "nid (Suc d) B \<in> T" using nid_live_ok [OF C ok(1) False] T(1) by blast
  have "B' = B" if h: "hash_at J (Suc d) B = hash_at J (Suc d) B'"
  proof (cases "B' = {}")
    case True
    then show ?thesis using apartD(2) [OF ap i] h by simp
  next
    case ne: False
    have i': "nid (Suc d) B' \<in> T" using nid_live_ok [OF C ok(2) ne] T(2) by blast
    have "nid (Suc d) B = nid (Suc d) B'" using apartD(1) [OF ap i i'] h unfolding hash_of_nid by blast
    then show ?thesis by (metis snd_nid)
  qed
  then show ?thesis by (auto simp: old child_new_def node_is_leaf_cnode)
qed

lemma internal_new_cchildren:
  assumes C: "crypto_ok (jcrypto J)" and d: "d < 64" and A: "A \<noteq> {}" "\<not> is_singleton A"
  shows "internal_new (cchildren J d A) = Inr (cchildren J d A)"
    "\<not> (num_children (cchildren J d A) = 1 \<and> child_is_leaf (snd (hd (children_iter (cchildren J d A)))))"
proof -
  note iter = children_iter_cchildren [OF C d A(1)]
  show no: "\<not> (num_children (cchildren J d A) = 1 \<and> child_is_leaf (snd (hd (children_iter (cchildren J d A)))))"
  proof
    assume a: "num_children (cchildren J d A) = 1 \<and> child_is_leaf (snd (hd (children_iter (cchildren J d A))))"
    then obtain m k where "children_iter (cchildren J d A) = [(m, k)]"
      by (cases "children_iter (cchildren J d A)") (auto simp: num_children_def)
    then show False using iter(3) [OF A(2)] a by fastforce
  qed
  then show "internal_new (cchildren J d A) = Inr (cchildren J d A)" using iter(1) by (auto simp: internal_new_def)
qed

text \<open>The end of the rebuild: a single leaf moves up, any other node is put.\<close>

definition rebuilt ::
  "('k, 'h) jelly \<Rightarrow> 'h Children \<Rightarrow> ('k, 'h) TreeCache \<Rightarrow> ('k, 'h) inserted jelly_result" where
  "rebuilt J children c =
     (if children_iter children = [] then Inr ((placeholder J, Null), c)
      else if num_children children = 1 \<and> child_is_leaf (snd (hd (children_iter children))) then
        obind (cache_get_node J c (child_hash (snd (hd (children_iter children))))) (\<lambda>leaf_node.
        Inr ((child_hash (snd (hd (children_iter children))), leaf_node), c))
      else
        obind (internal_new children) (\<lambda>new_internal_node.
        obind (node_hash J (Internal new_internal_node)) (\<lambda>h.
        obind (put_node h (Internal new_internal_node) c) (\<lambda>c.
        Inr ((h, Internal new_internal_node), c)))))"

lemma rebuilt_leaf:
  assumes C: "crypto_ok (jcrypto J)" and d: "d < 64" and get: "cache_get_node J c (hash_of J (0, {l})) = Inr (Leaf l)"
  shows "rebuilt J (cchildren J d {l}) c = Inr ((hash_at J d {l}, cnode J d {l}), c)"
  using children_iter_cchildren(2) [OF C d, of "{l}"] get
  by (simp add: rebuilt_def num_children_def child_new_def cnode_def hash_of_def)

lemma rebuilt_internal:
  assumes C: "crypto_ok (jcrypto J)" and d: "d < 64" and A: "A \<noteq> {}" "\<not> is_singleton A"
    and free: "node_cache c (hash_of J (nid d A)) = None"
  shows "\<exists>c'. rebuilt J (cchildren J d A) c = Inr ((hash_at J d A, cnode J d A), c') \<and> changed J {} {nid d A} c c'"
proof -
  from put_node_changed [OF free] obtain c'
    where c': "put_node (hash_of J (nid d A)) (node_of J (nid d A)) c = Inr c'" "changed J {} {nid d A} c c'" by blast
  have "rebuilt J (cchildren J d A) c = Inr ((hash_at J d A, cnode J d A), c')"
    using children_iter_cchildren(1) [OF C d A(1)] internal_new_cchildren [OF C d A] internal_crypto_hash_eq [OF C d, of A]
      c'(1) A unfolding rebuilt_def by (auto simp: cnode_def)
  then show ?thesis using c'(2) by blast
qed

lemma rebuild_internal_node_eq:
  fixes J :: "('k, 'h) jelly"
  assumes C: "crypto_ok (jcrypto J)" and ap: "apart J (Od \<union> Nw)" and rd: "ready J Od Nw c"
    and A: "leaves_ok J d A" "A \<noteq> {}" "\<not> is_singleton A" and up: "A' = leaf_update J key b A" "leaves_ok J d A'"
    and sub: "live J d A \<subseteq> Od" "live J d A' \<subseteq> Nw"
    and new: "A' \<noteq> A \<Longrightarrow> \<not> is_singleton A' \<Longrightarrow> nid d A' \<notin> Od"
    and n: "n = kpath J key ! d" and B: "B = sub J d n A" "B' = leaf_update J key b B" "B \<noteq> {} \<or> B' \<noteq> {}"
    and ch: "changed J (live J (Suc d) B - live J (Suc d) B') (live J (Suc d) B' - live J (Suc d) B) c c1"
  shows "\<exists>c'. rebuild_internal_node J (hash_at J d A) (cchildren J d A) n
      ((hash_at J (Suc d) B', cnode J (Suc d) B'), c1) = Inr ((hash_at J d A', cnode J d A'), c') \<and>
    changed J (live J d A - live J d A') (live J d A' - live J d A) c c'"
proof -
  have d: "d < 64" using leaves_ok_lt_64 [OF C A] .
  have n16: "n < 16" using hpath_less [OF C d] n by simp
  have B': "B' = sub J d n A'" unfolding B up(1) using sub_update(1) [OF C n] by simp
  have other: "sub J d m A' = sub J d m A" if "m \<noteq> n" for m unfolding up(1) using sub_update(2) [OF C n that] .
  have ok: "leaves_ok J (Suc d) B" "leaves_ok J (Suc d) B'"
    using leaves_ok_sub [OF C A(1) d] leaves_ok_sub [OF C up(2) d] by (simp_all add: B(1) B')
  have ne': "A' \<noteq> {}" unfolding up(1) by (rule update_nonempty [OF C A])
  have eqiff: "B' = B \<longleftrightarrow> A' = A" unfolding B(1,2) up(1) by (rule update_eq_iff [OF C n d])
  have T: "live J (Suc d) B \<subseteq> Od" "live J (Suc d) B' \<subseteq> Nw"
    using live_sub_subset [OF C A(1) d n16] live_sub_subset [OF C up(2) d n16] sub by (auto simp: B(1) B')
  have "live J (Suc d) B \<subseteq> Od \<union> Nw" "live J (Suc d) B' \<subseteq> Od \<union> Nw" using T by blast+
  note unch = child_unchanged_iff [OF C ap n16 B(1) ok B(3) this]
  have kids: "(case cnode J (Suc d) B' of Null \<Rightarrow> (cchildren J d A)(n := None)
      | _ \<Rightarrow> ((cchildren J d A)(n := None))(n \<mapsto> child_new (hash_at J (Suc d) B') (node_is_leaf (cnode J (Suc d) B')))) =
      cchildren J d A'" using cchildren_upd [OF C n16 other] unfolding B' .
  have run: "rebuild_internal_node J (hash_at J d A) (cchildren J d A) n
      ((hash_at J (Suc d) B', cnode J (Suc d) B'), c1) =
      (if B' = B then Inr ((hash_at J d A, Internal (cchildren J d A)), c1)
       else obind (delete_node (hash_at J d A) False c1) (rebuilt J (cchildren J d A')))"
    unfolding rebuild_internal_node_def Let_def fst_conv snd_conv unch kids rebuilt_def by simp
  show ?thesis
  proof (cases "B' = B")
    case True
    then have "A' = A" using eqiff by simp
    then show ?thesis using run True ch A by (simp add: cnode_def)
  next
    case False
    then have ne: "A' \<noteq> A" using eqiff by simp
    let ?R = "live J (Suc d) B - live J (Suc d) B'" and ?N = "live J (Suc d) B' - live J (Suc d) B"
    note diff = live_update_diff [OF C A up(2) ne' n16 other ne, folded B(1) B']
    have RN: "?R \<union> ?N \<subseteq> Od \<union> Nw" using T by blast
    have idA: "nid d A \<in> Od" "nid d A \<in> Od \<union> Nw" "nid d A \<notin> ?R \<union> ?N"
      using nid_live_ok [OF C A(1,2)] sub(1) live_deeper [OF C _ A(3)] ok by blast+
    have "node_cache c1 (hash_of J (nid d A)) = None \<longrightarrow> hash_of J (nid d A) \<notin> stale_node_index_cache c1"
      using changed_same [OF ch ap idA(2) RN idA(3)] rd idA(1) unfolding ready_def by metis
    from delete_node_changed [OF this, of False] obtain c2
      where c2: "delete_node (hash_at J d A) False c1 = Inr c2" "changed J {nid d A} {} c1 c2" by auto
    have "changed J (?R \<union> {nid d A}) (?N \<union> {}) c c2"
      by (rule changed_comp [OF ap _ _ ch c2(2)]) (use RN idA in auto)
    then have ch2: "changed J (live J d A - live J d A') ?N c c2" using diff(1) by simp
    have T2: "(live J d A - live J d A') \<union> ?N \<subseteq> Od \<union> Nw" using sub(1) RN by blast
    show ?thesis
    proof (cases "is_singleton A'")
      case True
      then obtain l where l: "A' = {l}" by (auto simp: is_singleton_iff)
      have lA: "l \<in> A" using update_singleton [OF C A, of key b l] l unfolding up(1) by simp
      have "(0, {l}) \<in> live J d A" "(0, {l}) \<in> live J d A'" using live_leaf [OF C A(1) lA] l by (simp_all add: nid_def)
      then have lO: "(0, {l}) \<in> Od" "(0, {l}) \<in> Od \<union> Nw" "(0, {l}) \<notin> (live J d A - live J d A') \<union> ?N"
        using sub(1) diff(2) True by auto
      have "cache_get_node J c2 (hash_of J (0, {l})) = Inr (Leaf l)"
        using changed_same(2) [OF ch2 ap lO(2) T2 lO(3)] rd lO(1) unfolding ready_def
        by (auto simp: node_of_def cnode_def)
      then have "rebuilt J (cchildren J d A') c2 = Inr ((hash_at J d A', cnode J d A'), c2)"
        unfolding l by (rule rebuilt_leaf [OF C d])
      then show ?thesis using run False c2(1) ch2 diff(2) True by auto
    next
      case nsing: False
      have id': "nid d A' \<in> Nw" "nid d A' \<in> Od \<union> Nw" "nid d A' \<notin> Od" "nid d A' \<notin> (live J d A - live J d A') \<union> ?N"
        using nid_live_ok [OF C up(2) ne'] sub new [OF ne nsing] live_deeper [OF C ok(2) nsing] by blast+
      have "node_cache c (hash_of J (nid d A')) = None" using rd id'(1,3) unfolding ready_def by blast
      then have "node_cache c2 (hash_of J (nid d A')) = None"
        using changed_same(1) [OF ch2 ap id'(2) T2 id'(4)] by simp
      from rebuilt_internal [OF C d ne' nsing this] obtain c3
        where c3: "rebuilt J (cchildren J d A') c2 = Inr ((hash_at J d A', cnode J d A'), c3)"
          "changed J {} {nid d A'} c2 c3" by blast
      have "changed J ((live J d A - live J d A') \<union> {}) (?N \<union> {nid d A'}) c c3"
        by (rule changed_comp [OF ap _ _ ch2 c3(2)]) (use T2 id' in auto)
      moreover have "?N \<union> {nid d A'} = live J d A' - live J d A" using diff(2) nsing by auto
      ultimately have "changed J (live J d A - live J d A') (live J d A' - live J d A) c c3" by simp
      then show ?thesis using run False c2(1) c3(1) by auto
    qed
  qed
qed

section \<open>Paths of keys\<close>

definition kiter :: "('k, 'h) jelly \<Rightarrow> 'h \<Rightarrow> nat \<Rightarrow> NibbleIterator" where
  "kiter J h d = (path_nibbles (nibble_path_new (to_vec (jcrypto J) h)))\<lparr>pos_start := d\<rparr>"

lemma kiter_ok:
  assumes "crypto_ok (jcrypto J)" "d \<le> 64"
  shows "iter_ok (kiter J h d)" "rest (kiter J h d) = drop d (hpath J h)"
    "iter_ok (visited_nibbles (kiter J h d))" "rest (visited_nibbles (kiter J h d)) = take d (hpath J h)"
    "iter_ok (remaining_nibbles (kiter J h d))" "rest (remaining_nibbles (kiter J h d)) = drop d (hpath J h)"
proof -
  have l: "length (to_vec (jcrypto J) h) = 32" using assms(1) by (simp add: crypto_ok_def HASH_LENGTH_def)
  then have p: "path_ok (nibble_path_new (to_vec (jcrypto J) h))" by (intro path_ok_new) simp
  show "iter_ok (kiter J h d)" "iter_ok (visited_nibbles (kiter J h d))" "iter_ok (remaining_nibbles (kiter J h d))"
    using p l assms(2)
    by (simp_all add: kiter_def path_nibbles_def nibble_iterator_new_def iter_ok_def visited_nibbles_def remaining_nibbles_def)
  show "rest (kiter J h d) = drop d (hpath J h)" "rest (visited_nibbles (kiter J h d)) = take d (hpath J h)"
    "rest (remaining_nibbles (kiter J h d)) = drop d (hpath J h)"
    using l length_hpath [OF assms(1), of h]
    by (simp_all add: kiter_def path_nibbles_def nibble_iterator_new_def rest_def visited_nibbles_def remaining_nibbles_def
      hpath_def)
qed

lemma kiter_0: "kiter J h 0 = path_nibbles (nibble_path_new (to_vec (jcrypto J) h))"
  by (simp add: kiter_def path_nibbles_def nibble_iterator_new_def)

lemma kiter_simps [simp]: "(kiter J h d)\<lparr>pos_start := e\<rparr> = kiter J h e" "pos_start (kiter J h d) = d"
  by (simp_all add: kiter_def)

lemma nibble_next_kiter:
  assumes "crypto_ok (jcrypto J)" "d < 64"
  shows "nibble_next (kiter J h d) = Inr (Some (hpath J h ! d), kiter J h (Suc d))"
  using nibble_next_eq [OF kiter_ok(1) [OF assms(1), of d h]] kiter_ok(2) [OF assms(1), of d h] assms
  by (simp add: Cons_nth_drop_Suc [symmetric])

lemma is_finished_eq: "iter_ok it \<Longrightarrow> is_finished it = Inr (rest it = [])"
  by (simp add: is_finished_def nibble_peek_eq split: list.splits)

lemma collect_visited:
  assumes "crypto_ok (jcrypto J)" "d \<le> 64"
  shows "\<exists>q. collect_path (visited_nibbles (kiter J h d)) = (Inr q :: (_, 'e) outcome) \<and> path_ok q \<and>
    nibbles_of q = take d (hpath J h)"
proof -
  have "length (take d (hpath J h)) \<le> ROOT_NIBBLE_HEIGHT" "\<forall>x \<in> set (take d (hpath J h)). x < 16"
    using assms by (auto simp: ROOT_NIBBLE_HEIGHT_def hpath_def dest!: in_set_takeD intro: unpack_less)
  then obtain q where "path_from_iter (take d (hpath J h)) = (Inr q :: (_, 'e) outcome)" "path_ok q"
    "nibbles_of q = take d (hpath J h)" using path_from_iter_eq by blast
  moreover have "(nibble_collect (visited_nibbles (kiter J h d)) :: (_, 'e) outcome) = Inr (take d (hpath J h))"
    using nibble_collect_eq [OF kiter_ok(3) [OF assms, of h]] kiter_ok(4) [OF assms, of h] by simp
  ultimately show ?thesis unfolding collect_path_def by (metis obind.simps(2))
qed

lemma common_le: "common xs ys \<le> length xs" "common xs ys \<le> length ys"
  by (induction xs ys rule: common.induct) auto

lemma common_nth: "i < common xs ys \<Longrightarrow> xs ! i = ys ! i"
  by (induction xs ys arbitrary: i rule: common.induct) (auto simp: nth_Cons split: nat.splits if_splits)

lemma common_neq: "common xs ys < length xs \<Longrightarrow> common xs ys < length ys \<Longrightarrow> xs ! common xs ys \<noteq> ys ! common xs ys"
  by (induction xs ys rule: common.induct) auto

lemma common_same [simp]: "common xs xs = length xs"
  by (induction xs) auto

lemma common_take: "take d ys = take d xs \<Longrightarrow> d \<le> length xs \<Longrightarrow> d \<le> length ys \<Longrightarrow> common (take d xs) ys = d"
proof (induction d arbitrary: xs ys)
  case (Suc d)
  then show ?case by (cases xs; cases ys) auto
qed simp

lemma common_full: "length xs = length ys \<Longrightarrow> common xs ys = length xs \<longleftrightarrow> xs = ys"
  by (induction xs ys rule: list_induct2) auto

section \<open>Forking a leaf\<close>

text \<open>Two leaves whose paths first differ at depth \<open>m\<close>.\<close>

definition forks :: "('k, 'h) jelly \<Rightarrow> nat \<Rightarrow> nat \<Rightarrow> ('k, 'h) LeafNode \<Rightarrow> ('k, 'h) LeafNode \<Rightarrow> bool" where
  "forks J d m l x \<longleftrightarrow> d \<le> m \<and> m < 64 \<and> (\<forall>i. d \<le> i \<longrightarrow> i < m \<longrightarrow> lpath J l ! i = lpath J x ! i) \<and>
     lpath J l ! m \<noteq> lpath J x ! m"

lemma forks_neq: "forks J d m l x \<Longrightarrow> l \<noteq> x"
  by (auto simp: forks_def)

lemma forks_not_single: "forks J d m l x \<Longrightarrow> \<not> is_singleton {l, x}"
  by (auto simp: is_singleton_iff dest: forks_neq)

lemma forks_leaves_ok:
  assumes "crypto_ok (jcrypto J)" "forks J d m l x" "e \<le> m"
  shows "leaves_ok J e {l, x}"
proof -
  have "drop e (lpath J l) ! (m - e) \<noteq> drop e (lpath J x) ! (m - e)"
    using assms by (simp add: forks_def)
  then show ?thesis by (auto simp: leaves_ok_def)
qed

lemma forks_sub:
  assumes "forks J d m l x" "d \<le> e" "e < m"
  shows "sub J e n {l, x} = (if n = lpath J x ! e then {l, x} else {})"
  using assms by (auto simp: forks_def sub_def)

lemma forks_sub_last:
  assumes "forks J d m l x"
  shows "sub J m n {l, x} = (if n = lpath J l ! m then {l} else if n = lpath J x ! m then {x} else {})"
proof -
  have "lpath J l ! m \<noteq> lpath J x ! m" using assms by (simp add: forks_def)
  then show ?thesis by (auto simp: sub_def)
qed

lemma cchildren_fork:
  assumes "crypto_ok (jcrypto J)" "forks J d m l x" "d \<le> e" "e < m"
  shows "cchildren J e {l, x} = [lpath J x ! e \<mapsto> child_new (hash_at J (Suc e) {l, x}) False]"
proof (rule ext)
  fix n
  have "lpath J x ! e < 16" using lpath_less [OF assms(1)] assms(2,4) by (simp add: forks_def)
  then show "cchildren J e {l, x} n = [lpath J x ! e \<mapsto> child_new (hash_at J (Suc e) {l, x}) False] n"
    using forks_not_single [OF assms(2)] by (simp add: cchildren_def forks_sub [OF assms(2-4)])
qed

lemma cchildren_fork_last:
  assumes "crypto_ok (jcrypto J)" "forks J d m l x"
  shows "cchildren J m {l, x} = [lpath J l ! m \<mapsto> child_new (leaf_crypto_hash J l) True,
    lpath J x ! m \<mapsto> child_new (leaf_crypto_hash J x) True]"
proof (rule ext)
  fix n
  define y where "y = lpath J x ! m"
  define z where "z = lpath J l ! m"
  have lt: "y < 16" "z < 16" "z \<noteq> y"
    using lpath_less [OF assms(1)] assms(2) unfolding forks_def y_def z_def by blast+
  have s: "sub J m n {l, x} = (if n = z then {l} else if n = y then {x} else {})"
    unfolding y_def z_def by (rule forks_sub_last [OF assms(2)])
  show "cchildren J m {l, x} n = [lpath J l ! m \<mapsto> child_new (leaf_crypto_hash J l) True,
      lpath J x ! m \<mapsto> child_new (leaf_crypto_hash J x) True] n"
    unfolding cchildren_def s y_def [symmetric] z_def [symmetric] using lt by auto
qed

lemma live_fork:
  assumes C: "crypto_ok (jcrypto J)" and f: "forks J d m l x" and e: "d \<le> e" "e \<le> m"
  shows "live J e {l, x} = (\<lambda>i. nid i {l, x}) ` {e..m} \<union> {(0, {l}), (0, {x})}"
  using e
proof (induction "m - e" arbitrary: e)
  case 0
  then have [simp]: "e = m" by simp
  have m: "m < 64" and lt: "lpath J l ! m < 16" "lpath J x ! m < 16"
    using f lpath_less [OF C] by (auto simp: forks_def)
  have s: "live J (Suc m) (sub J m n {l, x}) = (if n = lpath J l ! m then {(0, {l})}
      else if n = lpath J x ! m then {(0, {x})} else {})" for n
    by (simp add: forks_sub_last [OF f] nid_def)
  have "(\<Union>n \<in> {n. n < 16}. live J (Suc m) (sub J m n {l, x})) = {(0, {l}), (0, {x})}"
  proof -
    have "lpath J l ! m \<noteq> lpath J x ! m" using f by (simp add: forks_def)
    then show ?thesis unfolding s using lt by (force split: if_splits)
  qed
  then have "live J m {l, x} = insert (nid m {l, x}) {(0, {l}), (0, {x})}"
    using live_step [OF _ forks_not_single [OF f] m, of J] by simp
  then show ?case by (simp add: insert_commute)
next
  case (Suc k)
  then have em: "e < m" by simp
  then have e64: "e < 64" and lt: "lpath J x ! e < 16" using f lpath_less [OF C] by (auto simp: forks_def)
  have s: "live J (Suc e) (sub J e n {l, x}) = (if n = lpath J x ! e then live J (Suc e) {l, x} else {})" for n
    by (simp add: forks_sub [OF f Suc.prems(1) em])
  have "(\<Union>n \<in> {n. n < 16}. live J (Suc e) (sub J e n {l, x})) = live J (Suc e) {l, x}"
    unfolding s using lt by (auto split: if_splits)
  moreover have "live J (Suc e) {l, x} = (\<lambda>i. nid i {l, x}) ` {Suc e..m} \<union> {(0, {l}), (0, {x})}"
    using Suc.hyps(1) [of "Suc e"] Suc.hyps(2) Suc.prems em by simp
  moreover have "{e..m} = insert e {Suc e..m}" using em by auto
  ultimately show ?case using live_step [OF _ forks_not_single [OF f] e64, of J] by auto
qed

lemma nid_fork_inject: "forks J d m l x \<Longrightarrow> nid i {l, x} = nid j {l, x} \<longleftrightarrow> i = j"
  using forks_not_single [of J d m l x] by (simp add: nid_def)

lemma extend_internal_eq:
  assumes C: "crypto_ok (jcrypto J)" and f: "forks J d m l x" and km: "d + k \<le> m"
    and q: "path_ok q" "nibbles_of q = take (d + k) (lpath J x)"
    and T: "apart J T" "(\<lambda>i. nid i {l, x}) ` {d..<d + k} \<subseteq> T"
    and free: "\<And>i. d \<le> i \<Longrightarrow> i < d + k \<Longrightarrow> node_cache c (hash_at J i {l, x}) = None"
  shows "\<exists>c'. extend_internal J k q (cchildren J (d + k) {l, x}) c = Inr (cchildren J d {l, x}, c') \<and>
    changed J {} ((\<lambda>i. nid i {l, x}) ` {d..<d + k}) c c'"
  using km q T(2) free
proof (induction k arbitrary: q c)
  case 0
  then show ?case by (simp add: changed_refl)
next
  case (Suc k)
  let ?e = "d + k"
  have e: "?e < m" "d \<le> ?e" "?e < 64" using Suc.prems(1) f by (auto simp: forks_def)
  have tk: "take (d + Suc k) (lpath J x) = take ?e (lpath J x) @ [lpath J x ! ?e]"
    using e(3) C by (simp add: take_Suc_conv_app_nth)
  have ne: "nibbles_of q \<noteq> []" unfolding Suc.prems(3) tk by simp
  obtain q' where q': "(path_pop q :: _ jelly_result) = Inr (Some (last (nibbles_of q)), q')" "path_ok q'"
    "nibbles_of q' = butlast (nibbles_of q)" using path_pop_eq [OF Suc.prems(2) ne] by blast
  have last: "last (nibbles_of q) = lpath J x ! ?e" "nibbles_of q' = take ?e (lpath J x)"
    unfolding q'(3) Suc.prems(3) tk by simp_all
  have h: "internal_crypto_hash J (cchildren J (d + Suc k) {l, x}) = Inr (hash_at J (Suc ?e) {l, x})"
    using internal_crypto_hash_eq [OF C, of "Suc ?e" "{l, x}"] Suc.prems(1) f by (simp add: forks_def)
  have ch: "[lpath J x ! ?e \<mapsto> child_new (hash_at J (Suc ?e) {l, x}) False] = cchildren J ?e {l, x}"
    using cchildren_fork [OF C f e(2,1)] by simp
  have new: "internal_new (cchildren J ?e {l, x}) = Inr (cchildren J ?e {l, x})"
    by (rule internal_new_cchildren [OF C e(3)]) (use forks_not_single [OF f] in auto)
  have nh: "node_hash J (Internal (cchildren J ?e {l, x})) = Inr (hash_at J ?e {l, x})"
    using internal_crypto_hash_eq [OF C e(3)] by simp
  have nd: "node_of J (nid ?e {l, x}) = Internal (cchildren J ?e {l, x})"
    using forks_not_single [OF f] by (simp add: cnode_def)
  have "node_cache c (hash_of J (nid ?e {l, x})) = None" using Suc.prems(5) [of ?e] by simp
  from put_node_changed [OF this] obtain c1
    where c1: "put_node (hash_at J ?e {l, x}) (Internal (cchildren J ?e {l, x})) c = Inr c1"
      "changed J {} {nid ?e {l, x}} c c1" unfolding nd by auto
  have T1: "(\<lambda>i. nid i {l, x}) ` {d..<d + k} \<subseteq> T" "nid ?e {l, x} \<in> T" using Suc.prems(4) by auto
  have out: "nid ?e {l, x} \<notin> (\<lambda>i. nid i {l, x}) ` {d..<d + k}" using nid_fork_inject [OF f] by auto
  have free1: "node_cache c1 (hash_at J i {l, x}) = None" if i: "d \<le> i" "i < d + k" for i
  proof -
    have "nid i {l, x} \<in> T" "nid i {l, x} \<notin> {} \<union> {nid ?e {l, x}}" using T1 i nid_fork_inject [OF f] by auto
    then have "node_cache c1 (hash_of J (nid i {l, x})) = node_cache c (hash_of J (nid i {l, x}))"
      by (intro changed_same(1) [OF c1(2) T(1)]) (use T1(2) in auto)
    then show ?thesis using Suc.prems(5) [of i] i by simp
  qed
  obtain c2 where c2: "extend_internal J k q' (cchildren J ?e {l, x}) c1 = Inr (cchildren J d {l, x}, c2)"
    "changed J {} ((\<lambda>i. nid i {l, x}) ` {d..<d + k}) c1 c2"
    using Suc.IH [of q' c1] Suc.prems(1) q'(2) last(2) T1(1) free1 by auto
  have "extend_internal J (Suc k) q (cchildren J (d + Suc k) {l, x}) c = Inr (cchildren J d {l, x}, c2)"
    unfolding extend_internal.simps q'(1) last(1) obind.simps prod.case expect.simps h ch new nh c1(1) c2(1) ..
  moreover have "changed J ({} \<union> {}) ({nid ?e {l, x}} \<union> (\<lambda>i. nid i {l, x}) ` {d..<d + k}) c c2"
    by (rule changed_comp [OF T(1) _ _ c1(2) c2(2)]) (use T1 out in auto)
  moreover have "(\<lambda>i. nid i {l, x}) ` {d..<d + Suc k} =
      {nid ?e {l, x}} \<union> (\<lambda>i. nid i {l, x}) ` {d..<d + k}" by (simp add: atLeastLessThanSuc)
  ultimately show ?case by (metis Un_empty_left)
qed

end
