(* ===== verification/Jellyfish_Insert.thy ===== *)
theory Jellyfish_Insert
  imports Jellyfish_Rebuild
begin

text \<open>
  Insertion and deletion implement \<open>leaf_update\<close>: on a tree cache that holds the nodes of a
  set of leaves, \<open>insert_at\<close> returns the canonical node of the updated set, puts exactly the
  new nodes into the cache and gives up exactly the old ones.
\<close>

section \<open>At a leaf\<close>

lemma iter_advance:
  assumes "iter_ok it" "k \<le> length (rest it)"
  shows "iter_ok (it\<lparr>pos_start := pos_start it + k\<rparr>)" "rest (it\<lparr>pos_start := pos_start it + k\<rparr>) = drop k (rest it)"
  using assms by (auto simp: iter_ok_def rest_def add.commute)

text \<open>The code at a leaf, once the paths have been compared.\<close>

definition replace_leaf ::
  "('k, 'h) jelly \<Rightarrow> 'h \<Rightarrow> ('k, 'h) LeafNode \<Rightarrow> 'k \<Rightarrow> Blob option \<Rightarrow> ('k, 'h) TreeCache
    \<Rightarrow> ('k, 'h) inserted jelly_result" where
  "replace_leaf J node_key l key blob_opt c =
     (case blob_opt of
        None \<Rightarrow> obind (delete_node node_key True c) (\<lambda>c. Inr ((placeholder J, Null), c))
      | Some b \<Rightarrow>
          if blob_crypto_hash J b = blob_hash l then Inr ((node_key, Leaf l), c)
          else obind (delete_node node_key True c) (\<lambda>c. create_leaf_node J key b c))"

definition fork_leaf ::
  "('k, 'h) jelly \<Rightarrow> ('k, 'h) LeafNode \<Rightarrow> 'k \<Rightarrow> Blob \<Rightarrow> nat \<Rightarrow> NibblePath \<Rightarrow> Nibble \<Rightarrow> Nibble \<Rightarrow> ('k, 'h) TreeCache
    \<Rightarrow> ('k, 'h) inserted jelly_result" where
  "fork_leaf J l key b num_common q i j c =
     obind (create_leaf_node J key b c) (\<lambda>((_, new_leaf_node), c).
     obind (node_hash J new_leaf_node) (\<lambda>new_leaf_hash.
     obind (internal_new [i \<mapsto> child_new (leaf_crypto_hash J l) True, j \<mapsto> child_new new_leaf_hash True]) (\<lambda>internal_node.
     obind (node_hash J (Internal internal_node)) (\<lambda>internal_key.
     obind (put_node internal_key (Internal internal_node) c) (\<lambda>c.
     obind (extend_internal J num_common q internal_node c) (\<lambda>(next_internal_node, c).
     obind (node_hash J (Internal next_internal_node)) (\<lambda>h.
     Inr ((h, Internal next_internal_node), c))))))))"

lemma visited_prefix:
  assumes C: "crypto_ok (jcrypto J)" and d: "d \<le> 64" and pre: "take d (hpath J g) = take d (hpath J h)"
  shows "\<exists>it. (skip_common_prefix (visited_nibbles (kiter J h d)) (kiter J g 0) :: _ jelly_result) =
      Inr (d, it, kiter J g d) \<and> (is_finished it :: _ jelly_result) = Inr True"
proof -
  note v = kiter_ok(3,4) [OF C d, of h]
  note y = kiter_ok(1,2) [OF C le0, of g]
  have k: "common (rest (visited_nibbles (kiter J h d))) (rest (kiter J g 0)) = d"
    unfolding v(2) y(2) drop_0 by (rule common_take [OF pre]) (use C d in auto)
  let ?it = "(visited_nibbles (kiter J h d))\<lparr>pos_start := pos_start (visited_nibbles (kiter J h d)) + d\<rparr>"
  have len: "length (rest (visited_nibbles (kiter J h d))) = d" unfolding v(2) using C d by simp
  have "iter_ok ?it" "rest ?it = []" using iter_advance [OF v(1), of d] len by simp_all
  then have "(is_finished ?it :: _ jelly_result) = Inr True" by (simp add: is_finished_eq)
  moreover have "(skip_common_prefix (visited_nibbles (kiter J h d)) (kiter J g 0) :: _ jelly_result) =
      Inr (d, ?it, kiter J g d)"
    using skip_common_prefix_eq [OF v(1) y(1)] k by simp
  ultimately show ?thesis by blast
qed

lemma common_suffix:
  assumes C: "crypto_ok (jcrypto J)" and d: "d \<le> 64" and k: "k = common (drop d (hpath J h)) (drop d (hpath J g))"
  shows "\<exists>it. (skip_common_prefix (kiter J h d) (remaining_nibbles (kiter J g d)) :: _ jelly_result) =
      Inr (k, kiter J h (d + k), it) \<and> iter_ok it \<and> rest it = drop (d + k) (hpath J g) \<and> d + k \<le> 64"
proof -
  note x = kiter_ok(1,2) [OF C d, of h]
  note y = kiter_ok(5,6) [OF C d, of g]
  have len: "k \<le> length (drop d (hpath J h))" "k \<le> length (drop d (hpath J g))" using common_le k by blast+
  let ?it = "(remaining_nibbles (kiter J g d))\<lparr>pos_start := pos_start (remaining_nibbles (kiter J g d)) + k\<rparr>"
  have "iter_ok ?it" "rest ?it = drop (d + k) (hpath J g)"
    using iter_advance [OF y(1), of k] len y(2) by (simp_all add: add.commute)
  moreover have "d + k \<le> 64" using len C d by simp
  moreover have "(skip_common_prefix (kiter J h d) (remaining_nibbles (kiter J g d)) :: _ jelly_result) =
      Inr (k, kiter J h (d + k), ?it)"
    using skip_common_prefix_eq [OF x(1) y(1)] x(2) y(2) k by simp
  ultimately show ?thesis by blast
qed

lemma insert_at_leaf_node_same:
  assumes C: "crypto_ok (jcrypto J)" and d: "d \<le> 64" and same: "lpath J l = kpath J key"
  shows "insert_at_leaf_node J node_key l (kiter J (key_hash J key) d) key blob_opt c =
    replace_leaf J node_key l key blob_opt c"
proof -
  let ?h = "key_hash J key" and ?g = "key_hash J (raw_key l)"
  have e: "hpath J ?g = hpath J ?h" using same by (simp add: lpath_def)
  from visited_prefix [OF C d, of ?g ?h] e obtain v where v:
    "(skip_common_prefix (visited_nibbles (kiter J ?h d)) (kiter J ?g 0) :: _ jelly_result) = Inr (d, v, kiter J ?g d)"
    "(is_finished v :: _ jelly_result) = Inr True" by auto
  have k: "64 - d = common (drop d (hpath J ?h)) (drop d (hpath J ?g))" unfolding e using C by simp
  have dk: "d + (64 - d) = 64" using d by simp
  from common_suffix [OF C d k, unfolded dk] obtain it where it:
    "(skip_common_prefix (kiter J ?h d) (remaining_nibbles (kiter J ?g d)) :: _ jelly_result) =
      Inr (64 - d, kiter J ?h 64, it)" "iter_ok it" "rest it = drop 64 (hpath J ?g)" by blast
  from collect_visited [OF C, of 64 ?h] obtain q
    where q: "(collect_path (visited_nibbles (kiter J ?h 64)) :: _ jelly_result) = Inr q" by auto
  have f: "(is_finished (kiter J ?h 64) :: _ jelly_result) = Inr True" "(is_finished it :: _ jelly_result) = Inr True"
    using is_finished_eq [OF kiter_ok(1) [OF C], of 64 ?h] kiter_ok(2) [OF C, of 64 ?h] is_finished_eq [OF it(2)] it(3) C
    by simp_all
  show ?thesis
    unfolding insert_at_leaf_node_def Let_def kiter_0 [symmetric] v obind.simps prod.case it(1) q f replace_leaf_def
    by simp
qed

lemma insert_at_leaf_node_fork:
  assumes C: "crypto_ok (jcrypto J)" and d: "d \<le> 64" and pre: "take d (lpath J l) = take d (kpath J key)"
    and diff: "lpath J l \<noteq> kpath J key"
  obtains m q where "d \<le> m" "m < 64" "\<And>i. d \<le> i \<Longrightarrow> i < m \<Longrightarrow> lpath J l ! i = kpath J key ! i"
    "lpath J l ! m \<noteq> kpath J key ! m" "path_ok q" "nibbles_of q = take m (kpath J key)"
    "insert_at_leaf_node J node_key l (kiter J (key_hash J key) d) key blob_opt c =
      (case blob_opt of None \<Rightarrow> Inr ((node_key, Leaf l), c)
       | Some b \<Rightarrow> fork_leaf J l key b (m - d) q (lpath J l ! m) (kpath J key ! m) c)"
proof -
  let ?h = "key_hash J key" and ?g = "key_hash J (raw_key l)"
  have g: "hpath J ?g = lpath J l" by (simp add: lpath_def)
  define k where "k = common (drop d (hpath J ?h)) (drop d (hpath J ?g))"
  let ?m = "d + k"
  from visited_prefix [OF C d, of ?g ?h] pre obtain v where v:
    "(skip_common_prefix (visited_nibbles (kiter J ?h d)) (kiter J ?g 0) :: _ jelly_result) = Inr (d, v, kiter J ?g d)"
    "(is_finished v :: _ jelly_result) = Inr True" unfolding g by auto
  from common_suffix [OF C d k_def] obtain it where it:
    "(skip_common_prefix (kiter J ?h d) (remaining_nibbles (kiter J ?g d)) :: _ jelly_result) =
      Inr (k, kiter J ?h ?m, it)" "iter_ok it" "rest it = drop ?m (hpath J ?g)" "?m \<le> 64" by blast
  from collect_visited [OF C it(4), of ?h] obtain q
    where q: "(collect_path (visited_nibbles (kiter J ?h ?m)) :: _ jelly_result) = Inr q" "path_ok q"
      "nibbles_of q = take ?m (kpath J key)" by blast
  have len: "length (drop d (hpath J ?h)) = 64 - d" "length (drop d (hpath J ?g)) = 64 - d" using C by simp_all
  have "drop d (hpath J ?h) \<noteq> drop d (hpath J ?g)" using pre diff unfolding g by (metis append_take_drop_id)
  then have "k \<noteq> 64 - d" using common_full [of "drop d (hpath J ?h)" "drop d (hpath J ?g)"] len unfolding k_def by simp
  then have m: "?m < 64" using it(4) d by simp
  then have "k < 64 - d" by simp
  then have "drop d (hpath J ?h) ! k \<noteq> drop d (hpath J ?g) ! k"
    using common_neq [of "drop d (hpath J ?h)" "drop d (hpath J ?g)"] len unfolding k_def by simp
  then have ne: "lpath J l ! ?m \<noteq> kpath J key ! ?m" using C d g by simp
  have eq: "lpath J l ! i = kpath J key ! i" if "d \<le> i" "i < ?m" for i
  proof -
    have "i - d < common (drop d (hpath J ?h)) (drop d (hpath J ?g))" using that unfolding k_def [symmetric] by simp
    then have "drop d (hpath J ?h) ! (i - d) = drop d (hpath J ?g) ! (i - d)" by (rule common_nth)
    then show ?thesis using that C d g by simp
  qed
  have f: "(is_finished (kiter J ?h ?m) :: _ jelly_result) = Inr False"
    using is_finished_eq [OF kiter_ok(1) [OF C it(4)], of ?h] kiter_ok(2) [OF C it(4), of ?h] m C by simp
  have r: "rest it = lpath J l ! ?m # drop (Suc ?m) (lpath J l)"
    using it(3) m C unfolding g by (simp add: Cons_nth_drop_Suc)
  have nx: "(nibble_next it :: _ jelly_result) = Inr (Some (lpath J l ! ?m), it\<lparr>pos_start := pos_start it + 1\<rparr>)"
    using nibble_next_eq [OF it(2)] r by simp
  have kx: "(nibble_next (kiter J ?h ?m) :: _ jelly_result) = Inr (Some (kpath J key ! ?m), kiter J ?h (Suc ?m))"
    using nibble_next_kiter [OF C m, of ?h] .
  have mk: "?m - d = k" by simp
  have "insert_at_leaf_node J node_key l (kiter J ?h d) key blob_opt c =
      (case blob_opt of None \<Rightarrow> Inr ((node_key, Leaf l), c)
       | Some b \<Rightarrow> fork_leaf J l key b (?m - d) q (lpath J l ! ?m) (kpath J key ! ?m) c)"
    unfolding insert_at_leaf_node_def Let_def kiter_0 [symmetric] v obind.simps prod.case it(1) q(1) f nx kx expect.simps
      fork_leaf_def mk
    using ne by simp
  then show ?thesis using that [of ?m q] m eq ne q by simp
qed

lemma create_leaf_node_eq:
  assumes "node_cache c (hash_of J (nid d {leaf_new J key b})) = None"
  shows "\<exists>c'. create_leaf_node J key b c =
      Inr ((hash_at J d {leaf_new J key b}, cnode J d {leaf_new J key b}), c') \<and>
    changed J {} {nid d {leaf_new J key b}} c c'"
proof -
  from put_node_changed [OF assms] obtain c' where
    "put_node (leaf_crypto_hash J (leaf_new J key b)) (Leaf (leaf_new J key b)) c = Inr c'"
    "changed J {} {nid d {leaf_new J key b}} c c'" by (auto simp: cnode_def)
  then show ?thesis by (auto simp: create_leaf_node_def cnode_def)
qed

lemma replace_leaf_eq:
  fixes J :: "('k, 'h) jelly"
  assumes ap: "apart J (Od \<union> Nw)" and rd: "ready J Od Nw c"
    and same: "same_key J key l" and up: "A' = leaf_update J key blob_opt {l}"
    and sub: "nid d {l} \<in> Od" "live J d A' \<subseteq> Nw" and new: "(live J d A' - live J d {l}) \<inter> Od = {}"
  shows "\<exists>c'. replace_leaf J (hash_at J d {l}) l key blob_opt c = Inr ((hash_at J d A', cnode J d A'), c') \<and>
    changed J (live J d {l} - live J d A') (live J d A' - live J d {l}) c c'"
proof -
  have "node_cache c (hash_of J (nid d {l})) = None \<longrightarrow> hash_of J (nid d {l}) \<notin> stale_node_index_cache c"
    using rd sub(1) unfolding ready_def by blast
  from delete_node_changed [OF this, of True] obtain c1
    where c1: "delete_node (hash_at J d {l}) True c = Inr c1" "changed J {nid d {l}} {} c c1" by auto
  show ?thesis
  proof (cases blob_opt)
    case None
    then have "A' = {}" using up same by (auto simp: leaf_update_def)
    then show ?thesis using None c1 by (simp add: replace_leaf_def cnode_def)
  next
    case (Some b)
    show ?thesis
    proof (cases "blob_crypto_hash J b = blob_hash l")
      case True
      then have "A' = {l}" using up same Some by (auto simp: leaf_update_def)
      then show ?thesis using Some True by (simp add: replace_leaf_def cnode_def changed_refl)
    next
      case False
      let ?x = "leaf_new J key b"
      have A': "A' = {?x}" using up same Some False by (auto simp: leaf_update_def)
      have "?x \<noteq> l" using False by (auto simp: leaf_new_def)
      then have ne: "nid d {?x} \<noteq> nid d {l}" by (metis snd_nid singleton_inject)
      have x: "nid d {?x} \<in> Nw" "nid d {?x} \<notin> Od" using sub(2) new ne unfolding A' by auto
      have T: "nid d {?x} \<in> Od \<union> Nw" "{nid d {l}} \<union> {} \<subseteq> Od \<union> Nw" "nid d {?x} \<notin> {nid d {l}} \<union> {}"
        using x sub(1) ne by auto
      have "node_cache c (hash_of J (nid d {?x})) = None" using rd x unfolding ready_def by blast
      then have "node_cache c1 (hash_of J (nid d {?x})) = None" using changed_same(1) [OF c1(2) ap T] by simp
      from create_leaf_node_eq [OF this] obtain c2
        where c2: "create_leaf_node J key b c1 = Inr ((hash_at J d {?x}, cnode J d {?x}), c2)"
          "changed J {} {nid d {?x}} c1 c2" by blast
      have "changed J ({nid d {l}} \<union> {}) ({} \<union> {nid d {?x}}) c c2"
        by (rule changed_comp [OF ap _ _ c1(2) c2(2)]) (use T in auto)
      moreover have "live J d {l} - live J d A' = {nid d {l}}" "live J d A' - live J d {l} = {nid d {?x}}"
        using ne unfolding A' by auto
      ultimately have "changed J (live J d {l} - live J d A') (live J d A' - live J d {l}) c c2" by simp
      moreover have "replace_leaf J (hash_at J d {l}) l key blob_opt c = Inr ((hash_at J d A', cnode J d A'), c2)"
        unfolding replace_leaf_def Some option.case A' c1(1) obind.simps c2(1) using False by simp
      ultimately show ?thesis by blast
    qed
  qed
qed

lemma fork_leaf_eq:
  fixes J :: "('k, 'h) jelly"
  assumes C: "crypto_ok (jcrypto J)" and ap: "apart J T" and f: "forks J d m l x" and x: "x = leaf_new J key b"
    and q: "path_ok q" "nibbles_of q = take m (kpath J key)"
    and T: "nid d {x} \<in> T" "(\<lambda>i. nid i {l, x}) ` {d..m} \<subseteq> T"
    and free: "\<And>y. y \<in> insert (nid d {x}) ((\<lambda>i. nid i {l, x}) ` {d..m}) \<Longrightarrow> node_cache c (hash_of J y) = None"
  shows "\<exists>c'. fork_leaf J l key b (m - d) q (lpath J l ! m) (kpath J key ! m) c =
      Inr ((hash_at J d {l, x}, cnode J d {l, x}), c') \<and>
    changed J {} (insert (nid d {x}) ((\<lambda>i. nid i {l, x}) ` {d..m})) c c'"
proof -
  let ?chain = "\<lambda>i. nid i {l, x}"
  have dm: "d \<le> m" "m < 64" "d < 64" using f by (auto simp: forks_def)
  have ns: "\<not> is_singleton {l, x}" by (rule forks_not_single [OF f])
  have diff: "?chain i \<noteq> nid d {x}" for i using ns by (metis is_singletonI snd_nid)
  have lx: "lpath J x = kpath J key" by (simp add: x)
  have "node_cache c (hash_of J (nid d {x})) = None" using free by blast
  from create_leaf_node_eq [OF this [unfolded x]] obtain c1 where c1:
    "create_leaf_node J key b c = Inr ((hash_at J d {x}, cnode J d {x}), c1)" "changed J {} {nid d {x}} c c1"
    unfolding x [symmetric] by blast
  have free1: "node_cache c1 (hash_of J (?chain i)) = None" if "d \<le> i" "i \<le> m" for i
  proof -
    have i: "?chain i \<in> T" "{} \<union> {nid d {x}} \<subseteq> T" "?chain i \<notin> {} \<union> {nid d {x}}"
      using T that diff by auto
    then show ?thesis using changed_same(1) [OF c1(2) ap i] free [of "?chain i"] that by simp
  qed
  have nd: "node_of J (?chain i) = Internal (cchildren J i {l, x})" for i using ns by (simp add: cnode_def)
  from put_node_changed [OF free1 [OF dm(1) le_refl]] obtain c2 where c2:
    "put_node (hash_at J m {l, x}) (Internal (cchildren J m {l, x})) c1 = Inr c2" "changed J {} {?chain m} c1 c2"
    unfolding nd by auto
  have free2: "node_cache c2 (hash_at J i {l, x}) = None" if "d \<le> i" "i < d + (m - d)" for i
  proof -
    have i: "?chain i \<in> T" "{} \<union> {?chain m} \<subseteq> T" "?chain i \<notin> {} \<union> {?chain m}"
      using T that dm nid_fork_inject [OF f] by auto
    then show ?thesis using changed_same(1) [OF c2(2) ap i] free1 [of i] that by simp
  qed
  have "d + (m - d) \<le> m" "nibbles_of q = take (d + (m - d)) (lpath J x)" "?chain ` {d..<d + (m - d)} \<subseteq> T"
    using dm q(2) lx T(2) by auto
  from extend_internal_eq [OF C f this(1) q(1) this(2) ap this(3) free2] obtain c3 where c3:
    "extend_internal J (m - d) q (cchildren J m {l, x}) c2 = Inr (cchildren J d {l, x}, c3)"
    "changed J {} (?chain ` {d..<m}) c2 c3" using dm by auto
  have ch: "[lpath J l ! m \<mapsto> child_new (leaf_crypto_hash J l) True,
      kpath J key ! m \<mapsto> child_new (hash_at J d {x}) True] = cchildren J m {l, x}"
    using cchildren_fork_last [OF C f] lx by simp
  have new: "internal_new (cchildren J m {l, x}) = Inr (cchildren J m {l, x})"
    by (rule internal_new_cchildren [OF C dm(2)]) (use ns in auto)
  have nh: "node_hash J (Internal (cchildren J i {l, x})) = Inr (hash_at J i {l, x})" if "i < 64" for i
    using internal_crypto_hash_eq [OF C that] by simp
  have leaf: "node_hash J (cnode J d {x}) = Inr (hash_at J d {x})" by (simp add: cnode_def)
  have "fork_leaf J l key b (m - d) q (lpath J l ! m) (kpath J key ! m) c =
      Inr ((hash_at J d {l, x}, Internal (cchildren J d {l, x})), c3)"
    unfolding fork_leaf_def c1(1) obind.simps prod.case leaf ch new nh [OF dm(2)] c2(1) c3(1) nh [OF dm(3)] ..
  then have run: "fork_leaf J l key b (m - d) q (lpath J l ! m) (kpath J key ! m) c =
      Inr ((hash_at J d {l, x}, cnode J d {l, x}), c3)" using ns by (simp add: cnode_def)
  have c12: "changed J ({} \<union> {}) ({nid d {x}} \<union> {?chain m}) c c2"
    by (rule changed_comp [OF ap _ _ c1(2) c2(2)]) (use T dm diff in auto)
  have "{?chain m} \<union> ?chain ` {d..<m} \<subseteq> ?chain ` {d..m}" using dm(1) by auto
  then have "{} \<union> {} \<union> ({nid d {x}} \<union> {?chain m}) \<union> {} \<union> ?chain ` {d..<m} \<subseteq> T" using T by blast
  moreover have "nid d {x} \<notin> ?chain ` {d..<m}" "?chain m \<notin> ?chain ` {d..<m}"
    using diff nid_fork_inject [OF f] by (metis imageE, auto)
  then have "({} \<union> {} \<union> ({nid d {x}} \<union> {?chain m})) \<inter> ({} \<union> ?chain ` {d..<m}) = {}" by blast
  ultimately have "changed J ({} \<union> {} \<union> {}) ({nid d {x}} \<union> {?chain m} \<union> ?chain ` {d..<m}) c c3"
    by (rule changed_comp [OF ap _ _ c12 c3(2)])
  moreover have "{nid d {x}} \<union> {?chain m} \<union> ?chain ` {d..<m} = insert (nid d {x}) (?chain ` {d..m})"
    using dm(1) by (auto simp: le_less)
  ultimately show ?thesis using run by auto
qed

lemma insert_at_leaf_node_eq:
  fixes J :: "('k, 'h) jelly"
  assumes C: "crypto_ok (jcrypto J)" and ap: "apart J (Od \<union> Nw)" and rd: "ready J Od Nw c"
    and d: "d \<le> 64" and pre: "take d (lpath J l) = take d (kpath J key)" and up: "A' = leaf_update J key blob_opt {l}"
    and sub: "nid d {l} \<in> Od" "live J d A' \<subseteq> Nw" and new: "(live J d A' - live J d {l}) \<inter> Od = {}"
  shows "\<exists>c'. insert_at_leaf_node J (hash_at J d {l}) l (kiter J (key_hash J key) d) key blob_opt c =
      Inr ((hash_at J d A', cnode J d A'), c') \<and>
    changed J (live J d {l} - live J d A') (live J d A' - live J d {l}) c c'"
proof (cases "same_key J key l")
  case True
  then have "lpath J l = kpath J key" using same_key_path [OF C] by blast
  then show ?thesis
    using insert_at_leaf_node_same [OF C d] replace_leaf_eq [OF ap rd True up sub new] by simp
next
  case False
  then have "lpath J l \<noteq> kpath J key" using same_key_path [OF C] by blast
  from insert_at_leaf_node_fork [OF C d pre this, of "hash_at J d {l}" blob_opt c] obtain m q where mq:
    "d \<le> m" "m < 64" "\<And>i. d \<le> i \<Longrightarrow> i < m \<Longrightarrow> lpath J l ! i = kpath J key ! i"
    "lpath J l ! m \<noteq> kpath J key ! m" "path_ok q" "nibbles_of q = take m (kpath J key)"
    "insert_at_leaf_node J (hash_at J d {l}) l (kiter J (key_hash J key) d) key blob_opt c =
      (case blob_opt of None \<Rightarrow> Inr ((hash_at J d {l}, Leaf l), c)
       | Some b \<Rightarrow> fork_leaf J l key b (m - d) q (lpath J l ! m) (kpath J key ! m) c)" by metis
  show ?thesis
  proof (cases blob_opt)
    case None
    then have "A' = {l}" using up False by (auto simp: leaf_update_def)
    then show ?thesis using mq(7) None by (simp add: cnode_def changed_refl)
  next
    case (Some b)
    let ?x = "leaf_new J key b"
    have A': "A' = {l, ?x}" using up False Some by (auto simp: leaf_update_def)
    have f: "forks J d m l ?x" using mq(1-4) by (simp add: forks_def)
    let ?N = "insert (nid d {?x}) ((\<lambda>i. nid i {l, ?x}) ` {d..m})"
    have L: "live J d A' = insert (nid d {l}) ?N"
      unfolding A' live_fork [OF C f le_refl mq(1)] by (auto simp: nid_def)
    have "nid d {l} \<noteq> nid i {l, ?x}" for i using forks_not_single [OF f] by (metis is_singletonI snd_nid)
    moreover have "nid d {l} \<noteq> nid d {?x}" using forks_neq [OF f] by (metis singleton_inject snd_nid)
    ultimately have "nid d {l} \<notin> ?N" by auto
    then have diff: "live J d A' - live J d {l} = ?N" "live J d {l} - live J d A' = {}" unfolding L by auto
    then have N: "?N \<subseteq> Nw - Od" using new sub(2) by blast
    have "node_cache c (hash_of J y) = None" if "y \<in> ?N" for y
    proof -
      have "y \<in> Nw - Od" using N that by blast
      then show ?thesis using rd unfolding ready_def by blast
    qed
    moreover have "nid d {?x} \<in> Od \<union> Nw" "(\<lambda>i. nid i {l, ?x}) ` {d..m} \<subseteq> Od \<union> Nw" using N by auto
    ultimately obtain c' where "fork_leaf J l key b (m - d) q (lpath J l ! m) (kpath J key ! m) c =
        Inr ((hash_at J d {l, ?x}, cnode J d {l, ?x}), c')" "changed J {} ?N c c'"
      using fork_leaf_eq [OF C ap f refl mq(5,6), of c] by blast
    then show ?thesis using mq(7) Some unfolding diff by (auto simp: A')
  qed
qed

section \<open>At any node\<close>

lemma update_children:
  fixes J :: "('k, 'h) jelly"
  assumes C: "crypto_ok (jcrypto J)" and A: "leaves_ok J d A" "A \<noteq> {}" "\<not> is_singleton A"
    and A': "A' = leaf_update J key b A" "leaves_ok J d A'" and n: "n = kpath J key ! d"
    and new: "(live J d A' - live J d A) \<inter> Od = {}"
  shows "(live J (Suc d) (leaf_update J key b (sub J d n A)) - live J (Suc d) (sub J d n A)) \<inter> Od = {}"
    and "A' \<noteq> A \<Longrightarrow> \<not> is_singleton A' \<Longrightarrow> nid d A' \<notin> Od"
proof -
  have d: "d < 64" using leaves_ok_lt_64 [OF C A] .
  have n16: "n < 16" using hpath_less [OF C d] n by simp
  have ne': "A' \<noteq> {}" unfolding A'(1) by (rule update_nonempty [OF C A])
  have B': "leaf_update J key b (sub J d n A) = sub J d n A'" unfolding A'(1) using sub_update(1) [OF C n] by simp
  have other: "sub J d m A' = sub J d m A" if "m \<noteq> n" for m unfolding A'(1) using sub_update(2) [OF C n that] .
  note diff = live_update_diff(2) [OF C A A'(2) ne' n16 other]
  show "(live J (Suc d) (leaf_update J key b (sub J d n A)) - live J (Suc d) (sub J d n A)) \<inter> Od = {}"
  proof (cases "A' = A")
    case True
    then show ?thesis unfolding B' by simp
  next
    case False
    show ?thesis using diff [OF _ False] new unfolding B' by blast
  qed
  assume "A' \<noteq> A" "\<not> is_singleton A'"
  then have "nid d A' \<in> live J d A' - live J d A" using diff by simp
  then show "nid d A' \<notin> Od" using new by blast
qed

lemma insert_at_eq:
  fixes J :: "('k, 'h) jelly"
  assumes C: "crypto_ok (jcrypto J)" and ap: "apart J (Od \<union> Nw)" and rd: "ready J Od Nw c"
    and "d \<le> 64" "leaves_ok J d A" "A \<noteq> {}" "\<And>l. l \<in> A \<Longrightarrow> take d (lpath J l) = take d (kpath J key)"
      "A' = leaf_update J key b A" "live J d A \<subseteq> Od" "live J d A' \<subseteq> Nw" "(live J d A' - live J d A) \<inter> Od = {}"
  shows "\<exists>c'. insert_at J (hash_at J d A) (kiter J (key_hash J key) d) key b c =
      Inr ((hash_at J d A', cnode J d A'), c') \<and>
    changed J (live J d A - live J d A') (live J d A' - live J d A) c c'"
  using assms(4-)
proof (induction "64 - d" arbitrary: d A A' rule: less_induct)
  case less
  note d = less.prems(1) and A = less.prems(2,3) and pre = less.prems(4) and up = less.prems(5)
    and sub = less.prems(6,7) and new = less.prems(8)
  have id: "nid d A \<in> Od" using nid_live_ok [OF C A] sub(1) by blast
  have get: "cache_get_node J c (hash_at J d A) = Inr (cnode J d A)"
    using rd id unfolding ready_def by (metis hash_of_nid node_of_nid)
  show ?case
  proof (cases "is_singleton A")
    case True
    then obtain l where l: "A = {l}" by (auto simp: is_singleton_iff)
    have "insert_at J (hash_at J d A) (kiter J (key_hash J key) d) key b c =
        insert_at_leaf_node J (hash_at J d {l}) l (kiter J (key_hash J key) d) key b c"
      using get unfolding l by (simp add: insert_at.simps cnode_def)
    then show ?thesis
      using insert_at_leaf_node_eq [OF C ap rd d _ up [unfolded l] id [unfolded l] sub(2) new [unfolded l]] pre
      unfolding l by simp
  next
    case ns: False
    have d64: "d < 64" using leaves_ok_lt_64 [OF C A ns] .
    define n where "n = kpath J key ! d"
    define B where "B = sub J d n A"
    define B' where "B' = leaf_update J key b B"
    have n16: "n < 16" using hpath_less [OF C d64] n_def by simp
    have up_ok: "leaves_ok J d A'" unfolding up by (rule leaves_ok_update [OF C A(1) pre])
    note kids = update_children [OF C A ns up up_ok n_def new, folded B_def B'_def]
    have rebuild: "\<exists>c'. rebuild_internal_node J (hash_at J d A) (cchildren J d A) n
          ((hash_at J (Suc d) B', cnode J (Suc d) B'), c1) = Inr ((hash_at J d A', cnode J d A'), c') \<and>
        changed J (live J d A - live J d A') (live J d A' - live J d A) c c'"
      if "B \<noteq> {} \<or> B' \<noteq> {}"
        "changed J (live J (Suc d) B - live J (Suc d) B') (live J (Suc d) B' - live J (Suc d) B) c c1" for c1
      by (rule rebuild_internal_node_eq [OF C ap rd A ns up up_ok sub _ n_def B_def B'_def that]) (rule kids(2))
    have run: "insert_at J (hash_at J d A) (kiter J (key_hash J key) d) key b c =
        (if B \<noteq> {} then obind (insert_at J (hash_at J (Suc d) B) (kiter J (key_hash J key) (Suc d)) key b c)
           (rebuild_internal_node J (hash_at J d A) (cchildren J d A) n)
         else case b of Some v \<Rightarrow> obind (create_leaf_node J key v c)
             (rebuild_internal_node J (hash_at J d A) (cchildren J d A) n)
           | None \<Rightarrow> Inr ((hash_at J d A, Internal (cchildren J d A)), c))"
    proof -
      have nd: "cnode J d A = Internal (cchildren J d A)" using A(2) ns by (simp add: cnode_def)
      have nx: "(nibble_next (kiter J (key_hash J key) d) :: _ jelly_result) = Inr (Some n, kiter J (key_hash J key) (Suc d))"
        unfolding n_def by (rule nibble_next_kiter [OF C d64])
      have ch: "cchildren J d A n = (if B \<noteq> {} then Some (child_new (hash_at J (Suc d) B) (is_singleton B)) else None)"
        using n16 by (simp add: cchildren_def B_def)
      have "insert_at J (hash_at J d A) (kiter J (key_hash J key) d) key b c =
          insert_at_internal_node J (hash_at J d A) (cchildren J d A) (kiter J (key_hash J key) d) key b c"
        by (subst insert_at.simps) (simp add: get nd)
      then show ?thesis by (simp add: insert_at_internal_node.simps nx ch child_new_def split: option.splits)
    qed
    have B'sub: "B' = sub J d n A'" unfolding B'_def B_def up using sub_update(1) [OF C n_def] by simp
    have T: "live J (Suc d) B \<subseteq> Od" "live J (Suc d) B' \<subseteq> Nw"
      using live_sub_subset [OF C A(1) d64 n16] live_sub_subset [OF C up_ok d64 n16] sub by (auto simp: B_def B'sub)
    show ?thesis
    proof (cases "B = {}")
      case False
      have "take (Suc d) (lpath J l) = take (Suc d) (kpath J key)" if "l \<in> B" for l
      proof -
        have "l \<in> A" "lpath J l ! d = kpath J key ! d" using that by (auto simp: B_def sub_def n_def)
        then show ?thesis using pre [of l] d64 C by (simp add: take_Suc_conv_app_nth)
      qed
      moreover have "64 - Suc d < 64 - d" "Suc d \<le> 64" using d64 by simp_all
      ultimately have ih: "\<exists>c1. insert_at J (hash_at J (Suc d) B) (kiter J (key_hash J key) (Suc d)) key b c =
          Inr ((hash_at J (Suc d) B', cnode J (Suc d) B'), c1) \<and>
        changed J (live J (Suc d) B - live J (Suc d) B') (live J (Suc d) B' - live J (Suc d) B) c c1"
        using less.hyps [OF _ _ leaves_ok_sub [OF C A(1) d64, of n, folded B_def] False _ B'_def T kids(1)] by blast
      from ih obtain c1 where c1: "insert_at J (hash_at J (Suc d) B) (kiter J (key_hash J key) (Suc d)) key b c =
          Inr ((hash_at J (Suc d) B', cnode J (Suc d) B'), c1)"
        "changed J (live J (Suc d) B - live J (Suc d) B') (live J (Suc d) B' - live J (Suc d) B) c c1"
        by blast
      show ?thesis using rebuild [OF _ c1(2)] False run c1(1) by simp
    next
      case True
      show ?thesis
      proof (cases b)
        case None
        then have "B' = B" using True by (simp add: B'_def leaf_update_def)
        then have "A' = A" unfolding B'_def B_def up using update_eq_iff [OF C n_def d64] by blast
        then show ?thesis using run True None A(2) ns by (simp add: cnode_def changed_refl)
      next
        case (Some v)
        let ?x = "leaf_new J key v"
        have B': "B' = {?x}" using True Some by (simp add: B'_def leaf_update_def)
        have "nid (Suc d) {?x} \<in> Nw - Od" using T(2) kids(1) True unfolding B' by simp
        then have "node_cache c (hash_of J (nid (Suc d) {?x})) = None" using rd unfolding ready_def by blast
        from create_leaf_node_eq [OF this] obtain c1
          where c1: "create_leaf_node J key v c = Inr ((hash_at J (Suc d) B', cnode J (Suc d) B'), c1)"
            "changed J {} {nid (Suc d) B'} c c1" unfolding B' by blast
        have "changed J (live J (Suc d) B - live J (Suc d) B') (live J (Suc d) B' - live J (Suc d) B) c c1"
          using c1(2) True by (simp add: B')
        then show ?thesis using rebuild run True Some c1(1) B' by simp
      qed
    qed
  qed
qed

end
