(* ===== verification/Jellyfish_Put.thy ===== *)
theory Jellyfish_Put
  imports Jellyfish_Insert
begin

text \<open>
  Whole updates of a jellyfish Merkle tree: \<^verbatim>\<open>put\<close>, \<^verbatim>\<open>freeze\<close> and \<^verbatim>\<open>puts\<close> of \<^verbatim>\<open>lib.rs\<close> and
  \<^verbatim>\<open>tree_cache/mod.rs\<close> against the set of leaves they stand for. The root hashes returned are
  those of the binary sparse Merkle trees of the successive sets, and the nodes written
  make every one of these trees readable.
\<close>

section \<open>Sequences of updates\<close>

fun apply_updates :: "('k, 'h) jelly \<Rightarrow> ('k \<times> Blob option) list \<Rightarrow> ('k, 'h) leaves \<Rightarrow> ('k, 'h) leaves" where
  "apply_updates J [] S = S"
| "apply_updates J ((key, b) # kvs) S = apply_updates J kvs (leaf_update J key b S)"

text \<open>The sets of leaves on the way.\<close>

fun trace :: "('k, 'h) jelly \<Rightarrow> ('k \<times> Blob option) list \<Rightarrow> ('k, 'h) leaves \<Rightarrow> ('k, 'h) leaves list" where
  "trace J [] S = [S]"
| "trace J ((key, b) # kvs) S = S # trace J kvs (leaf_update J key b S)"

text \<open>How often a leaf is put into an empty tree.\<close>

fun refills :: "('k, 'h) jelly \<Rightarrow> ('k \<times> Blob option) list \<Rightarrow> ('k, 'h) leaves \<Rightarrow> nat" where
  "refills J [] S = 0"
| "refills J ((key, b) # kvs) S =
     (if S = {} \<and> b \<noteq> None then 1 else 0) + refills J kvs (leaf_update J key b S)"

fun versions :: "('k, 'h) jelly \<Rightarrow> ('k \<times> Blob option) list list \<Rightarrow> ('k, 'h) leaves \<Rightarrow> ('k, 'h) leaves list" where
  "versions J [] S = []"
| "versions J (kvs # kvss) S = apply_updates J kvs S # versions J kvss (apply_updates J kvs S)"

fun traces :: "('k, 'h) jelly \<Rightarrow> ('k \<times> Blob option) list list \<Rightarrow> ('k, 'h) leaves \<Rightarrow> ('k, 'h) leaves list" where
  "traces J [] S = [S]"
| "traces J (kvs # kvss) S = trace J kvs S @ traces J kvss (apply_updates J kvs S)"

fun batches_ok :: "('k, 'h) jelly \<Rightarrow> ('k \<times> Blob option) list list \<Rightarrow> ('k, 'h) leaves \<Rightarrow> bool" where
  "batches_ok J [] S \<longleftrightarrow> True"
| "batches_ok J (kvs # kvss) S \<longleftrightarrow>
     kvs \<noteq> [] \<and> refills J kvs S \<le> 1 \<and> batches_ok J kvss (apply_updates J kvs S)"

text \<open>No two nodes of these trees have the same hash.\<close>

definition no_collision :: "('k, 'h) jelly \<Rightarrow> ('k, 'h) leaves set \<Rightarrow> bool" where
  "no_collision J Ss \<longleftrightarrow> inj_on (node_hash J) (\<Union>S \<in> Ss. tree_nodes J S)"

text \<open>A reader that finds every node of the tree.\<close>

definition stores :: "('k, 'h) jelly \<Rightarrow> ('k, 'h) TreeReader \<Rightarrow> ('k, 'h) leaves \<Rightarrow> bool" where
  "stores J R S \<longleftrightarrow> (\<forall>x \<in> live J 0 S. R (hash_of J x) = Inr (Some (node_of J x)))"

definition overlay :: "('h \<Rightarrow> ('k, 'h) Node option) \<Rightarrow> ('k, 'h) TreeReader \<Rightarrow> ('k, 'h) TreeReader" where
  "overlay nodes R h = (case nodes h of Some nd \<Rightarrow> Inr (Some nd) | None \<Rightarrow> R h)"

lemma leaves_ok_update_0:
  "crypto_ok (jcrypto J) \<Longrightarrow> leaves_ok J 0 S \<Longrightarrow> leaves_ok J 0 (leaf_update J key b S)"
  by (rule leaves_ok_update) auto

lemma apart_mono: "apart J T \<Longrightarrow> T' \<subseteq> T \<Longrightarrow> apart J T'"
  unfolding apart_def by (auto intro: inj_on_subset)

lemma no_collision_apart:
  assumes C: "crypto_ok (jcrypto J)" and ok: "\<And>S. S \<in> Ss \<Longrightarrow> leaves_ok J 0 S" and nc: "no_collision J Ss"
  shows "apart J (\<Union>S \<in> Ss. live J 0 S)"
proof -
  let ?T = "\<Union>S \<in> Ss. live J 0 S"
  have ids: "ids_ok J ?T"
    unfolding ids_ok_def
  proof (intro allI impI)
    fix e B assume "(e, B) \<in> ?T"
    then obtain S where S: "S \<in> Ss" "(e, B) \<in> live J 0 S" by blast
    have up: "nid (Suc e) (sub J e n B) \<in> live J 0 S \<Longrightarrow> nid (Suc e) (sub J e n B) \<in> ?T" for n using S(1) by blast
    show "B \<noteq> {} \<and> (is_singleton B \<longrightarrow> e = 0) \<and>
     (\<not> is_singleton B \<longrightarrow> e < 64 \<and> leaves_ok J e B) \<and>
     (\<forall>i l l'. \<not> is_singleton B \<longrightarrow> i < e \<longrightarrow> l \<in> B \<longrightarrow> l' \<in> B \<longrightarrow> lpath J l ! i = lpath J l' ! i) \<and>
     (\<forall>n. \<not> is_singleton B \<longrightarrow> n < 16 \<longrightarrow> sub J e n B \<noteq> {} \<longrightarrow> nid (Suc e) (sub J e n B) \<in> ?T)"
      using mp [OF spec [OF spec [OF live_ids_ok [OF C ok [OF S(1)], unfolded ids_ok_def]]] S(2)] up by meson
  qed
  have inj: "inj_on (node_hash J) (insert Null (node_of J ` ?T))" if "Ss \<noteq> {}"
    by (rule inj_on_subset [OF nc [unfolded no_collision_def tree_nodes_def]]) (use that in blast)
  show ?thesis
  proof (cases "Ss = {}")
    case False
    have "inj_on (hash_of J) ?T"
    proof (rule inj_onI)
      fix x y assume xy: "x \<in> ?T" "y \<in> ?T" "hash_of J x = hash_of J y"
      have "inj_on (node_hash J) (node_of J ` ?T)" using inj [OF False] by (rule inj_on_subset) blast
      then show "x = y" using hash_of_inject [OF C ids _ xy] by blast
    qed
    moreover have "hash_of J x \<noteq> placeholder J" if x: "x \<in> ?T" for x
    proof
      assume "hash_of J x = placeholder J"
      then have "node_hash J (node_of J x) = node_hash J Null" using ids_node_hash [OF C ids x] by simp
      then have "node_of J x = Null" by (rule inj_onD [OF inj [OF False]]) (use x in blast)+
      moreover have "snd x \<noteq> {}" using ids_okD(1) [OF ids, of "fst x" "snd x"] ids_ok_nid [OF ids x] x by simp
      ultimately show False by (auto simp: node_of_def cnode_def split: if_splits)
    qed
    then have "placeholder J \<notin> hash_of J ` ?T" by (metis imageE)
    ultimately show ?thesis unfolding apart_def by (rule conjI)
  qed (simp add: apart_def)
qed

section \<open>One update\<close>

definition holds :: "('k, 'h) jelly \<Rightarrow> ('k, 'h) leaves \<Rightarrow> ('k, 'h) TreeCache \<Rightarrow> bool" where
  "holds J S c \<longleftrightarrow>
     root_node_key c = smt J 256 S \<and>
     (\<forall>x \<in> live J 0 S. cache_get_node J c (hash_of J x) = Inr (node_of J x)) \<and>
     dom (node_cache c) \<subseteq> insert (placeholder J) (hash_of J ` live J 0 S) \<and>
     (\<forall>x \<in> live J 0 S. node_cache c (hash_of J x) = None \<longrightarrow> hash_of J x \<notin> stale_node_index_cache c) \<and>
     node_cache c (placeholder J) \<in> {None, Some Null} \<and> finite (stale_node_index_cache c)"

text \<open>The placeholder node can be given up once.\<close>

definition placeholder_free :: "('k, 'h) jelly \<Rightarrow> ('k, 'h) TreeCache \<Rightarrow> bool" where
  "placeholder_free J c \<longleftrightarrow> node_cache c (placeholder J) \<noteq> None \<or> placeholder J \<notin> stale_node_index_cache c"

lemma finite_live: "finite (live J d A)"
  by (induction J d A rule: live.induct) (subst live.simps, auto)

lemma holds_ready:
  assumes ap: "apart J (live J 0 S \<union> N)" and h: "holds J S c"
  shows "ready J (live J 0 S) N c"
proof -
  have "node_cache c (hash_of J x) = None" if x: "x \<in> N - live J 0 S" for x
  proof (rule ccontr)
    assume "node_cache c (hash_of J x) \<noteq> None"
    then have "hash_of J x \<in> insert (placeholder J) (hash_of J ` live J 0 S)" using h unfolding holds_def by blast
    moreover have "hash_of J x \<noteq> placeholder J" using apartD(2) [OF ap] x by blast
    moreover have "hash_of J x \<notin> hash_of J ` live J 0 S" by (rule apart_notin [OF ap]) (use x in auto)
    ultimately show False by blast
  qed
  then show ?thesis using h unfolding ready_def holds_def by blast
qed

lemma holds_changed:
  fixes J :: "('k, 'h) jelly"
  assumes ap: "apart J (live J 0 S \<union> live J 0 S')" and h: "holds J S c"
    and ch: "changed J (live J 0 S - live J 0 S') (live J 0 S' - live J 0 S) c c1"
  shows "holds J S' (c1\<lparr>root_node_key := smt J 256 S'\<rparr>)"
proof -
  let ?c = "c1\<lparr>root_node_key := smt J 256 S'\<rparr>" and ?T = "live J 0 S \<union> live J 0 S'"
  let ?R = "live J 0 S - live J 0 S'" and ?N = "live J 0 S' - live J 0 S"
  have RN: "?R \<union> ?N \<subseteq> ?T" by blast
  have old: "node_cache ?c (hash_of J x) = node_cache c (hash_of J x)"
    "cache_get_node J ?c (hash_of J x) = cache_get_node J c (hash_of J x)"
    "hash_of J x \<in> stale_node_index_cache ?c \<longleftrightarrow> hash_of J x \<in> stale_node_index_cache c"
    if x: "x \<in> live J 0 S" "x \<in> live J 0 S'" for x
  proof -
    have i: "x \<in> ?T" "x \<notin> ?R \<union> ?N" using x by blast+
    note s = changed_same [OF ch ap i(1) RN i(2)]
    show "node_cache ?c (hash_of J x) = node_cache c (hash_of J x)"
      "hash_of J x \<in> stale_node_index_cache ?c \<longleftrightarrow> hash_of J x \<in> stale_node_index_cache c"
      using s by simp_all
    have "cache_get_node J ?c (hash_of J x) = cache_get_node J c1 (hash_of J x)" by (rule cache_get_node_cong) simp_all
    then show "cache_get_node J ?c (hash_of J x) = cache_get_node J c (hash_of J x)" using s(2) by simp
  qed
  have new: "node_cache ?c (hash_of J x) = Some (node_of J x)" if "x \<in> ?N" for x
    using ch that unfolding changed_def by simp
  have get: "cache_get_node J ?c (hash_of J x) = Inr (node_of J x)" if x: "x \<in> live J 0 S'" for x
  proof (cases "x \<in> live J 0 S")
    case True
    then show ?thesis using old(2) x h unfolding holds_def by simp
  next
    case False
    then show ?thesis using new [of x] x apartD(2) [OF ap, of x] by (simp add: cache_get_node_def)
  qed
  have st: "hash_of J x \<notin> stale_node_index_cache ?c"
    if x: "x \<in> live J 0 S'" "node_cache ?c (hash_of J x) = None" for x
  proof -
    have "x \<in> live J 0 S" using new [of x] x by force
    then show ?thesis using old(1,3) x h unfolding holds_def by metis
  qed
  have "k \<in> insert (placeholder J) (hash_of J ` live J 0 S')" if k: "node_cache ?c k \<noteq> None" for k
  proof (cases "k \<in> hash_of J ` (?R \<union> ?N)")
    case True
    then obtain x where x: "x \<in> ?R \<union> ?N" "k = hash_of J x" by blast
    moreover have "x \<notin> ?R"
    proof
      assume "x \<in> ?R"
      then have "node_cache c1 (hash_of J x) = None" using ch unfolding changed_def by blast
      then show False using k x(2) by simp
    qed
    ultimately show ?thesis by blast
  next
    case False
    then have "node_cache c k \<noteq> None" using ch k unfolding changed_def by simp
    then have "k \<in> insert (placeholder J) (hash_of J ` live J 0 S)" using h unfolding holds_def by blast
    then show ?thesis using False by blast
  qed
  moreover have "placeholder J \<notin> hash_of J ` (?R \<union> ?N)" using ap unfolding apart_def by blast
  then have "node_cache ?c (placeholder J) = node_cache c (placeholder J)" using ch unfolding changed_def by simp
  moreover have "stale_node_index_cache ?c = stale_node_index_cache c \<union>
      hash_of J ` {x \<in> ?R. node_cache c (hash_of J x) = None}" using ch unfolding changed_def by simp
  then have "finite (stale_node_index_cache ?c)" using h finite_live [of J 0 S] unfolding holds_def by simp
  ultimately show ?thesis using get st h unfolding holds_def by auto
qed

lemma kiter_start: "path_nibbles (nibble_path_new (to_vec (jcrypto J) (key_hash J key))) = kiter J (key_hash J key) 0"
  by (simp add: kiter_0)

lemma put_nonempty:
  fixes J :: "('k, 'h) jelly"
  assumes C: "crypto_ok (jcrypto J)" and S: "leaves_ok J 0 S" "S \<noteq> {}" and S': "S' = leaf_update J key b S"
    and ap: "apart J (live J 0 S \<union> live J 0 S')" and h: "holds J S c"
  obtains c1 where "put J key b c = Inr (c1\<lparr>root_node_key := smt J 256 S'\<rparr>)"
    "changed J (live J 0 S - live J 0 S') (live J 0 S' - live J 0 S) c c1"
proof -
  have rd: "ready J (live J 0 S) (live J 0 S') c" by (rule holds_ready [OF ap h])
  obtain c1 where c1: "insert_at J (hash_at J 0 S) (kiter J (key_hash J key) 0) key b c =
      Inr ((hash_at J 0 S', cnode J 0 S'), c1)"
    "changed J (live J 0 S - live J 0 S') (live J 0 S' - live J 0 S) c c1"
    using insert_at_eq [OF C ap rd le0 S _ S' order_refl order_refl] by auto
  have "root_node_key c = smt J 256 S" using h by (simp add: holds_def)
  then have "put J key b c = Inr (c1\<lparr>root_node_key := smt J 256 S'\<rparr>)"
    using c1(1) unfolding put_def Let_def kiter_start by simp
  then show thesis using c1(2) that by blast
qed

lemma put_empty:
  fixes J :: "('k, 'h) jelly"
  assumes C: "crypto_ok (jcrypto J)" and S': "S' = leaf_update J key b {}"
    and ap: "apart J (live J 0 S')" and h: "holds J {} c" and free: "b \<noteq> None \<Longrightarrow> placeholder_free J c"
  shows "\<exists>c'. put J key b c = Inr c' \<and> holds J S' c' \<and> frozen_cache c' = frozen_cache c \<and> tc_reader c' = tc_reader c \<and>
    (b = None \<longrightarrow> c' = c)"
proof -
  have root: "root_node_key c = placeholder J" using h by (simp add: holds_def)
  have get: "cache_get_node J c (placeholder J) = Inr Null" by (simp add: cache_get_node_def)
  show ?thesis
  proof (cases b)
    case None
    then have "S' = {}" using S' by (simp add: leaf_update_def)
    moreover have "put J key b c = Inr (c\<lparr>root_node_key := placeholder J\<rparr>)"
      unfolding put_def Let_def root by (subst insert_at.simps) (simp add: get None)
    moreover have "c\<lparr>root_node_key := placeholder J\<rparr> = c" using root by simp
    ultimately show ?thesis using h None by simp
  next
    case (Some v)
    let ?x = "leaf_new J key v"
    have S'x: "S' = {?x}" using S' Some by (simp add: leaf_update_def)
    have x: "hash_of J (nid 0 {?x}) \<noteq> placeholder J" using apartD(2) [OF ap] unfolding S'x by simp
    have dom: "dom (node_cache c) \<subseteq> {placeholder J}" using h by (simp add: holds_def)
    obtain c1 where c1: "delete_node (placeholder J) False c = Inr c1"
      "node_cache c1 = Map.empty" "frozen_cache c1 = frozen_cache c" "tc_reader c1 = tc_reader c"
      "finite (stale_node_index_cache c1)"
    proof (cases "node_cache c (placeholder J) = None")
      case True
      then have "node_cache c = Map.empty" using dom by (metis (no_types) domIff dom_eq_empty_conv subset_singletonD singletonI)
      then show ?thesis using that free True Some h by (simp add: delete_node_def placeholder_free_def holds_def)
    next
      case False
      have "(node_cache c)(placeholder J := None) = Map.empty" using dom by (auto simp: fun_eq_iff domIff subset_iff)
      then show ?thesis using that False h by (simp add: delete_node_def holds_def)
    qed
    have "node_cache c1 (hash_of J (nid 0 {?x})) = None" using c1(2) by simp
    from create_leaf_node_eq [OF this] obtain c2 where
      c2: "create_leaf_node J key v c1 = Inr ((hash_at J 0 {?x}, cnode J 0 {?x}), c2)" "changed J {} {nid 0 {?x}} c1 c2"
      by blast
    have "put J key b c = Inr (c2\<lparr>root_node_key := smt J 256 S'\<rparr>)"
      unfolding put_def Let_def root using c1(1) c2(1) by (subst insert_at.simps) (simp add: get Some S'x)
    moreover have "holds J S' (c2\<lparr>root_node_key := smt J 256 S'\<rparr>)"
      using c1(2,5) c2(2) x x [symmetric] unfolding holds_def S'x changed_def
      by (auto simp: cache_get_node_def domIff)
    moreover have "frozen_cache c2 = frozen_cache c" "tc_reader c2 = tc_reader c"
      using c2(2) c1(3,4) unfolding changed_def by simp_all
    ultimately show ?thesis using Some by auto
  qed
qed

lemma placeholder_changed:
  assumes "changed J R N c c'" "apart J T" "R \<union> N \<subseteq> T"
  shows "placeholder_free J (c'\<lparr>root_node_key := k\<rparr>) = placeholder_free J c"
proof -
  have no: "placeholder J \<notin> hash_of J ` (R \<union> N)" using assms(2,3) unfolding apart_def by blast
  then have "node_cache c' (placeholder J) = node_cache c (placeholder J)" using assms(1) unfolding changed_def by simp
  moreover have "placeholder J \<in> stale_node_index_cache c' \<longleftrightarrow> placeholder J \<in> stale_node_index_cache c"
  proof -
    have "placeholder J \<notin> hash_of J ` {x \<in> R. node_cache c (hash_of J x) = None}" using no by blast
    moreover have "stale_node_index_cache c' = stale_node_index_cache c \<union>
        hash_of J ` {x \<in> R. node_cache c (hash_of J x) = None}" using assms(1) unfolding changed_def by blast
    ultimately show ?thesis by blast
  qed
  ultimately show ?thesis by (simp add: placeholder_free_def)
qed

lemma put_holds:
  fixes J :: "('k, 'h) jelly"
  assumes C: "crypto_ok (jcrypto J)" and S: "leaves_ok J 0 S" and S': "S' = leaf_update J key b S"
    and ap: "apart J T" "live J 0 S \<subseteq> T" "live J 0 S' \<subseteq> T"
    and h: "holds J S c" and free: "S = {} \<Longrightarrow> b \<noteq> None \<Longrightarrow> placeholder_free J c"
  shows "\<exists>c'. put J key b c = Inr c' \<and> holds J S' c' \<and> frozen_cache c' = frozen_cache c \<and> tc_reader c' = tc_reader c \<and>
    (S \<noteq> {} \<or> b = None \<longrightarrow> placeholder_free J c' = placeholder_free J c)"
proof (cases "S = {}")
  case True
  have "holds J {} c" "b \<noteq> None \<Longrightarrow> placeholder_free J c" using h free True by simp_all
  from put_empty [OF C S' [unfolded True] apart_mono [OF ap(1,3)] this] show ?thesis using True by auto
next
  case False
  have ap': "apart J (live J 0 S \<union> live J 0 S')" by (rule apart_mono [OF ap(1)]) (use ap in blast)
  obtain c1 where c1: "put J key b c = Inr (c1\<lparr>root_node_key := smt J 256 S'\<rparr>)"
    "changed J (live J 0 S - live J 0 S') (live J 0 S' - live J 0 S) c c1"
    by (rule put_nonempty [OF C S False S' ap' h])
  have "placeholder_free J (c1\<lparr>root_node_key := smt J 256 S'\<rparr>) = placeholder_free J c"
    by (rule placeholder_changed [OF c1(2) ap']) blast
  then show ?thesis using holds_changed [OF ap' h c1(2)] c1 unfolding changed_def by auto
qed

section \<open>Batches\<close>

lemma put_all_holds:
  fixes J :: "('k, 'h) jelly"
  assumes C: "crypto_ok (jcrypto J)" and ap: "apart J T"
    and "leaves_ok J 0 S" "\<And>S'. S' \<in> set (trace J kvs S) \<Longrightarrow> live J 0 S' \<subseteq> T"
      "refills J kvs S \<le> (if placeholder_free J c then 1 else 0)" "holds J S c"
  shows "\<exists>c'. put_all J kvs c = Inr c' \<and> holds J (apply_updates J kvs S) c' \<and>
    frozen_cache c' = frozen_cache c \<and> tc_reader c' = tc_reader c"
  using assms(3-)
proof (induction kvs arbitrary: S c)
  case (Cons kv kvs)
  obtain key b where kv: "kv = (key, b)" by (cases kv)
  let ?S = "leaf_update J key b S"
  have first: "?S \<in> set (trace J kvs ?S)" by (cases kvs) auto
  have T: "live J 0 S \<subseteq> T" "live J 0 ?S \<subseteq> T" "\<And>S'. S' \<in> set (trace J kvs ?S) \<Longrightarrow> live J 0 S' \<subseteq> T"
    using Cons.prems(2) first by (auto simp: kv)
  have free: "placeholder_free J c" if "S = {}" "b \<noteq> None"
    using Cons.prems(3) that by (auto simp: kv split: if_splits)
  obtain c1 where c1: "put J key b c = Inr c1" "holds J ?S c1" "frozen_cache c1 = frozen_cache c" "tc_reader c1 = tc_reader c"
    "S \<noteq> {} \<or> b = None \<longrightarrow> placeholder_free J c1 = placeholder_free J c"
    using put_holds [OF C Cons.prems(1) refl ap T(1,2) Cons.prems(4) free] by blast
  have "refills J kvs ?S \<le> (if placeholder_free J c1 then 1 else 0)"
    using Cons.prems(3) c1(5) by (auto simp: kv split: if_splits)
  from Cons.IH [OF leaves_ok_update_0 [OF C Cons.prems(1)] T(3) this c1(2)]
  show ?case using c1 by (simp add: kv)
qed simp

lemma apply_updates_ok:
  "crypto_ok (jcrypto J) \<Longrightarrow> leaves_ok J 0 S \<Longrightarrow> leaves_ok J 0 (apply_updates J kvs S)"
  by (induction J kvs S rule: apply_updates.induct) (auto intro: leaves_ok_update_0)

lemma trace_ok: "crypto_ok (jcrypto J) \<Longrightarrow> leaves_ok J 0 S \<Longrightarrow> S' \<in> set (trace J kvs S) \<Longrightarrow> leaves_ok J 0 S'"
  by (induction J kvs S rule: trace.induct) (auto intro: leaves_ok_update_0)

lemma traces_ok: "crypto_ok (jcrypto J) \<Longrightarrow> leaves_ok J 0 S \<Longrightarrow> S' \<in> set (traces J kvss S) \<Longrightarrow> leaves_ok J 0 S'"
  by (induction J kvss S rule: traces.induct) (auto intro: trace_ok apply_updates_ok)

lemma apply_updates_trace: "apply_updates J kvs S \<in> set (trace J kvs S)"
  by (induction J kvs S rule: trace.induct) auto

text \<open>Freezing keeps what the cache finds.\<close>

lemma freeze_holds:
  assumes C: "crypto_ok (jcrypto J)" and S: "leaves_ok J 0 S" and h: "holds J S c"
  shows "\<exists>c'. freeze J c = Inr c' \<and> holds J S c' \<and> placeholder_free J c' \<and> tc_reader c' = tc_reader c \<and>
    fz_root_hashes (frozen_cache c') = fz_root_hashes (frozen_cache c) @ [smt J 256 S] \<and>
    fz_node_cache (frozen_cache c') = fz_node_cache (frozen_cache c) ++ node_cache c \<and>
    fz_stale_node_index_cache (frozen_cache c') = fz_stale_node_index_cache (frozen_cache c) \<union>
      (\<lambda>k. \<lparr>stale_since_version = smt J 256 S, stale_node_key = k\<rparr>) ` stale_node_index_cache c \<and>
    node_cache c' = Map.empty \<and> stale_node_index_cache c' = {}"
proof -
  have root: "cache_get_node J c (root_node_key c) = Inr (cnode J 0 S)"
  proof (cases "S = {}")
    case True
    then show ?thesis using h by (simp add: holds_def cache_get_node_def cnode_def)
  next
    case False
    have "nid 0 S \<in> live J 0 S" by (rule nid_live_ok [OF C S False])
    then have "cache_get_node J c (hash_of J (nid 0 S)) = Inr (node_of J (nid 0 S))" using h unfolding holds_def by blast
    then show ?thesis using h by (simp add: holds_def)
  qed
  have nh: "node_hash J (cnode J 0 S) = Inr (smt J 256 S)" using node_hash_cnode [OF C S] by simp
  obtain c' where c': "freeze J c = Inr c'" "root_node_key c' = root_node_key c" "node_cache c' = Map.empty"
    "stale_node_index_cache c' = {}" "tc_reader c' = tc_reader c"
    "fz_root_hashes (frozen_cache c') = fz_root_hashes (frozen_cache c) @ [smt J 256 S]"
    "fz_node_cache (frozen_cache c') = fz_node_cache (frozen_cache c) ++ node_cache c"
    "fz_stale_node_index_cache (frozen_cache c') = fz_stale_node_index_cache (frozen_cache c) \<union>
      (\<lambda>k. \<lparr>stale_since_version = smt J 256 S, stale_node_key = k\<rparr>) ` stale_node_index_cache c"
    using root nh by (simp add: freeze_def Let_def)
  have "cache_get_node J c' k = cache_get_node J c k" for k
    using c'(3,5,7) by (simp add: cache_get_node_def map_add_def split: option.splits)
  then have "holds J S c'" using h c'(2,3,4) unfolding holds_def by simp
  moreover have "placeholder_free J c'" using c'(4) by (simp add: placeholder_free_def)
  ultimately show ?thesis using c' by blast
qed

definition kept :: "('k, 'h) jelly \<Rightarrow> ('k, 'h) node_id set \<Rightarrow> ('k, 'h) TreeCache \<Rightarrow> bool" where
  "kept J K c \<longleftrightarrow>
     (\<forall>x \<in> K. overlay (fz_node_cache (frozen_cache c)) (tc_reader c) (hash_of J x) = Inr (Some (node_of J x)))"

lemma get_node_eq_Inr: "get_node R k = Inr nd \<longleftrightarrow> R k = Inr (Some nd)"
  by (auto simp: get_node_def)

lemma freeze_kept:
  assumes ap: "apart J (K \<union> live J 0 S)" and h: "holds J S c" and k: "kept J K c"
    and c': "fz_node_cache (frozen_cache c') = fz_node_cache (frozen_cache c) ++ node_cache c" "tc_reader c' = tc_reader c"
  shows "kept J (K \<union> live J 0 S) c'"
proof -
  have S: "overlay (fz_node_cache (frozen_cache c')) (tc_reader c') (hash_of J x) = Inr (Some (node_of J x))"
    if x: "x \<in> live J 0 S" for x
  proof -
    have "cache_get_node J c (hash_of J x) = Inr (node_of J x)" "hash_of J x \<noteq> placeholder J"
      using h x apartD(2) [OF ap, of x] unfolding holds_def by blast+
    then show ?thesis
      using c' by (auto simp: overlay_def cache_get_node_def get_node_eq_Inr map_add_def split: option.splits)
  qed
  have K: "overlay (fz_node_cache (frozen_cache c')) (tc_reader c') (hash_of J x) = Inr (Some (node_of J x))"
    if x: "x \<in> K" "x \<notin> live J 0 S" for x
  proof -
    have "hash_of J x \<notin> hash_of J ` live J 0 S" "hash_of J x \<noteq> placeholder J"
      using apart_notin [OF ap, of x "live J 0 S"] apartD(2) [OF ap, of x] x by blast+
    then have "node_cache c (hash_of J x) = None" using h unfolding holds_def by blast
    then have "overlay (fz_node_cache (frozen_cache c')) (tc_reader c') (hash_of J x) =
        overlay (fz_node_cache (frozen_cache c)) (tc_reader c) (hash_of J x)"
      unfolding overlay_def c' by (simp add: map_add_def)
    then show ?thesis using k x(1) unfolding kept_def by simp
  qed
  show ?thesis unfolding kept_def
  proof
    fix x assume "x \<in> K \<union> live J 0 S"
    then show "overlay (fz_node_cache (frozen_cache c')) (tc_reader c') (hash_of J x) = Inr (Some (node_of J x))"
      using S [of x] K [of x] by (cases "x \<in> live J 0 S") simp_all
  qed
qed

text \<open>Every node frozen is stored under its hash, and is one that \<^verbatim>\<open>InternalNode::new\<close> accepts.\<close>

definition node_typed :: "('k, 'h) jelly \<Rightarrow> 'h \<Rightarrow> ('k, 'h) Node \<Rightarrow> bool" where
  "node_typed J k nd \<longleftrightarrow> node_hash J nd = Inr k \<and> (\<forall>c. nd = Internal c \<longrightarrow> internal_ok c)"

definition frozen_typed :: "('k, 'h) jelly \<Rightarrow> ('k, 'h) TreeCache \<Rightarrow> bool" where
  "frozen_typed J c \<longleftrightarrow> (\<forall>k nd. fz_node_cache (frozen_cache c) k = Some nd \<longrightarrow> node_typed J k nd)"

lemma live_typed:
  assumes C: "crypto_ok (jcrypto J)" and S: "leaves_ok J 0 S" and x: "x \<in> live J 0 S"
  shows "node_typed J (hash_of J x) (node_of J x)"
proof -
  have "internal_ok c" if c: "node_of J x = Internal c" for c
  proof -
    obtain e B where eB: "x = (e, B)" by (cases x)
    have B: "B \<noteq> {}" "\<not> is_singleton B" "c = cchildren J e B"
      using c by (auto simp: eB node_of_def cnode_def split: if_splits)
    then have "e < 64" using live_dest [OF C S x [unfolded eB]] by blast
    then show ?thesis using internal_new_cchildren(1) [OF C _ B(1,2)] by (simp add: internal_ok_def B(3))
  qed
  then show ?thesis using ids_node_hash [OF C live_ids_ok [OF C S] x] by (simp add: node_typed_def)
qed

lemma freeze_typed:
  assumes C: "crypto_ok (jcrypto J)" and S: "leaves_ok J 0 S" and ap: "apart J (live J 0 S)"
    and h: "holds J S c" and t: "frozen_typed J c"
    and c': "fz_node_cache (frozen_cache c') = fz_node_cache (frozen_cache c) ++ node_cache c"
  shows "frozen_typed J c'"
  unfolding frozen_typed_def
proof (intro allI impI)
  fix k nd assume f: "fz_node_cache (frozen_cache c') k = Some nd"
  show "node_typed J k nd"
  proof (cases "node_cache c k")
    case None
    then show ?thesis using f t unfolding c' frozen_typed_def by (simp add: map_add_def)
  next
    case (Some nd')
    then have nd: "node_cache c k = Some nd" using f unfolding c' by (simp add: map_add_def)
    show ?thesis
    proof (cases "k = placeholder J")
      case True
      then have "nd = Null" using nd h unfolding holds_def by simp
      then show ?thesis using True by (simp add: node_typed_def)
    next
      case False
      then obtain x where x: "x \<in> live J 0 S" "k = hash_of J x" using nd h unfolding holds_def by blast
      then have "cache_get_node J c k = Inr (node_of J x)" using h unfolding holds_def by blast
      then have "nd = node_of J x" using nd False by (simp add: cache_get_node_def)
      then show ?thesis using live_typed [OF C S x(1)] x(2) by simp
    qed
  qed
qed

lemma put_sets_kept:
  fixes J :: "('k, 'h) jelly"
  assumes C: "crypto_ok (jcrypto J)" and ap: "apart J T"
    and "leaves_ok J 0 S" "\<And>S'. S' \<in> set (traces J kvss S) \<Longrightarrow> live J 0 S' \<subseteq> T" "batches_ok J kvss S"
      "holds J S c" "placeholder_free J c" "kept J K c" "K \<subseteq> T" "frozen_typed J c"
  shows "\<exists>c'. put_sets J kvss c = Inr c' \<and> tc_reader c' = tc_reader c \<and>
    fz_root_hashes (frozen_cache c') = fz_root_hashes (frozen_cache c) @ map (smt J 256) (versions J kvss S) \<and>
    kept J (K \<union> (\<Union>S' \<in> set (versions J kvss S). live J 0 S')) c' \<and> frozen_typed J c'"
  using assms(3-)
proof (induction kvss arbitrary: S c K)
  case (Cons kvs kvss)
  let ?S = "apply_updates J kvs S"
  have b: "kvs \<noteq> []" "refills J kvs S \<le> (if placeholder_free J c then 1 else 0)" "batches_ok J kvss ?S"
    using Cons.prems(3,5) by auto
  have T: "live J 0 S' \<subseteq> T" if "S' \<in> set (trace J kvs S) \<union> set (traces J kvss ?S)" for S'
    using Cons.prems(2) that by auto
  have TS: "live J 0 ?S \<subseteq> T" using T apply_updates_trace by blast
  have "\<exists>c1. put_all J kvs c = Inr c1 \<and> holds J ?S c1 \<and> frozen_cache c1 = frozen_cache c \<and> tc_reader c1 = tc_reader c"
    by (rule put_all_holds [OF C ap Cons.prems(1) _ b(2) Cons.prems(4)]) (use T in blast)
  then obtain c1 where c1: "put_all J kvs c = Inr c1" "holds J ?S c1" "frozen_cache c1 = frozen_cache c"
    "tc_reader c1 = tc_reader c" by blast
  have okS: "leaves_ok J 0 ?S" by (rule apply_updates_ok [OF C Cons.prems(1)])
  obtain c2 where c2: "freeze J c1 = Inr c2" "holds J ?S c2" "placeholder_free J c2" "tc_reader c2 = tc_reader c1"
    "fz_root_hashes (frozen_cache c2) = fz_root_hashes (frozen_cache c1) @ [smt J 256 ?S]"
    "fz_node_cache (frozen_cache c2) = fz_node_cache (frozen_cache c1) ++ node_cache c1"
    using freeze_holds [OF C okS c1(2)] by blast
  have "kept J K c1" using Cons.prems(6) c1(3,4) unfolding kept_def by simp
  moreover have "apart J (K \<union> live J 0 ?S)" by (rule apart_mono [OF ap]) (use Cons.prems(7) TS in blast)
  ultimately have k2: "kept J (K \<union> live J 0 ?S) c2" using freeze_kept c1(2) c2(6,4) by blast
  have "frozen_typed J c1" using Cons.prems(8) c1(3) by (simp add: frozen_typed_def)
  then have t2: "frozen_typed J c2" using freeze_typed [OF C okS apart_mono [OF ap TS] c1(2)] c2(6) by blast
  have "\<exists>c'. put_sets J kvss c2 = Inr c' \<and> tc_reader c' = tc_reader c2 \<and>
      fz_root_hashes (frozen_cache c') = fz_root_hashes (frozen_cache c2) @ map (smt J 256) (versions J kvss ?S) \<and>
      kept J (K \<union> live J 0 ?S \<union> (\<Union>S' \<in> set (versions J kvss ?S). live J 0 S')) c' \<and> frozen_typed J c'"
    by (rule Cons.IH [OF okS _ b(3) c2(2,3) k2 _ t2]) (use T TS Cons.prems(7) in blast)+
  then obtain c' where c': "put_sets J kvss c2 = Inr c'" "tc_reader c' = tc_reader c2"
    "fz_root_hashes (frozen_cache c') = fz_root_hashes (frozen_cache c2) @ map (smt J 256) (versions J kvss ?S)"
    "kept J (K \<union> live J 0 ?S \<union> (\<Union>S' \<in> set (versions J kvss ?S). live J 0 S')) c'" "frozen_typed J c'" by blast
  have "put_sets J (kvs # kvss) c = Inr c'" using b(1) c1(1) c2(1) c'(1) by simp
  moreover have "K \<union> (\<Union>S' \<in> set (versions J (kvs # kvss) S). live J 0 S') =
      K \<union> live J 0 ?S \<union> (\<Union>S' \<in> set (versions J kvss ?S). live J 0 S')" by auto
  moreover have "fz_root_hashes (frozen_cache c') =
      fz_root_hashes (frozen_cache c) @ map (smt J 256) (versions J (kvs # kvss) S)" "tc_reader c' = tc_reader c"
    using c'(2,3) c2(4,5) c1(3,4) by simp_all
  ultimately show ?case using c'(4,5) by metis
qed simp

lemma tree_cache_new_holds:
  assumes "state_root = Some (smt J 256 S) \<and> stores J R S \<or> state_root = None \<and> S = {}" "apart J (live J 0 S)"
  shows "holds J S (tree_cache_new J R state_root)" "placeholder_free J (tree_cache_new J R state_root)"
    "kept J (live J 0 S) (tree_cache_new J R state_root)" "frozen_typed J (tree_cache_new J R state_root)"
proof -
  have "cache_get_node J (tree_cache_new J R (Some (smt J 256 S))) (hash_of J x) = Inr (node_of J x)"
    if "stores J R S" "x \<in> live J 0 S" for x
    using that apartD(2) [OF assms(2) that(2)]
    by (simp add: cache_get_node_def tree_cache_new_def frozen_default_def get_node_eq_Inr stores_def)
  then show "holds J S (tree_cache_new J R state_root)"
    using assms(1) by (auto simp: holds_def) (auto simp: tree_cache_new_def split: if_splits)
  show "placeholder_free J (tree_cache_new J R state_root)"
    by (cases state_root) (simp_all add: placeholder_free_def tree_cache_new_def)
  show "kept J (live J 0 S) (tree_cache_new J R state_root)"
    using assms(1) by (auto simp: kept_def tree_cache_new_def overlay_def frozen_default_def stores_def)
  show "frozen_typed J (tree_cache_new J R state_root)"
    by (simp add: frozen_typed_def tree_cache_new_def frozen_default_def split: option.splits)
qed

lemma puts_eq:
  fixes J :: "('k, 'h) jelly"
  assumes C: "crypto_ok (jcrypto J)" and S: "leaves_ok J 0 S"
    and root: "state_root = Some (smt J 256 S) \<and> stores J R S \<or> state_root = None \<and> S = {}"
    and ok: "batches_ok J kvss S" and nc: "no_collision J (set (traces J kvss S))"
  shows "\<exists>batch. puts J R state_root kvss = Inr (map (smt J 256) (versions J kvss S), batch) \<and>
    (\<forall>S' \<in> insert S (set (versions J kvss S)). stores J (overlay (batch_nodes batch) R) S') \<and>
    (\<forall>k nd. batch_nodes batch k = Some nd \<longrightarrow> node_typed J k nd)"
proof -
  let ?T = "\<Union>S' \<in> set (traces J kvss S). live J 0 S'" and ?c = "tree_cache_new J R state_root"
  have ap: "apart J ?T" by (rule no_collision_apart [OF C traces_ok [OF C S] nc])
  have "S \<in> set (trace J kvs S)" for kvs by (induction J kvs S rule: trace.induct) auto
  then have "S \<in> set (traces J kvss S)" by (cases kvss) auto
  then have TS: "live J 0 S \<subseteq> ?T" by blast
  note new = tree_cache_new_holds [OF root apart_mono [OF ap TS]]
  obtain c where c: "put_sets J kvss ?c = Inr c" "tc_reader c = tc_reader ?c"
    "fz_root_hashes (frozen_cache c) = fz_root_hashes (frozen_cache ?c) @ map (smt J 256) (versions J kvss S)"
    "kept J (live J 0 S \<union> (\<Union>S' \<in> set (versions J kvss S). live J 0 S')) c" "frozen_typed J c"
    using put_sets_kept [OF C ap S _ ok new(1-3) TS new(4)] by blast
  have r: "tc_reader ?c = R" "fz_root_hashes (frozen_cache ?c) = []"
    by (simp_all add: tree_cache_new_def frozen_default_def split: option.splits)
  have "stores J (overlay (fz_node_cache (frozen_cache c)) R) S'" if "S' \<in> insert S (set (versions J kvss S))" for S'
    using c(4) that c(2) r(1) unfolding kept_def stores_def by auto
  then show ?thesis using c(1,3,5) r(2) by (auto simp: puts_def tree_cache_into_def frozen_typed_def)
qed
section \<open>One batch\<close>

text \<open>With different keys, a batch fills an empty tree at most once.\<close>

lemma refills_0: "l \<in> S \<Longrightarrow> \<forall>(key, b) \<in> set kvs. \<not> same_key J key l \<Longrightarrow> refills J kvs S = 0"
  by (induction J kvs S rule: refills.induct) (auto simp: leaf_update_other)

lemma refills_distinct: "distinct (map (\<lambda>(key, b). key_hash J key) kvs) \<Longrightarrow> refills J kvs S \<le> 1"
proof (induction J kvs S rule: refills.induct)
  case (2 J key b kvs S)
  have ih: "refills J kvs (leaf_update J key b S) \<le> 1" using 2 by simp
  show ?case
  proof (cases "S = {} \<and> b \<noteq> None")
    case True
    then obtain v where v: "b = Some v" by blast
    have "refills J kvs (leaf_update J key b S) = 0"
    proof (rule refills_0)
      show "leaf_new J key v \<in> leaf_update J key b S" using True v by (simp add: leaf_update_def)
      show "\<forall>(k, b) \<in> set kvs. \<not> same_key J k (leaf_new J key v)"
        using "2.prems" by (force simp: same_key_def leaf_new_def)
    qed
    then show ?thesis using True by simp
  next
    case False
    show ?thesis unfolding refills.simps if_not_P [OF False] using ih by simp
  qed
qed simp

text \<open>A leaf cannot be put into a tree emptied twice.\<close>

lemma put_empty_panics:
  assumes "root_node_key c = placeholder J" "\<not> placeholder_free J c"
  shows "put J key (Some v) c = Inl Panic"
proof -
  have "cache_get_node J c (placeholder J) = Inr Null" by (simp add: cache_get_node_def)
  then show ?thesis
    using assms unfolding put_def Let_def
    by (subst insert_at.simps) (simp add: delete_node_def placeholder_free_def)
qed

text \<open>
  A node of the new tree is in the batch or was readable before; in the second case the batch
  does not call it stale.
\<close>

lemma updates_eq:
  fixes J :: "('k, 'h) jelly"
  assumes C: "crypto_ok (jcrypto J)" and S: "leaves_ok J 0 S"
    and root: "state_root = Some (smt J 256 S) \<and> stores J R S \<or> state_root = None \<and> S = {}"
    and ok: "kvs \<noteq> []" "refills J kvs S \<le> 1" and nc: "no_collision J (set (trace J kvs S))"
    and S': "S' = apply_updates J kvs S"
  shows "\<exists>batch. updates J R state_root kvs = Inr (smt J 256 S', batch) \<and>
    stores J (overlay (batch_nodes batch) R) S' \<and>
    (\<forall>x \<in> live J 0 S'. batch_nodes batch (hash_of J x) = None \<longrightarrow> hash_of J x \<notin> stale_node_key ` batch_stale batch) \<and>
    (\<forall>k nd. batch_nodes batch k = Some nd \<longrightarrow> node_typed J k nd) \<and>
    finite (dom (batch_nodes batch)) \<and> finite (batch_stale batch)"
proof -
  let ?T = "\<Union>S' \<in> set (trace J kvs S). live J 0 S'" and ?c = "tree_cache_new J R state_root"
  have ap: "apart J ?T" by (rule no_collision_apart [OF C trace_ok [OF C S] nc])
  have "S \<in> set (trace J kvs S)" by (induction J kvs S rule: trace.induct) auto
  then have TS: "live J 0 S \<subseteq> ?T" "live J 0 S' \<subseteq> ?T" using apply_updates_trace [of J kvs S] unfolding S' by blast+
  note new = tree_cache_new_holds [OF root apart_mono [OF ap TS(1)]]
  have "refills J kvs S \<le> (if placeholder_free J ?c then 1 else 0)" using ok(2) new(2) by simp
  then obtain c1 where c1: "put_all J kvs ?c = Inr c1" "holds J S' c1" "frozen_cache c1 = frozen_cache ?c" "tc_reader c1 = tc_reader ?c"
    using put_all_holds [OF C ap S _ _ new(1), of kvs] unfolding S' by blast
  have okS': "leaves_ok J 0 S'" unfolding S' by (rule apply_updates_ok [OF C S])
  obtain c2 where c2: "freeze J c1 = Inr c2" "tc_reader c2 = tc_reader c1"
    "fz_root_hashes (frozen_cache c2) = fz_root_hashes (frozen_cache c1) @ [smt J 256 S']"
    "fz_node_cache (frozen_cache c2) = fz_node_cache (frozen_cache c1) ++ node_cache c1"
    "fz_stale_node_index_cache (frozen_cache c2) = fz_stale_node_index_cache (frozen_cache c1) \<union>
      (\<lambda>k. \<lparr>stale_since_version = smt J 256 S', stale_node_key = k\<rparr>) ` stale_node_index_cache c1"
    using freeze_holds [OF C okS' c1(2)] by blast
  have f: "frozen_cache ?c = frozen_default" "tc_reader ?c = R"
    by (simp_all add: tree_cache_new_def split: option.splits)
  let ?b = "snd (tree_cache_into c2)"
  have nodes: "batch_nodes ?b = node_cache c1" using c2(4) c1(3) f(1) by (simp add: tree_cache_into_def frozen_default_def)
  have stale: "stale_node_key ` batch_stale ?b = stale_node_index_cache c1"
    using c2(5) c1(3) f(1) by (simp add: tree_cache_into_def frozen_default_def image_image)
  have run: "updates J R state_root kvs = Inr (smt J 256 S', ?b)"
    using c1(1,3) c2(1,3) f(1) ok(1) by (simp add: updates_def puts_def tree_cache_into_def frozen_default_def)
  have "kept J {} c1" by (simp add: kept_def)
  then have "kept J ({} \<union> live J 0 S') c2"
    by (intro freeze_kept [OF _ c1(2) _ c2(4,2)]) (use apart_mono [OF ap TS(2)] in simp_all)
  then have "stores J (overlay (batch_nodes ?b) R) S'"
    using c2(2) c1(4) f(2) by (simp add: kept_def stores_def tree_cache_into_def)
  moreover have "hash_of J x \<notin> stale_node_key ` batch_stale ?b"
    if "x \<in> live J 0 S'" "batch_nodes ?b (hash_of J x) = None" for x
    using c1(2) that unfolding holds_def nodes stale by blast
  moreover have "frozen_typed J c1" using new(4) c1(3) by (simp add: frozen_typed_def)
  then have "frozen_typed J c2" using freeze_typed [OF C okS' apart_mono [OF ap TS(2)] c1(2)] c2(4) by blast
  then have "\<forall>k nd. batch_nodes ?b k = Some nd \<longrightarrow> node_typed J k nd" by (simp add: frozen_typed_def tree_cache_into_def)
  moreover have "finite (dom (batch_nodes ?b))"
    unfolding nodes by (rule finite_subset [of _ "insert (placeholder J) (hash_of J ` live J 0 S')"])
      (use c1(2) finite_live [of J 0 S'] in \<open>simp_all add: holds_def\<close>)
  moreover have "finite (batch_stale ?b)"
    using c2(5) c1(2,3) f(1) by (simp add: tree_cache_into_def frozen_default_def holds_def)
  ultimately show ?thesis using run by blast
qed

text \<open>The batch of one update is the difference of the two trees.\<close>

lemma single_update_eq:
  fixes J :: "('k, 'h) jelly"
  assumes C: "crypto_ok (jcrypto J)" and S: "leaves_ok J 0 S" "S \<noteq> {}" and R: "stores J R S"
    and S': "S' = leaf_update J key b S" and nc: "no_collision J {S, S'}"
  shows "\<exists>batch. updates J R (Some (smt J 256 S)) [(key, b)] = Inr (smt J 256 S', batch) \<and>
    dom (batch_nodes batch) = hash_of J ` (live J 0 S' - live J 0 S) \<and>
    (\<forall>x \<in> live J 0 S' - live J 0 S. batch_nodes batch (hash_of J x) = Some (node_of J x)) \<and>
    batch_stale batch = (\<lambda>x. \<lparr>stale_since_version = smt J 256 S', stale_node_key = hash_of J x\<rparr>) `
      (live J 0 S - live J 0 S') \<and>
    stale_node_key ` batch_stale batch \<inter> hash_of J ` live J 0 S' = {}"
proof -
  let ?c = "tree_cache_new J R (Some (smt J 256 S))" and ?R = "live J 0 S - live J 0 S'" and ?N = "live J 0 S' - live J 0 S"
  have okS': "leaves_ok J 0 S'" unfolding S' by (rule leaves_ok_update_0 [OF C S(1)])
  have "apart J (\<Union>S \<in> {S, S'}. live J 0 S)" by (rule no_collision_apart [OF C _ nc]) (use S okS' in auto)
  then have ap: "apart J (live J 0 S \<union> live J 0 S')" by simp
  have "apart J (live J 0 S)" by (rule apart_mono [OF ap]) blast
  then have h: "holds J S ?c" using tree_cache_new_holds(1) [of "Some (smt J 256 S)"] R by blast
  have c0: "node_cache ?c = Map.empty" "stale_node_index_cache ?c = {}" "frozen_cache ?c = frozen_default"
    by (simp_all add: tree_cache_new_def)
  obtain c1 where c1: "put J key b ?c = Inr (c1\<lparr>root_node_key := smt J 256 S'\<rparr>)" "changed J ?R ?N ?c c1"
    by (rule put_nonempty [OF C S S' ap h])
  let ?c1 = "c1\<lparr>root_node_key := smt J 256 S'\<rparr>"
  have h1: "holds J S' ?c1" by (rule holds_changed [OF ap h c1(2)])
  obtain c2 where c2: "freeze J ?c1 = Inr c2"
    "fz_root_hashes (frozen_cache c2) = fz_root_hashes (frozen_cache ?c1) @ [smt J 256 S']"
    "fz_node_cache (frozen_cache c2) = fz_node_cache (frozen_cache ?c1) ++ node_cache ?c1"
    "fz_stale_node_index_cache (frozen_cache c2) = fz_stale_node_index_cache (frozen_cache ?c1) \<union>
      (\<lambda>k. \<lparr>stale_since_version = smt J 256 S', stale_node_key = k\<rparr>) ` stale_node_index_cache ?c1"
    using freeze_holds [OF C okS' h1] by blast
  have f1: "frozen_cache ?c1 = frozen_default" using c1(2) c0(3) by (simp add: changed_def)
  have st: "stale_node_index_cache ?c1 = hash_of J ` ?R" using c1(2) c0(1,2) by (simp add: changed_def set_diff_eq)
  have N: "node_cache c1 (hash_of J x) = Some (node_of J x)" if "x \<in> ?N" for x
    using c1(2) that unfolding changed_def by blast
  have no: "node_cache c1 k = None" if k: "k \<notin> hash_of J ` ?N" for k
  proof (cases "k \<in> hash_of J ` ?R")
    case True
    then obtain x where "x \<in> ?R" "k = hash_of J x" by blast
    then show ?thesis using c1(2) unfolding changed_def by simp
  next
    case False
    then have "k \<notin> hash_of J ` (?R \<union> ?N)" using k by blast
    then show ?thesis using c1(2) c0(1) unfolding changed_def by simp
  qed
  have dom: "dom (node_cache c1) = hash_of J ` ?N"
  proof
    show "dom (node_cache c1) \<subseteq> hash_of J ` ?N"
    proof
      fix k assume k: "k \<in> dom (node_cache c1)"
      show "k \<in> hash_of J ` ?N"
      proof (rule ccontr)
        assume "k \<notin> hash_of J ` ?N"
        from no [OF this] show False using k by (simp add: domIff)
      qed
    qed
    show "hash_of J ` ?N \<subseteq> dom (node_cache c1)"
    proof
      fix k assume "k \<in> hash_of J ` ?N"
      then obtain x where "x \<in> ?N" "k = hash_of J x" by blast
      then show "k \<in> dom (node_cache c1)" using N [of x] unfolding domIff by simp
    qed
  qed
  let ?batch = "snd (tree_cache_into c2)"
  have run: "updates J R (Some (smt J 256 S)) [(key, b)] = Inr (smt J 256 S', ?batch)"
    using c1(1) c2(1,2) f1 by (simp add: updates_def puts_def tree_cache_into_def frozen_default_def)
  have nodes: "batch_nodes ?batch = node_cache c1"
    using c2(3) f1 by (simp add: tree_cache_into_def frozen_default_def)
  have stale: "batch_stale ?batch = (\<lambda>x. \<lparr>stale_since_version = smt J 256 S', stale_node_key = hash_of J x\<rparr>) ` ?R"
    using c2(4) f1 st by (simp add: tree_cache_into_def frozen_default_def image_image)
  have "hash_of J x \<notin> hash_of J ` live J 0 S'" if "x \<in> ?R" for x
    by (rule apart_notin [OF ap]) (use that in auto)
  then have "stale_node_key ` batch_stale ?batch \<inter> hash_of J ` live J 0 S' = {}"
    unfolding stale by (auto simp: image_image)
  then show ?thesis using run dom N stale unfolding nodes [symmetric] by blast
qed

end
