(* ===== verification/Jellyfish_Get.thy ===== *)
theory Jellyfish_Get
  imports Sparse_Path Jellyfish_Put
begin

text \<open>
  Looking a key up: \<^verbatim>\<open>get_child_with_siblings\<close> goes down up to four levels of the binary sparse
  Merkle tree, \<^verbatim>\<open>get_with_proof\<close> goes down to the empty tree or the single leaf on the path of
  the key, and the proof it returns verifies against the root hash.
\<close>

section \<open>Within a node\<close>

lemma bdown_4:
  assumes "crypto_ok (jcrypto J)" "d < 64" "p ! d < 16"
  shows "bdown J p (4 * d) 4 A = sub J d (p ! d) A"
proof -
  have "bdown J p (4 * d) 4 A = rng J d (unat (p ! d)) 1 A" using bdown_rng [OF assms, of 0 A] by simp
  also have "\<dots> = {l \<in> A. unat (lpath J l ! d) = unat (p ! d)}" unfolding rng_def by (intro Collect_cong) linarith
  finally show ?thesis unfolding sub_def by (simp add: word_unat_eq_iff)
qed

text \<open>The loop of \<^verbatim>\<open>get_child_with_siblings\<close>: one round, and from the height \<open>k\<close> down.\<close>

lemma child_with_siblings_step:
  fixes J :: "('k, 'h) jelly"
  assumes C: "crypto_ok (jcrypto J)" and d: "d < 64" and n: "p ! d < 16"
    and e: "\<And>i. bit e i \<longleftrightarrow> i < 16 \<and> sub J d (nib i) A \<noteq> {}"
    and l: "\<And>i. bit l i \<longleftrightarrow> i < 16 \<and> is_singleton (sub J d (nib i) A)"
    and k: "k < 4" and R: "R = bdown J p (4 * d) (4 - k) A"
    and sib: "sib = bsibs J p (4 * d + (3 - k)) 1 (bdown J p (4 * d) (3 - k) A)"
  shows "child_with_siblings_loop J (cchildren J d A) (p ! d) (e, l) (k # hs) ss =
    (if R = {} then Inr (None, ss @ sib)
     else if is_singleton R \<or> k = 0 then Inr (Some (hash_at J (Suc d) R), ss @ sib)
     else child_with_siblings_loop J (cchildren J d A) (p ! d) (e, l) hs (ss @ sib))"
proof -
  let ?n = "unat (p ! d)"
  have n16: "?n < 16" using unat_less_16 [OF n] .
  have R': "R = rng J d (?n div 2 ^ k * 2 ^ k) (2 ^ k) A" unfolding R using bdown_rng [OF C d n] k by simp
  have w: "(shl 1 k :: u8) = word_of_nat (2 ^ k)" using k by (simp add: shl_one)
  have w1: "(word_of_nat (2 ^ k) :: u8) = 1 \<longleftrightarrow> k = 0"
    using k by (cases "k = 0 \<or> k = 1 \<or> k = 2 \<or> k = 3") auto
  obtain q where q: "sibling_start ?n k = q * 2 ^ k" "sibling_start ?n k + 2 ^ k \<le> 16"
    using sibling_start_bound [OF n16 k] by blast
  have idx: "255 - (4 * d + (3 - k)) = 252 - 4 * d + k" using d k by simp
  define h where "h = smt J (252 - 4 * d + k) (rng J d (sibling_start ?n k) (2 ^ k) A)"
  have mh: "merkle_hash J (cchildren J d A) (word_of_nat (sibling_start ?n k)) (word_of_nat (2 ^ k)) (e, l) = Inr h"
    unfolding h_def by (rule merkle_hash_eq [OF C d _ q e l]) (use k in simp)
  have sib1: "sib = [h]" unfolding sib h_def One_nat_def bsibs.simps idx sibling_rng [OF C d n k] ..
  obtain e' l' where r: "range_bitmaps (word_of_nat (?n div 2 ^ k * 2 ^ k)) (word_of_nat (2 ^ k)) (e, l) = Inr (e', l')"
    and e': "\<And>i. bit e' i \<longleftrightarrow> bit e i \<and> ?n div 2 ^ k * 2 ^ k \<le> i \<and> i < ?n div 2 ^ k * 2 ^ k + 2 ^ k"
    and l': "\<And>i. bit l' i \<longleftrightarrow> bit l i \<and> ?n div 2 ^ k * 2 ^ k \<le> i \<and> i < ?n div 2 ^ k * 2 ^ k + 2 ^ k"
    using range_bitmaps_eq [of k "?n div 2 ^ k * 2 ^ k" "?n div 2 ^ k" e l] block_bound [OF n16 k] k by auto
  note B = rng_bitmaps [OF C d e l e' l', folded R']
  have c: "count_ones e' = 1 \<and> (count_ones l' = 1 \<or> k = 0) \<longleftrightarrow> is_singleton R \<or> k = 0" if "R \<noteq> {}"
  proof -
    have "count_ones e' = 1 \<and> count_ones l' = 1 \<longleftrightarrow> is_singleton R" using B(4,5) by (metis count_ones_0 zero_neq_one)
    moreover have "k = 0 \<Longrightarrow> count_ones e' = 1" using B(6) that by simp
    ultimately show ?thesis by blast
  qed
  have o: "only_child (cchildren J d A) e' = Inr (hash_at J (Suc d) R)" if "count_ones e' = 1"
    using that B(3) unfolding count_ones_1 by blast
  show ?thesis
  proof (cases "R \<noteq> {} \<and> (is_singleton R \<or> k = 0)")
    case True
    then have "count_ones e' = 1" "count_ones l' = 1 \<or> k = 0" using c by blast+
    then show ?thesis using True B(1) o mh r w1 half_starts [OF n k] by (simp add: Let_def w sib1)
  next
    case False
    then have "R \<noteq> {} \<Longrightarrow> \<not> (count_ones e' = 1 \<and> (count_ones l' = 1 \<or> k = 0))" using c by blast
    then show ?thesis using False B(1) mh r w1 half_starts [OF n k] by (auto simp: Let_def w sib1)
  qed
qed

lemma child_with_siblings_loop_eq:
  fixes J :: "('k, 'h) jelly"
  assumes C: "crypto_ok (jcrypto J)" and d: "d < 64" and n: "p ! d < 16"
    and e: "\<And>i. bit e i \<longleftrightarrow> i < 16 \<and> sub J d (nib i) A \<noteq> {}"
    and l: "\<And>i. bit l i \<longleftrightarrow> i < 16 \<and> is_singleton (sub J d (nib i) A)"
    and "k < 4" "\<not> small (bdown J p (4 * d) (3 - k) A)"
  shows "\<exists>m. 3 - k < m \<and> m \<le> 4 \<and>
    (\<forall>j. 3 - k \<le> j \<longrightarrow> j < m \<longrightarrow> \<not> small (bdown J p (4 * d) j A)) \<and>
    (small (bdown J p (4 * d) m A) \<or> m = 4) \<and>
    child_with_siblings_loop J (cchildren J d A) (p ! d) (e, l) (rev [0..<Suc k]) ss =
      Inr (if bdown J p (4 * d) m A = {} then None else Some (hash_at J (Suc d) (bdown J p (4 * d) m A)),
        ss @ bsibs J p (4 * d + (3 - k)) (m - (3 - k)) (bdown J p (4 * d) (3 - k) A))"
  using assms(6-)
proof (induction k arbitrary: ss)
  case (0 ss)
  have "\<not> small (bdown J p (4 * d) j A)" if "3 \<le> j" "j < 4" for j
    using 0 that by (metis One_nat_def diff_zero le_antisym less_Suc_eq_le numeral_3_eq_3 numeral_eq_Suc pred_numeral_simps(2) semiring_norm(26,27))
  then show ?case
    using child_with_siblings_step [OF C d n e l 0(1) refl refl, of "[]" ss] by (intro exI [of _ 4]) auto
next
  case (Suc k ss)
  let ?R = "bdown J p (4 * d) (4 - Suc k) A" and ?sib = "bsibs J p (4 * d + (3 - Suc k)) 1 (bdown J p (4 * d) (3 - Suc k) A)"
  have k: "4 - Suc k = 3 - k" "3 - k = 3 - Suc k + 1" "k < 4" using Suc.prems(1) by simp_all
  note step = child_with_siblings_step [OF C d n e l Suc.prems(1) refl refl, of "rev [0..<Suc k]" ss]
  show ?case
  proof (cases "small ?R")
    case True
    have "\<not> small (bdown J p (4 * d) j A)" if "3 - Suc k \<le> j" "j < 4 - Suc k" for j
    proof -
      have "j = 3 - Suc k" using that k by simp
      then show ?thesis using Suc.prems(2) by simp
    qed
    then show ?thesis
      using step True k by (intro exI [of _ "4 - Suc k"]) (auto simp: small_def)
  next
    case False
    from Suc.IH [OF k(3), of "ss @ ?sib"] False obtain m where m: "3 - k < m" "m \<le> 4"
      "\<And>j. 3 - k \<le> j \<Longrightarrow> j < m \<Longrightarrow> \<not> small (bdown J p (4 * d) j A)" "small (bdown J p (4 * d) m A) \<or> m = 4"
      "child_with_siblings_loop J (cchildren J d A) (p ! d) (e, l) (rev [0..<Suc k]) (ss @ ?sib) =
        Inr (if bdown J p (4 * d) m A = {} then None else Some (hash_at J (Suc d) (bdown J p (4 * d) m A)),
          (ss @ ?sib) @ bsibs J p (4 * d + (3 - k)) (m - (3 - k)) (bdown J p (4 * d) (3 - k) A))"
      unfolding k(1) by blast
    have big: "\<not> small (bdown J p (4 * d) j A)" if "3 - Suc k \<le> j" "j < m" for j
      using m(3) [of j] Suc.prems(2) that k(2) by (cases "j = 3 - Suc k") auto
    have "?sib @ bsibs J p (4 * d + (3 - k)) (m - (3 - k)) (bdown J p (4 * d) (3 - k) A) =
        bsibs J p (4 * d + (3 - Suc k)) (m - (3 - Suc k)) (bdown J p (4 * d) (3 - Suc k) A)"
    proof -
      have s: "m - (3 - Suc k) = 1 + (m - (3 - k))" "4 * d + (3 - Suc k) + 1 = 4 * d + (3 - k)" using m(1) k by simp_all
      have "bdown J p (4 * d) (3 - k) A = bdown J p (4 * d + (3 - Suc k)) 1 (bdown J p (4 * d) (3 - Suc k) A)"
        unfolding k(2) bdown_add ..
      then show ?thesis unfolding s(1) bsibs_add s(2) by simp
    qed
    then show ?thesis
      using step False k m(1,2,4,5) big by (intro exI [of _ m]) (auto simp: small_def)
  qed
qed

lemma get_child_with_siblings_eq:
  fixes J :: "('k, 'h) jelly"
  assumes C: "crypto_ok (jcrypto J)" and d: "d < 64" and n: "p ! d < 16" and A: "\<not> small A"
  obtains m where "m \<le> 4" "\<forall>j < m. \<not> small (bdown J p (4 * d) j A)"
    "small (bdown J p (4 * d) m A) \<or> m = 4"
    "get_child_with_siblings J (cchildren J d A) (p ! d) =
      Inr (if bdown J p (4 * d) m A = {} then None else Some (hash_at J (Suc d) (bdown J p (4 * d) m A)),
        bsibs J p (4 * d) m A)"
proof -
  obtain e l where g: "generate_bitmaps (cchildren J d A) = Inr (e, l)"
    and e: "\<And>i. bit e i \<longleftrightarrow> i < 16 \<and> cchildren J d A (nib i) \<noteq> None"
    and l: "\<And>i. bit l i \<longleftrightarrow> i < 16 \<and> (\<exists>ch. cchildren J d A (nib i) = Some ch \<and> child_is_leaf ch)"
    using generate_bitmaps_eq by blast
  have e': "bit e i \<longleftrightarrow> i < 16 \<and> sub J d (nib i) A \<noteq> {}" for i by (auto simp: e cchildren_def nib_less)
  have l': "bit l i \<longleftrightarrow> i < 16 \<and> is_singleton (sub J d (nib i) A)" for i
    by (auto simp: l cchildren_def nib_less child_new_def is_singleton_iff)
  have big: "\<not> small (bdown J p (4 * d) (3 - 3) A)" using A by simp
  obtain m where "m \<le> 4" "\<forall>j. 3 - 3 \<le> j \<longrightarrow> j < m \<longrightarrow> \<not> small (bdown J p (4 * d) j A)"
    "small (bdown J p (4 * d) m A) \<or> m = 4"
    "child_with_siblings_loop J (cchildren J d A) (p ! d) (e, l) (rev [0..<Suc 3]) [] =
      Inr (if bdown J p (4 * d) m A = {} then None else Some (hash_at J (Suc d) (bdown J p (4 * d) m A)),
        [] @ bsibs J p (4 * d + (3 - 3)) (m - (3 - 3)) (bdown J p (4 * d) (3 - 3) A))"
    using child_with_siblings_loop_eq [OF C d n e' l' _ big, of "[]"] by auto
  moreover have "Suc 3 = 4" by simp
  ultimately show thesis using that [of m] g unfolding get_child_with_siblings_def by simp
qed

section \<open>Down the tree\<close>

text \<open>What the walk returns when it ends at the leaves \<open>B\<close>.\<close>

definition found :: "('k, 'h) jelly \<Rightarrow> 'h \<Rightarrow> 'h list \<Rightarrow> ('k, 'h) leaves \<Rightarrow> Blob option \<times> 'h SparseMerkleProof" where
  "found J key siblings B =
     (if B = {} then (None, \<lparr>smp_leaf = None, smp_siblings = rev siblings\<rparr>)
      else (if key_hash J (raw_key (the_elem B)) = key then Some (blob (the_elem B)) else None,
        \<lparr>smp_leaf = Some (key_hash J (raw_key (the_elem B)), blob_hash (the_elem B)), smp_siblings = rev siblings\<rparr>))"

lemma get_with_proof_loop_eq:
  fixes J :: "('k, 'h) jelly"
  assumes C: "crypto_ok (jcrypto J)" and p: "p = hpath J key"
    and "leaves_ok J d A" "A \<noteq> {}" "d \<le> 64" "\<And>x. x \<in> live J d A \<Longrightarrow> R (hash_of J x) = Inr (Some (node_of J x))"
  shows "\<exists>m. 4 * d + m \<le> 256 \<and> (\<forall>j < m. \<not> small (bdown J p (4 * d) j A)) \<and> small (bdown J p (4 * d) m A) \<and>
    get_with_proof_loop J R key (65 - d) k (hash_at J d A) ss (kiter J key d) =
      Inr (found J key (ss @ bsibs J p (4 * d) m A) (bdown J p (4 * d) m A))"
  using assms(3-)
proof (induction "64 - d" arbitrary: d A ss k rule: less_induct)
  case less
  note A = less.prems(1,2) and d = less.prems(3) and R = less.prems(4)
  have fuel: "65 - d = Suc (64 - d)" using d by simp
  have get: "get_node R (hash_at J d A) = Inr (cnode J d A)"
    using R [OF nid_live_ok [OF C A]] by (simp add: get_node_eq_Inr)
  show ?case
  proof (cases "is_singleton A")
    case True
    then obtain l where l: "A = {l}" by (auto simp: is_singleton_iff)
    then show ?thesis using get d by (intro exI [of _ 0]) (simp add: fuel small_def cnode_def found_def)
  next
    case ns: False
    then have big: "\<not> small A" using A by (simp add: small_def)
    have d64: "d < 64" using leaves_ok_lt_64 [OF C A ns] .
    have n: "p ! d < 16" unfolding p by (rule hpath_less [OF C d64])
    obtain m where m: "m \<le> 4" "\<forall>j < m. \<not> small (bdown J p (4 * d) j A)" "small (bdown J p (4 * d) m A) \<or> m = 4"
      "get_child_with_siblings J (cchildren J d A) (p ! d) =
        Inr (if bdown J p (4 * d) m A = {} then None else Some (hash_at J (Suc d) (bdown J p (4 * d) m A)),
          bsibs J p (4 * d) m A)"
      by (rule get_child_with_siblings_eq [OF C d64 n big])
    let ?B = "bdown J p (4 * d) m A"
    have nx: "(nibble_next (kiter J key d) :: _ jelly_result) = Inr (Some (p ! d), kiter J key (Suc d))"
      unfolding p by (rule nibble_next_kiter [OF C d64])
    have nd: "cnode J d A = Internal (cchildren J d A)" using A(2) ns by (simp add: cnode_def)
    have run: "get_with_proof_loop J R key (65 - d) k (hash_at J d A) ss (kiter J key d) =
        (if ?B = {} then Inr (found J key (ss @ bsibs J p (4 * d) m A) ?B)
         else get_with_proof_loop J R key (64 - d) (Suc k) (hash_at J (Suc d) ?B) (ss @ bsibs J p (4 * d) m A) (kiter J key (Suc d)))"
      unfolding fuel by (simp add: get nd nx m(4) found_def)
    show ?thesis
    proof (cases "?B = {}")
      case True
      then show ?thesis using run m(1,2) d64 by (intro exI [of _ m]) (auto simp: small_def)
    next
      case False
      have single: "?B = {l}" if "small ?B" "l \<in> ?B" for l using that by (auto simp: small_def is_singleton_iff)
      have sub4: "?B = sub J d (p ! d) A" if "m = 4" unfolding that by (rule bdown_4 [OF C d64 n])
      have ok: "leaves_ok J (Suc d) ?B \<and> live J (Suc d) ?B \<subseteq> live J d A"
      proof (cases "small ?B")
        case True
        obtain l where l: "l \<in> ?B" using False by blast
        have "l \<in> A" using l bdown_subset by blast
        then have "(0, {l}) \<in> live J d A" using live_leaf [OF C A(1)] by blast
        then show ?thesis unfolding single [OF True l] by (simp add: leaves_ok_def nid_def)
      next
        case False
        then have "?B = sub J d (p ! d) A" using m(3) sub4 by blast
        then show ?thesis using leaves_ok_sub [OF C A(1) d64] live_sub_subset [OF C A(1) d64 n] by simp
      qed
      have s: "65 - Suc d = 64 - d" "64 - Suc d < 64 - d" "Suc d \<le> 64" using d64 by simp_all
      have "\<exists>m1. 4 * Suc d + m1 \<le> 256 \<and> (\<forall>j < m1. \<not> small (bdown J p (4 * Suc d) j ?B)) \<and> small (bdown J p (4 * Suc d) m1 ?B) \<and>
          get_with_proof_loop J R key (65 - Suc d) (Suc k) (hash_at J (Suc d) ?B) (ss @ bsibs J p (4 * d) m A) (kiter J key (Suc d)) =
          Inr (found J key ((ss @ bsibs J p (4 * d) m A) @ bsibs J p (4 * Suc d) m1 ?B) (bdown J p (4 * Suc d) m1 ?B))"
        by (rule less.hyps [OF s(2) _ False s(3)]) (use ok R in blast)+
      then obtain m1 where m1: "4 * Suc d + m1 \<le> 256" "\<And>j. j < m1 \<Longrightarrow> \<not> small (bdown J p (4 * Suc d) j ?B)"
        "small (bdown J p (4 * Suc d) m1 ?B)"
        "get_with_proof_loop J R key (64 - d) (Suc k) (hash_at J (Suc d) ?B) (ss @ bsibs J p (4 * d) m A) (kiter J key (Suc d)) =
          Inr (found J key ((ss @ bsibs J p (4 * d) m A) @ bsibs J p (4 * Suc d) m1 ?B) (bdown J p (4 * Suc d) m1 ?B))"
        unfolding s(1) by blast
      have at: "m1 = 0 \<or> 4 * d + m = 4 * Suc d" using m(3) m1(2) [of 0] by (cases m1) auto
      have B: "bdown J p (4 * Suc d) j ?B = bdown J p (4 * d) (m + j) A" if "j \<le> m1" for j
        using at that bdown_add [of J p "4 * d" m j A] by (elim disjE) simp_all
      have Bs: "bsibs J p (4 * d) m A @ bsibs J p (4 * Suc d) m1 ?B = bsibs J p (4 * d) (m + m1) A"
        using at bsibs_add [of J p "4 * d" m m1 A] by (elim disjE) simp_all
      have "\<not> small (bdown J p (4 * d) j A)" if "j < m + m1" for j
      proof (cases "j < m")
        case False
        then have "\<not> small (bdown J p (4 * Suc d) (j - m) ?B)" using m1(2) that by simp
        then show ?thesis using B [of "j - m"] False that by simp
      qed (use m(2) in blast)
      then show ?thesis
        using run False m1(1,3,4) B [of m1] Bs m(1) by (intro exI [of _ "m + m1"]) simp
    qed
  qed
qed

section \<open>Verification\<close>

text \<open>The bits of a hash value, the highest bit of the first byte first.\<close>

definition bits_ok :: "('k, 'h) jelly \<Rightarrow> bool" where
  "bits_ok J \<longleftrightarrow>
     (\<forall>h. iter_bits J h = map (pbit (hpath J h)) [0..<256]) \<and>
     (\<forall>a b. common_prefix_bits_len J a b = common (iter_bits J a) (iter_bits J b))"

definition leaf_wf :: "('k, 'h) jelly \<Rightarrow> ('k, 'h) LeafNode \<Rightarrow> bool" where
  "leaf_wf J l \<longleftrightarrow> blob_hash l = blob_crypto_hash J (blob l)"

lemma foldr_climb: "foldr (smp_fold_step J) (zip ss (map (pbit p) [i..<i + length ss])) h = climb J p i ss h"
proof (induction ss arbitrary: i)
  case (Cons s ss)
  have "[i..<i + length (s # ss)] = i # [Suc i..<Suc i + length ss]"
    using upt_conv_Cons [of i "i + length (s # ss)"] by simp
  then show ?case using Cons.IH [of "Suc i"] by (simp add: smp_fold_step_def del: upt_Suc)
qed simp

lemma fold_climb:
  assumes "length ss \<le> 256"
  shows "fold (smp_fold_step J) (zip (rev ss) (drop (256 - length ss) (rev (map (pbit p) [0..<256])))) h = climb J p 0 ss h"
proof -
  have "drop (256 - length ss) (rev (map (pbit p) [0..<256])) = rev (map (pbit p) [0..<length ss])"
    using assms by (simp add: drop_rev take_map)
  then have "zip (rev ss) (drop (256 - length ss) (rev (map (pbit p) [0..<256]))) = rev (zip ss (map (pbit p) [0..<length ss]))"
    by (simp add: zip_rev)
  then show ?thesis using foldr_climb [of J ss p 0 h] by (simp add: foldr_conv_fold)
qed

lemma common_ge: "m \<le> length xs \<Longrightarrow> m \<le> length ys \<Longrightarrow> (\<And>j. j < m \<Longrightarrow> xs ! j = ys ! j) \<Longrightarrow> m \<le> common xs ys"
proof (induction xs ys arbitrary: m rule: common.induct)
  case (1 x xs y ys)
  show ?case
  proof (cases m)
    case (Suc k)
    have "x = y" using "1.prems"(3) [of 0] Suc by simp
    moreover have "k \<le> common xs ys"
    proof (rule "1.IH" [OF calculation])
      show "k \<le> length xs" "k \<le> length ys" using "1.prems"(1,2) Suc by simp_all
      show "xs ! j = ys ! j" if "j < k" for j using "1.prems"(3) [of "Suc j"] that Suc by simp
    qed
    ultimately show ?thesis using Suc by simp
  qed simp
qed simp_all

lemma found_verifies:
  fixes J :: "('k, 'h) jelly"
  assumes b: "bits_ok J" and p: "p = hpath J key" and m: "m \<le> 256"
    and big: "\<And>j. j < m \<Longrightarrow> \<not> small (bdown J p 0 j S)" and B: "small (bdown J p 0 m S)" and wf: "\<And>l. l \<in> S \<Longrightarrow> leaf_wf J l"
  shows "smp_verify J (snd (found J key (bsibs J p 0 m S) (bdown J p 0 m S))) (smt J 256 S) key
    (fst (found J key (bsibs J p 0 m S) (bdown J p 0 m S))) = Inr ()"
proof -
  let ?B = "bdown J p 0 m S" and ?ss = "bsibs J p 0 m S"
  have bits: "iter_bits J h = map (pbit (hpath J h)) [0..<256]" for h using b by (simp add: bits_ok_def)
  have root: "smt J 256 S = climb J p 0 ?ss (smt J (256 - m) ?B)" using smt_climb [of m J p 0 S, OF big] m by simp
  have fold: "fold (smp_fold_step J) (zip (rev ?ss) (drop (256 - m) (rev (iter_bits J key)))) h = climb J p 0 ?ss h" for h
    using fold_climb [of ?ss J p h] m unfolding bits p by simp
  show ?thesis
  proof (cases "?B = {}")
    case True
    then show ?thesis using root fold m
      by (simp add: found_def smp_verify_def smp_check_def LENGTH_IN_BITS_def)
  next
    case False
    then obtain l where l: "?B = {l}" using B by (auto simp: small_def is_singleton_iff)
    then have lS: "l \<in> S" using bdown_subset by blast
    let ?k = "key_hash J (raw_key l)"
    have h: "sparse_leaf_hash J ?k (blob_hash l) = smt J (256 - m) ?B" by (simp add: l leaf_crypto_hash_def)
    have "m \<le> common (iter_bits J key) (iter_bits J ?k)"
    proof (rule common_ge)
      fix j assume "j < m"
      moreover have "l \<in> ?B" by (simp add: l)
      ultimately have "pbit (lpath J l) j = pbit p j" by (simp add: bdown_def)
      then show "iter_bits J key ! j = iter_bits J ?k ! j" using \<open>j < m\<close> m by (simp add: bits p lpath_def)
    qed (use m in \<open>simp_all add: bits\<close>)
    then have "m \<le> common_prefix_bits_len J key ?k" using b by (simp add: bits_ok_def)
    then show ?thesis
      using root fold m h wf [OF lS] by (simp add: found_def smp_verify_def smp_check_def LENGTH_IN_BITS_def l leaf_wf_def)
  qed
qed

text \<open>The leaf with a key is on its path.\<close>

lemma found_value:
  assumes C: "crypto_ok (jcrypto J)" and S: "leaves_ok J 0 S" and p: "p = hpath J key" and B: "small (bdown J p 0 m S)"
  shows "fst (found J key ss (bdown J p 0 m S)) = Some b \<longleftrightarrow> (\<exists>l \<in> S. key_hash J (raw_key l) = key \<and> blob l = b)"
proof -
  let ?B = "bdown J p 0 m S"
  have on: "l \<in> ?B" if "l \<in> S" "key_hash J (raw_key l) = key" for l
    using that by (simp add: bdown_def lpath_def p)
  show ?thesis
  proof (cases "?B = {}")
    case True
    then show ?thesis using on by (auto simp: found_def)
  next
    case False
    then obtain l where l: "?B = {l}" using B by (auto simp: small_def is_singleton_iff)
    then have lS: "l \<in> S" using bdown_subset by blast
    have only: "l' = l" if "l' \<in> S" "key_hash J (raw_key l') = key" for l' using on [OF that] unfolding l by blast
    have "fst (found J key ss ?B) = Some b \<longleftrightarrow> key_hash J (raw_key l) = key \<and> blob l = b"
      unfolding l by (simp add: found_def)
    then show ?thesis using only lS by blast
  qed
qed

lemma get_with_proof_eq:
  fixes J :: "('k, 'h) jelly"
  assumes C: "crypto_ok (jcrypto J)" and b: "bits_ok J" and S: "leaves_ok J 0 S" and wf: "\<And>l. l \<in> S \<Longrightarrow> leaf_wf J l"
    and R: "stores J R S" and empty: "S = {} \<Longrightarrow> R (placeholder J) = Inr (Some Null)"
  shows "\<exists>v pf. get_with_proof J R (smt J 256 S) key = Inr (v, pf) \<and>
    (\<forall>b. v = Some b \<longleftrightarrow> (\<exists>l \<in> S. key_hash J (raw_key l) = key \<and> blob l = b)) \<and>
    smp_verify J pf (smt J 256 S) key v = Inr ()"
proof -
  let ?p = "hpath J key"
  have it: "path_nibbles (nibble_path_new (to_vec (jcrypto J) key)) = kiter J key 0" by (simp add: kiter_0)
  have "\<exists>m. m \<le> 256 \<and> (\<forall>j < m. \<not> small (bdown J ?p 0 j S)) \<and> small (bdown J ?p 0 m S) \<and>
      get_with_proof J R (smt J 256 S) key = Inr (found J key (bsibs J ?p 0 m S) (bdown J ?p 0 m S))"
  proof (cases "S = {}")
    case True
    have "get_with_proof J R (smt J 256 S) key = Inr (found J key [] {})"
      using empty True by (simp add: get_with_proof_def ROOT_NIBBLE_HEIGHT_def numeral_eq_Suc get_node_def found_def)
    then show ?thesis using True by (intro exI [of _ 0]) (simp add: small_def)
  next
    case False
    have R': "R (hash_of J x) = Inr (Some (node_of J x))" if "x \<in> live J 0 S" for x using R that by (simp add: stores_def)
    have "\<exists>m. 4 * 0 + m \<le> 256 \<and> (\<forall>j < m. \<not> small (bdown J ?p (4 * 0) j S)) \<and> small (bdown J ?p (4 * 0) m S) \<and>
      get_with_proof_loop J R key (65 - 0) 0 (hash_at J 0 S) [] (kiter J key 0) =
        Inr (found J key ([] @ bsibs J ?p (4 * 0) m S) (bdown J ?p (4 * 0) m S))"
      by (rule get_with_proof_loop_eq [OF C refl S False le0 R'])
    then show ?thesis unfolding get_with_proof_def it ROOT_NIBBLE_HEIGHT_def by simp
  qed
  then obtain m where m: "m \<le> 256" "\<And>j. j < m \<Longrightarrow> \<not> small (bdown J ?p 0 j S)" "small (bdown J ?p 0 m S)"
    "get_with_proof J R (smt J 256 S) key = Inr (found J key (bsibs J ?p 0 m S) (bdown J ?p 0 m S))" by blast
  let ?r = "found J key (bsibs J ?p 0 m S) (bdown J ?p 0 m S)"
  show ?thesis
  proof (intro exI [of _ "fst ?r"] exI [of _ "snd ?r"] conjI allI)
    show "get_with_proof J R (smt J 256 S) key = Inr (fst ?r, snd ?r)" using m(4) by simp
    show "fst ?r = Some b \<longleftrightarrow> (\<exists>l \<in> S. key_hash J (raw_key l) = key \<and> blob l = b)" for b
      by (rule found_value [OF C S refl m(3)])
    show "smp_verify J (snd ?r) (smt J 256 S) key (fst ?r) = Inr ()" by (rule found_verifies [OF b refl m(1-3) wf])
  qed
qed

end
