(* ===== verification/State_Tree.thy ===== *)
theory State_Tree
  imports Jellyfish_Get "HOL-Library.Product_Lexorder"
begin

text \<open>
  The state tree, \<^verbatim>\<open>state-tree/src/state_tree.rs\<close>: pending updates and a cache of uncommitted nodes
  over a node store, on top of the jellyfish Merkle tree. The locks guard single calls and
  are not part of the model; a call returns the new tree and its result. The node store is
  behind the trait \<^verbatim>\<open>StateNodeStore\<close>: its methods are the parameter \<open>N\<close>, and the mock store of
  the crate is one. A \<^verbatim>\<open>BTreeMap\<close> of pending updates is a list in the order of its keys.
\<close>

section \<open>Definitions\<close>

subsection \<open>Node stores\<close>

text \<open>A method that writes returns the store also when it fails: the write may be partly done.\<close>

record ('s, 'h) StateNodeStore =
  store_get :: "'s \<Rightarrow> 'h \<Rightarrow> u8 list option jelly_result"
  store_put :: "'h \<Rightarrow> u8 list \<Rightarrow> 's \<Rightarrow> 's \<times> unit jelly_result"
  store_write_nodes :: "('h \<Rightarrow> u8 list option) \<Rightarrow> 's \<Rightarrow> 's \<times> unit jelly_result"

type_synonym 'h MockStateNodeStore = "'h \<Rightarrow> u8 list option"

definition mock_node_store_new :: "'h MockStateNodeStore" where
  "mock_node_store_new = Map.empty"

definition mock_node_get :: "'h MockStateNodeStore \<Rightarrow> 'h \<Rightarrow> u8 list option jelly_result" where
  "mock_node_get s h = Inr (s h)"

definition mock_node_put :: "'h \<Rightarrow> u8 list \<Rightarrow> 'h MockStateNodeStore \<Rightarrow> 'h MockStateNodeStore \<times> unit jelly_result" where
  "mock_node_put h b s = (s(h \<mapsto> b), Inr ())"

definition mock_write_nodes ::
  "('h \<Rightarrow> u8 list option) \<Rightarrow> 'h MockStateNodeStore \<Rightarrow> 'h MockStateNodeStore \<times> unit jelly_result" where
  "mock_write_nodes nodes s = (s ++ nodes, Inr ())"

definition mock_node_store :: "('h MockStateNodeStore, 'h) StateNodeStore" where
  "mock_node_store = \<lparr>store_get = mock_node_get, store_put = mock_node_put, store_write_nodes = mock_write_nodes\<rparr>"

subsection \<open>Ordered maps and sets\<close>

fun btree_insert :: "'k::linorder \<Rightarrow> 'v \<Rightarrow> ('k \<times> 'v) list \<Rightarrow> ('k \<times> 'v) list" where
  "btree_insert k v [] = [(k, v)]"
| "btree_insert k v ((k', v') # kvs) =
     (if k < k' then (k, v) # (k', v') # kvs
      else if k = k' then (k, v) # kvs
      else (k', v') # btree_insert k v kvs)"

text \<open>The records of a \<^verbatim>\<open>BTreeSet<StaleNodeIndex>\<close> in their order, and the entries of a \<^verbatim>\<open>NodeBatch\<close>.\<close>

definition stale_list :: "'h::linorder StaleNodeIndex set \<Rightarrow> 'h StaleNodeIndex list" where
  "stale_list A = map (\<lambda>(v, k). \<lparr>stale_since_version = v, stale_node_key = k\<rparr>)
     (sorted_list_of_set ((\<lambda>i. (stale_since_version i, stale_node_key i)) ` A))"

definition node_list :: "('h::linorder \<Rightarrow> ('k, 'h) Node option) \<Rightarrow> ('h \<times> ('k, 'h) Node) list" where
  "node_list nodes = map (\<lambda>k. (k, the (nodes k))) (sorted_list_of_set (dom nodes))"

subsection \<open>The cache of uncommitted nodes\<close>

record ('k, 'h) StateCache =
  sc_root_hash :: 'h
  sc_change_set :: "('k, 'h) TreeUpdateBatch"

definition batch_default :: "('k, 'h) TreeUpdateBatch" where
  "batch_default = \<lparr>batch_nodes = Map.empty, batch_stale = {}, batch_num_new_leaves = 0, batch_num_stale_leaves = 0\<rparr>"

definition state_cache_new :: "'h \<Rightarrow> ('k, 'h) StateCache" where
  "state_cache_new initial_root = \<lparr>sc_root_hash = initial_root, sc_change_set = batch_default\<rparr>"

definition state_cache_reset :: "'h \<Rightarrow> ('k, 'h) StateCache \<Rightarrow> ('k, 'h) StateCache" where
  "state_cache_reset root_hash c = c\<lparr>sc_root_hash := root_hash, sc_change_set := batch_default\<rparr>"

text \<open>One round of the loop over the stale records; the second component is \<^verbatim>\<open>cs_num_stale_leaves\<close>.\<close>

definition add_stale ::
  "'h \<Rightarrow> 'h StaleNodeIndex \<Rightarrow> ('k, 'h) TreeUpdateBatch \<times> u64 \<Rightarrow> ('k, 'h) TreeUpdateBatch \<times> u64" where
  "add_stale root_hash stale_node b =
     (let cur = fst b; k = stale_node_key stale_node
      in case batch_nodes cur k of
           None \<Rightarrow> (cur\<lparr>batch_stale := insert \<lparr>stale_since_version = root_hash, stale_node_key = k\<rparr> (batch_stale cur)\<rparr>, snd b)
         | Some n \<Rightarrow>
             let cur = cur\<lparr>batch_nodes := (batch_nodes cur)(k := None)\<rparr>
             in if node_is_leaf n
                then (cur\<lparr>batch_num_new_leaves := batch_num_new_leaves cur - 1\<rparr>, snd b - 1)
                else (cur, snd b))"

definition add_node :: "'h \<times> ('k, 'h) Node \<Rightarrow> ('k, 'h) TreeUpdateBatch \<Rightarrow> ('k, 'h) TreeUpdateBatch" where
  "add_node kn cur = cur\<lparr>batch_nodes := (batch_nodes cur)(fst kn \<mapsto> snd kn),
     batch_num_new_leaves := batch_num_new_leaves cur + (if node_is_leaf (snd kn) then 1 else 0)\<rparr>"

definition add_changeset ::
  "'h::linorder \<Rightarrow> ('k, 'h) TreeUpdateBatch \<Rightarrow> ('k, 'h) StateCache \<Rightarrow> ('k, 'h) StateCache" where
  "add_changeset root_hash cs c =
     (let (cur, stale_leaves) = fold (add_stale root_hash) (stale_list (batch_stale cs)) (sc_change_set c, batch_num_stale_leaves cs);
          cur = cur\<lparr>batch_num_stale_leaves := batch_num_stale_leaves cur + stale_leaves\<rparr>;
          cur = fold add_node (node_list (batch_nodes cs)) cur
      in c\<lparr>sc_change_set := cur, sc_root_hash := root_hash\<rparr>)"

subsection \<open>The state tree\<close>

record ('s, 'k, 'h) StateTree =
  st_storage :: 's
  storage_root_hash :: 'h
  st_updates :: "('k \<times> Blob option) list"
  st_cache :: "('k, 'h) StateCache"

definition state_tree_new :: "('k, 'h) jelly \<Rightarrow> 's \<Rightarrow> 'h option \<Rightarrow> ('s, 'k, 'h) StateTree" where
  "state_tree_new J state_storage state_root_hash =
     (let root = (case state_root_hash of Some r \<Rightarrow> r | None \<Rightarrow> placeholder J)
      in \<lparr>st_storage = state_storage, storage_root_hash = root, st_updates = [], st_cache = state_cache_new root\<rparr>)"

definition state_tree_clone :: "('k, 'h) jelly \<Rightarrow> ('s, 'k, 'h) StateTree \<Rightarrow> ('s, 'k, 'h) StateTree" where
  "state_tree_clone J t = state_tree_new J (st_storage t) (Some (storage_root_hash t))"

definition state_root :: "('s, 'k, 'h) StateTree \<Rightarrow> 'h" where
  "state_root t = sc_root_hash (st_cache t)"

definition state_put :: "'k::linorder \<Rightarrow> Blob \<Rightarrow> ('s, 'k, 'h) StateTree \<Rightarrow> ('s, 'k, 'h) StateTree" where
  "state_put key v t = t\<lparr>st_updates := btree_insert key (Some v) (st_updates t)\<rparr>"

definition state_remove :: "'k::linorder \<Rightarrow> ('s, 'k, 'h) StateTree \<Rightarrow> ('s, 'k, 'h) StateTree" where
  "state_remove key t = t\<lparr>st_updates := btree_insert key None (st_updates t)\<rparr>"

definition is_dirty :: "('s, 'k, 'h) StateTree \<Rightarrow> bool" where
  "is_dirty t \<longleftrightarrow> length (st_updates t) > 0"

definition is_genesis :: "('k, 'h) jelly \<Rightarrow> ('s, 'k, 'h) StateTree \<Rightarrow> bool" where
  "is_genesis J t \<longleftrightarrow> state_root t = placeholder J"

definition change_sets :: "('s, 'k, 'h) StateTree \<Rightarrow> 'h \<times> ('k, 'h) TreeUpdateBatch" where
  "change_sets t = (sc_root_hash (st_cache t), sc_change_set (st_cache t))"

definition cached_tree_reader ::
  "('k, 'h) jelly \<Rightarrow> ('s, 'h) StateNodeStore \<Rightarrow> ('s, 'k, 'h) StateTree \<Rightarrow> ('k, 'h) TreeReader" where
  "cached_tree_reader J N t node_key =
     (if node_key = placeholder J then Inr (Some Null)
      else case batch_nodes (sc_change_set (st_cache t)) node_key of
        Some n \<Rightarrow> Inr (Some n)
      | None \<Rightarrow> obind (store_get N (st_storage t) node_key) (\<lambda>r.
          case r of None \<Rightarrow> Inr None | Some b \<Rightarrow> obind (node_decode J b) (\<lambda>n. Inr (Some n))))"

definition state_get_with_proof ::
  "('k, 'h) jelly \<Rightarrow> ('s, 'h) StateNodeStore \<Rightarrow> 'k \<Rightarrow> ('s, 'k, 'h) StateTree
    \<Rightarrow> (Blob option \<times> 'h SparseMerkleProof) jelly_result" where
  "state_get_with_proof J N key t = get_with_proof J (cached_tree_reader J N t) (state_root t) (key_hash J key)"

definition state_get ::
  "('k, 'h) jelly \<Rightarrow> ('s, 'h) StateNodeStore \<Rightarrow> 'k \<Rightarrow> ('s, 'k, 'h) StateTree \<Rightarrow> Blob option jelly_result" where
  "state_get J N key t =
     (case map_of (st_updates t) key of
        Some uncomputed \<Rightarrow> Inr uncomputed
      | None \<Rightarrow> obind (state_get_with_proof J N key t) (\<lambda>(v, _). Inr v))"

definition state_contains ::
  "('k, 'h) jelly \<Rightarrow> ('s, 'h) StateNodeStore \<Rightarrow> 'k \<Rightarrow> ('s, 'k, 'h) StateTree \<Rightarrow> bool jelly_result" where
  "state_contains J N key t = obind (state_get J N key t) (\<lambda>v. Inr (v \<noteq> None))"

definition state_updates ::
  "('k, 'h::linorder) jelly \<Rightarrow> ('s, 'h) StateNodeStore \<Rightarrow> ('k \<times> Blob option) list \<Rightarrow> ('s, 'k, 'h) StateTree
    \<Rightarrow> ('s, 'k, 'h) StateTree \<times> 'h jelly_result" where
  "state_updates J N kvs t =
     (if kvs = [] then (t, Inr (state_root t))
      else case updates J (cached_tree_reader J N t) (Some (state_root t)) kvs of
        Inl e \<Rightarrow> (t, Inl e)
      | Inr (new_state_root, change_set) \<Rightarrow>
          (t\<lparr>st_cache := add_changeset new_state_root change_set (st_cache t)\<rparr>, Inr new_state_root))"

definition state_commit ::
  "('k, 'h::linorder) jelly \<Rightarrow> ('s, 'h) StateNodeStore \<Rightarrow> ('s, 'k, 'h) StateTree \<Rightarrow> ('s, 'k, 'h) StateTree \<times> 'h jelly_result" where
  "state_commit J N t =
     (case state_updates J N (st_updates t) t of
        (t, Inl e) \<Rightarrow> (t, Inl e)
      | (t, Inr new_root_hash) \<Rightarrow> (t\<lparr>st_updates := []\<rparr>, Inr new_root_hash))"

text \<open>Writing a set of states: \<open>decode_key\<close> is the method of the key type.\<close>

definition state_apply ::
  "('k, 'h::linorder) jelly \<Rightarrow> ('s, 'h) StateNodeStore \<Rightarrow> (u8 list \<Rightarrow> 'k jelly_result) \<Rightarrow> (u8 list \<times> u8 list) list
    \<Rightarrow> ('s, 'k, 'h) StateTree \<Rightarrow> ('s, 'k, 'h) StateTree \<times> unit jelly_result" where
  "state_apply J N decode_key state_set t =
     (case omap (\<lambda>(k, v). obind (decode_key k) (\<lambda>key. Inr (key, Some v))) state_set of
        Inl e \<Rightarrow> (t, Inl e)
      | Inr kvs \<Rightarrow> (case state_updates J N kvs t of (t, r) \<Rightarrow> (t, obind r (\<lambda>_. Inr ()))))"

definition state_flush ::
  "('k, 'h::linorder) jelly \<Rightarrow> ('s, 'h) StateNodeStore \<Rightarrow> ('s, 'k, 'h) StateTree \<Rightarrow> ('s, 'k, 'h) StateTree \<times> unit jelly_result" where
  "state_flush J N t =
     (let (root_hash, cs) = change_sets t
      in case omap (\<lambda>(nk, n). obind (node_encode J n) (\<lambda>b. Inr (nk, b))) (node_list (batch_nodes cs)) of
           Inl e \<Rightarrow> (t, Inl e)
         | Inr node_map \<Rightarrow>
             (case store_write_nodes N (map_of node_map) (st_storage t) of
                (s, Inl e) \<Rightarrow> (t\<lparr>st_storage := s\<rparr>, Inl e)
              | (s, Inr _) \<Rightarrow> (t\<lparr>st_storage := s, storage_root_hash := root_hash,
                  st_cache := state_cache_reset root_hash (st_cache t)\<rparr>, Inr ())))"

section \<open>What a node store promises\<close>

text \<open>
  A write that succeeds is there, one that fails has left each key as it was or written it.
\<close>

locale node_store_writes =
  fixes N :: "('s, 'h) StateNodeStore"
  assumes write_ok: "store_write_nodes N nodes s = (s', Inr ()) \<Longrightarrow>
    store_get N s' h = (case nodes h of Some b \<Rightarrow> Inr (Some b) | None \<Rightarrow> store_get N s h)"
    and write_err: "store_write_nodes N nodes s = (s', Inl e) \<Longrightarrow>
    store_get N s' h = store_get N s h \<or> (\<exists>b. nodes h = Some b \<and> store_get N s' h = Inr (Some b))"
begin

lemma unwritten_get: "store_write_nodes N nodes s = (s', r) \<Longrightarrow> nodes h = None \<Longrightarrow> store_get N s' h = store_get N s h"
  using write_ok [of nodes s s' h] write_err [of nodes s s' _ h] by (cases r) auto

end

text \<open>A store whose writes do not fail.\<close>

locale state_node_store = node_store_writes +
  assumes write_total: "\<exists>s'. store_write_nodes N nodes s = (s', Inr ())"

interpretation mock_nodes: state_node_store mock_node_store
  by unfold_locales
    (auto simp: mock_node_store_def mock_write_nodes_def mock_node_get_def map_add_def split: option.splits)

section \<open>The cache after a batch\<close>

lemma set_stale_list: "finite A \<Longrightarrow> stale_node_key ` set (stale_list A) = stale_node_key ` A"
  by (force simp: stale_list_def image_image)

lemma set_node_list: "finite (dom nodes) \<Longrightarrow> (k, n) \<in> set (node_list nodes) \<longleftrightarrow> nodes k = Some n"
  by (auto simp: node_list_def)

lemma fold_add_stale:
  "batch_nodes (fst (fold (add_stale r) is b)) k =
    (if k \<in> stale_node_key ` set is then None else batch_nodes (fst b) k)"
  by (induction "is" arbitrary: b) (auto simp: add_stale_def Let_def split: option.splits if_splits)

lemma fold_add_node:
  "(\<And>n. (k, n) \<in> set kns \<Longrightarrow> n = m) \<Longrightarrow>
    batch_nodes (fold add_node kns cur) k = (if k \<in> fst ` set kns then Some m else batch_nodes cur k)"
proof (induction kns arbitrary: cur)
  case (Cons kn kns)
  have "\<And>n. (k, n) \<in> set kns \<Longrightarrow> n = m" using Cons.prems by simp
  from Cons.IH [OF this, of "add_node kn cur"] show ?case
    using Cons.prems [of "snd kn"] by (auto simp: add_node_def)
qed simp

lemma add_changeset_nodes:
  assumes "finite (dom (batch_nodes cs))" "finite (batch_stale cs)"
  shows "batch_nodes (sc_change_set (add_changeset r cs c)) k =
    (case batch_nodes cs k of
       Some n \<Rightarrow> Some n
     | None \<Rightarrow> if k \<in> stale_node_key ` batch_stale cs then None else batch_nodes (sc_change_set c) k)"
proof -
  obtain cur sl where f: "fold (add_stale r) (stale_list (batch_stale cs)) (sc_change_set c, batch_num_stale_leaves cs) = (cur, sl)"
    by fastforce
  have cur: "batch_nodes cur k = (if k \<in> stale_node_key ` batch_stale cs then None else batch_nodes (sc_change_set c) k)"
    using fold_add_stale [of r "stale_list (batch_stale cs)" "(sc_change_set c, batch_num_stale_leaves cs)" k] f
      set_stale_list [OF assms(2)] by simp
  let ?cur = "cur\<lparr>batch_num_stale_leaves := batch_num_stale_leaves cur + sl\<rparr>"
  have "batch_nodes (fold add_node (node_list (batch_nodes cs)) ?cur) k =
      (if k \<in> fst ` set (node_list (batch_nodes cs)) then Some (the (batch_nodes cs k)) else batch_nodes ?cur k)"
    by (rule fold_add_node) (use set_node_list [OF assms(1)] in auto)
  moreover have "k \<in> fst ` set (node_list (batch_nodes cs)) \<longleftrightarrow> batch_nodes cs k \<noteq> None"
    using set_node_list [OF assms(1), of k] by force
  ultimately show ?thesis using f cur by (auto simp: add_changeset_def split: option.splits)
qed

lemma add_changeset_root [simp]: "sc_root_hash (add_changeset r cs c) = r"
  by (simp add: add_changeset_def split: prod.splits)

section \<open>The invariant\<close>

text \<open>The tree stands for the committed leaves \<open>S\<close>.\<close>

definition state_inv ::
  "('k, 'h) jelly \<Rightarrow> ('s, 'h) StateNodeStore \<Rightarrow> ('k, 'h) leaves \<Rightarrow> ('s, 'k, 'h) StateTree \<Rightarrow> bool" where
  "state_inv J N S t \<longleftrightarrow>
     state_root t = smt J 256 S \<and> leaves_ok J 0 S \<and> (\<forall>l \<in> S. leaf_wf J l) \<and>
     stores J (cached_tree_reader J N t) S \<and>
     (\<forall>k nd. batch_nodes (sc_change_set (st_cache t)) k = Some nd \<longrightarrow> node_typed J k nd) \<and>
     finite (dom (batch_nodes (sc_change_set (st_cache t))))"

lemma leaf_wf_update: "(\<forall>l \<in> S. leaf_wf J l) \<Longrightarrow> \<forall>l \<in> leaf_update J key b S. leaf_wf J l"
  by (rule leaf_update_cases [of J key b S]) (auto simp: leaf_wf_def leaf_new_def)

lemma leaf_wf_updates: "(\<forall>l \<in> S. leaf_wf J l) \<Longrightarrow> \<forall>l \<in> apply_updates J kvs S. leaf_wf J l"
  by (induction J kvs S rule: apply_updates.induct) (simp_all add: leaf_wf_update)

lemma state_tree_new_inv:
  assumes "crypto_ok (jcrypto J)"
  shows "state_inv J N {} (state_tree_new J s None)"
  by (simp add: state_inv_def state_tree_new_def state_root_def state_cache_new_def batch_default_def leaves_ok_def stores_def Let_def)

lemma state_get_with_proof_eq:
  fixes J :: "('k, 'h) jelly"
  assumes C: "crypto_ok (jcrypto J)" and b: "bits_ok J" and inv: "state_inv J N S t"
  shows "\<exists>v pf. state_get_with_proof J N key t = Inr (v, pf) \<and>
    (\<forall>b. v = Some b \<longleftrightarrow> (\<exists>l \<in> S. key_hash J (raw_key l) = key_hash J key \<and> blob l = b)) \<and>
    smp_verify J pf (state_root t) (key_hash J key) v = Inr ()"
proof -
  have i: "state_root t = smt J 256 S" "leaves_ok J 0 S" "\<And>l. l \<in> S \<Longrightarrow> leaf_wf J l"
    "stores J (cached_tree_reader J N t) S" using inv by (simp_all add: state_inv_def)
  have "cached_tree_reader J N t (placeholder J) = Inr (Some Null)" by (simp add: cached_tree_reader_def)
  from get_with_proof_eq [OF C b i(2-4) this, of "key_hash J key"]
  show ?thesis unfolding state_get_with_proof_def i(1) .
qed

lemma cached_tree_reader_cong:
  assumes "st_storage t = st_storage t'"
    "batch_nodes (sc_change_set (st_cache t)) k = batch_nodes (sc_change_set (st_cache t')) k"
  shows "cached_tree_reader J N t k = cached_tree_reader J N t' k"
  unfolding cached_tree_reader_def assms ..

lemma state_inv_updates [simp]: "state_inv J N S (t\<lparr>st_updates := kvs\<rparr>) \<longleftrightarrow> state_inv J N S t"
proof -
  have "cached_tree_reader J N (t\<lparr>st_updates := kvs\<rparr>) = cached_tree_reader J N t"
    by (rule ext, rule cached_tree_reader_cong) simp_all
  then show ?thesis by (simp add: state_inv_def state_root_def)
qed

lemma state_updates_inv:
  fixes J :: "('k, 'h::linorder) jelly"
  assumes C: "crypto_ok (jcrypto J)" and inv: "state_inv J N S t" and ne: "kvs \<noteq> []" and rf: "refills J kvs S \<le> 1"
    and nc: "no_collision J (set (trace J kvs S))" and S': "S' = apply_updates J kvs S"
  shows "\<exists>t'. state_updates J N kvs t = (t', Inr (smt J 256 S')) \<and> state_inv J N S' t' \<and>
    st_updates t' = st_updates t \<and> st_storage t' = st_storage t \<and> storage_root_hash t' = storage_root_hash t"
proof -
  let ?R = "cached_tree_reader J N t"
  have i: "state_root t = smt J 256 S" "leaves_ok J 0 S" "\<forall>l \<in> S. leaf_wf J l" "stores J ?R S"
    "\<And>k nd. batch_nodes (sc_change_set (st_cache t)) k = Some nd \<Longrightarrow> node_typed J k nd"
    "finite (dom (batch_nodes (sc_change_set (st_cache t))))" using inv by (simp_all add: state_inv_def)
  have root: "Some (smt J 256 S) = Some (smt J 256 S) \<and> stores J ?R S \<or> Some (smt J 256 S) = None \<and> S = {}" using i(4) by simp
  obtain cs where cs: "updates J ?R (Some (smt J 256 S)) kvs = Inr (smt J 256 S', cs)"
    "stores J (overlay (batch_nodes cs) ?R) S'"
    "\<And>x. x \<in> live J 0 S' \<Longrightarrow> batch_nodes cs (hash_of J x) = None \<Longrightarrow> hash_of J x \<notin> stale_node_key ` batch_stale cs"
    "\<And>k nd. batch_nodes cs k = Some nd \<Longrightarrow> node_typed J k nd" "finite (dom (batch_nodes cs))" "finite (batch_stale cs)"
    using updates_eq [OF C i(2) root ne rf nc S'] by blast
  let ?t = "t\<lparr>st_cache := add_changeset (smt J 256 S') cs (st_cache t)\<rparr>"
  note nodes = add_changeset_nodes [OF cs(5,6), of "smt J 256 S'" "st_cache t"]
  have run: "state_updates J N kvs t = (?t, Inr (smt J 256 S'))"
    using cs(1) ne by (simp add: state_updates_def i(1))
  have okS': "leaves_ok J 0 S'" unfolding S' by (rule apply_updates_ok [OF C i(2)])
  have "apart J (\<Union>S \<in> set (trace J kvs S). live J 0 S)" by (rule no_collision_apart [OF C trace_ok [OF C i(2)] nc])
  then have ap: "apart J (live J 0 S')" by (rule apart_mono) (use apply_updates_trace [of J kvs S] S' in blast)
  have st: "cached_tree_reader J N ?t (hash_of J x) = Inr (Some (node_of J x))" if x: "x \<in> live J 0 S'" for x
  proof (cases "batch_nodes cs (hash_of J x)")
    case None
    have ov: "overlay (batch_nodes cs) ?R (hash_of J x) = Inr (Some (node_of J x))" using cs(2) x unfolding stores_def by blast
    have "batch_nodes (sc_change_set (st_cache ?t)) (hash_of J x) = batch_nodes (sc_change_set (st_cache t)) (hash_of J x)"
      using None cs(3) [OF x None] by (simp add: nodes)
    then have "cached_tree_reader J N ?t (hash_of J x) = ?R (hash_of J x)" by (rule cached_tree_reader_cong [rotated]) simp
    then show ?thesis using ov None by (simp add: overlay_def)
  next
    case (Some n)
    have ov: "overlay (batch_nodes cs) ?R (hash_of J x) = Inr (Some (node_of J x))" using cs(2) x unfolding stores_def by blast
    then show ?thesis using Some apartD(2) [OF ap x] by (simp add: cached_tree_reader_def nodes overlay_def)
  qed
  have ty: "node_typed J k nd" if "batch_nodes (sc_change_set (st_cache ?t)) k = Some nd" for k nd
    using that cs(4) i(5) by (auto simp: nodes split: option.splits if_splits)
  have "dom (batch_nodes (sc_change_set (st_cache ?t))) \<subseteq> dom (batch_nodes cs) \<union> dom (batch_nodes (sc_change_set (st_cache t)))"
    by (auto simp: nodes split: option.splits if_splits)
  then have fin: "finite (dom (batch_nodes (sc_change_set (st_cache ?t))))" using cs(5) i(6) by (meson finite_UnI finite_subset)
  have "state_inv J N S' ?t"
    using okS' leaf_wf_updates [OF i(3), of kvs] st ty fin unfolding S' state_inv_def stores_def by (simp add: state_root_def)
  then show ?thesis using run by auto
qed

lemma state_commit_inv:
  fixes J :: "('k, 'h::linorder) jelly"
  assumes C: "crypto_ok (jcrypto J)" and inv: "state_inv J N S t"
    and keys: "distinct (map (\<lambda>(key, b). key_hash J key) (st_updates t))"
    and nc: "no_collision J (set (trace J (st_updates t) S))" and S': "S' = apply_updates J (st_updates t) S"
  shows "\<exists>t'. state_commit J N t = (t', Inr (smt J 256 S')) \<and> state_inv J N S' t' \<and> st_updates t' = [] \<and>
    st_storage t' = st_storage t \<and> storage_root_hash t' = storage_root_hash t"
proof (cases "st_updates t = []")
  case True
  then have "state_commit J N t = (t\<lparr>st_updates := []\<rparr>, Inr (smt J 256 S'))"
    using inv S' by (simp add: state_commit_def state_updates_def state_inv_def)
  then show ?thesis using True inv S' by simp
next
  case False
  from state_updates_inv [OF C inv False refills_distinct [OF keys] nc S'] obtain t' where t':
    "state_updates J N (st_updates t) t = (t', Inr (smt J 256 S'))" "state_inv J N S' t'"
    "st_storage t' = st_storage t" "storage_root_hash t' = storage_root_hash t" by blast
  then show ?thesis using t' by (simp add: state_commit_def)
qed

section \<open>Flushing\<close>

lemma node_decode_encode:
  assumes "crypto_ok (jcrypto J)" "bcs_ok J" "node_typed J k nd" "node_encode J nd = Inr out"
  shows "node_decode J out = Inr nd"
proof (cases nd)
  case (Internal c)
  then have "internal_ok c" using assms(3) by (simp add: node_typed_def)
  then show ?thesis using internal_roundtrip [OF assms(1), of c] assms(4) Internal by auto
qed (use assms(2,4) in \<open>auto simp: bcs_ok_def\<close>)

lemma node_encode_total:
  assumes "crypto_ok (jcrypto J)" "\<And>l. \<exists>out. leaf_to_bytes J l = Inr out" "node_typed J k nd"
  shows "\<exists>out. node_encode J nd = Inr out"
proof (cases nd)
  case (Internal c)
  then have "internal_ok c" using assms(3) by (simp add: node_typed_def)
  then show ?thesis using internal_roundtrip [OF assms(1), of c] Internal by auto
qed (use assms(2) in auto)

text \<open>The nodes as they are written: the encodings of the nodes of the cache, under the same keys.\<close>

lemma omap_encode:
  assumes "omap (\<lambda>(nk, n). obind (node_encode J n) (\<lambda>b. Inr (nk, b))) kns = Inr m"
  shows "map fst m = map fst kns \<and> (\<forall>(k, b) \<in> set m. \<exists>n. (k, n) \<in> set kns \<and> node_encode J n = Inr b)"
  using assms by (induction kns arbitrary: m) fastforce+

lemma map_of_encode:
  assumes "omap (\<lambda>(nk, n). obind (node_encode J n) (\<lambda>b. Inr (nk, b))) (node_list nodes) = Inr m" "finite (dom nodes)"
  shows "map_of m k = None \<longleftrightarrow> nodes k = None"
    and "map_of m k = Some b \<Longrightarrow> \<exists>n. nodes k = Some n \<and> node_encode J n = Inr b"
proof -
  note enc = omap_encode [OF assms(1)]
  have "fst ` set m = fst ` set (node_list nodes)" using enc by (metis list.set_map)
  then show "map_of m k = None \<longleftrightarrow> nodes k = None" using set_node_list [OF assms(2)] by (force simp: map_of_eq_None_iff)
  show "\<exists>n. nodes k = Some n \<and> node_encode J n = Inr b" if "map_of m k = Some b"
    using enc map_of_SomeD [OF that] set_node_list [OF assms(2)] by fastforce
qed

text \<open>A flush shows nothing, whether it succeeds, fails, or fails half-way.\<close>

lemma state_flush_any:
  fixes J :: "('k, 'h::linorder) jelly"
  assumes C: "crypto_ok (jcrypto J)" and bcs: "bcs_ok J" and N: "node_store_writes N" and inv: "state_inv J N S t"
    and run: "state_flush J N t = (t', r)"
  shows "state_inv J N S t' \<and> st_updates t' = st_updates t \<and>
    (r = Inr () \<longrightarrow> storage_root_hash t' = smt J 256 S \<and> sc_change_set (st_cache t') = batch_default) \<and>
    (r \<noteq> Inr () \<longrightarrow> storage_root_hash t' = storage_root_hash t \<and> st_cache t' = st_cache t)"
proof -
  let ?nodes = "batch_nodes (sc_change_set (st_cache t))"
  have i: "state_root t = smt J 256 S" "leaves_ok J 0 S" "\<forall>l \<in> S. leaf_wf J l" "stores J (cached_tree_reader J N t) S"
    "\<And>k nd. ?nodes k = Some nd \<Longrightarrow> node_typed J k nd" "finite (dom ?nodes)" using inv by (simp_all add: state_inv_def)
  have root: "sc_root_hash (st_cache t) = smt J 256 S" using i(1) by (simp add: state_root_def)
  show ?thesis
  proof (cases "omap (\<lambda>(nk, n). obind (node_encode J n) (\<lambda>b. Inr (nk, b))) (node_list ?nodes)")
    case (Inl e)
    then show ?thesis using run inv by (auto simp add: state_flush_def change_sets_def)
  next
    case (Inr m)
    note enc = map_of_encode [OF Inr i(6)]
    obtain s' w where w: "store_write_nodes N (map_of m) (st_storage t) = (s', w)" by fastforce
    have kept: "store_get N s' k = store_get N (st_storage t) k" if "?nodes k = None" for k
      using node_store_writes.unwritten_get [OF N w] enc(1) that by blast
    show ?thesis
    proof (cases w)
      case (Inl e)
      then have t': "t' = t\<lparr>st_storage := s'\<rparr>" "r = Inl e"
        using run Inr w by (simp_all add: state_flush_def change_sets_def)
      have "cached_tree_reader J N t' k = cached_tree_reader J N t k" for k
        using kept [of k] by (cases "?nodes k") (simp_all add: cached_tree_reader_def t'(1))
      then have "cached_tree_reader J N t' = cached_tree_reader J N t" by (rule ext)
      then have "state_inv J N S t'" using i unfolding state_inv_def by (simp add: t'(1) state_root_def)
      then show ?thesis using t' by simp
    next
      case (Inr u)
      have t': "t' = t\<lparr>st_storage := s', storage_root_hash := smt J 256 S, st_cache := state_cache_reset (smt J 256 S) (st_cache t)\<rparr>"
        "r = Inr ()"
        using run \<open>omap _ _ = Inr m\<close> w Inr by (simp_all add: state_flush_def change_sets_def root)
      have w1: "store_write_nodes N (map_of m) (st_storage t) = (s', Inr ())" using w Inr by simp
      have "cached_tree_reader J N t' k = cached_tree_reader J N t k" for k
      proof (cases "?nodes k")
        case None
        then show ?thesis using kept [OF None]
          by (simp add: cached_tree_reader_def state_cache_reset_def batch_default_def t'(1))
      next
        case (Some n)
        then obtain b where b: "map_of m k = Some b" using enc(1) [of k] by auto
        then have "node_decode J b = Inr n"
          using enc(2) [OF b] Some node_decode_encode [OF C bcs i(5) [OF Some]] by auto
        then show ?thesis using node_store_writes.write_ok [OF N w1, of k] b Some
          by (simp add: cached_tree_reader_def state_cache_reset_def batch_default_def t'(1))
      qed
      then have "cached_tree_reader J N t' = cached_tree_reader J N t" by (rule ext)
      then have "state_inv J N S t'" using i unfolding state_inv_def
        by (simp add: t'(1) state_root_def state_cache_reset_def batch_default_def)
      then show ?thesis using t' by (simp add: state_cache_reset_def)
    qed
  qed
qed

lemma state_flush_inv:
  fixes J :: "('k, 'h::linorder) jelly"
  assumes C: "crypto_ok (jcrypto J)" and bcs: "bcs_ok J" "\<And>l. \<exists>out. leaf_to_bytes J l = Inr out"
    and N: "state_node_store N" and inv: "state_inv J N S t"
  shows "\<exists>t'. state_flush J N t = (t', Inr ()) \<and> state_inv J N S t' \<and> st_updates t' = st_updates t \<and>
    storage_root_hash t' = smt J 256 S \<and> sc_change_set (st_cache t') = batch_default"
proof -
  let ?nodes = "batch_nodes (sc_change_set (st_cache t))"
  have i: "\<And>k nd. ?nodes k = Some nd \<Longrightarrow> node_typed J k nd" "finite (dom ?nodes)" using inv by (simp_all add: state_inv_def)
  have "node_encode J n = Inr (projr (node_encode J n))" if "(k, n) \<in> set (node_list ?nodes)" for k n
    using node_encode_total [OF C bcs(2), of k n] i(1) that set_node_list [OF i(2)] by (metis sum.sel(2))
  then have "omap (\<lambda>(nk, n). obind (node_encode J n) (\<lambda>b. Inr (nk, b))) (node_list ?nodes) =
      Inr (map (\<lambda>(nk, n). (nk, projr (node_encode J n))) (node_list ?nodes))"
    by (intro omap_total) (auto simp: case_prod_beta)
  moreover obtain s' where "store_write_nodes N
      (map_of (map (\<lambda>(nk, n). (nk, projr (node_encode J n))) (node_list ?nodes))) (st_storage t) = (s', Inr ())"
    using state_node_store.write_total [OF N] by blast
  ultimately obtain t' where t': "state_flush J N t = (t', Inr ())" by (simp add: state_flush_def change_sets_def)
  have "node_store_writes N" using N by (simp add: state_node_store_def)
  from state_flush_any [OF C bcs(1) this inv t'] show ?thesis using t' by blast
qed

end
