(* ===== verification/State_Tree_Spec.thy ===== *)
theory State_Tree_Spec
  imports State_Tree
begin

text \<open>
  What the state tree promises: a map of committed values and a map of pending changes. A run
  of its operations, from the empty tree over any node store, gives at every moment the
  values of these two maps, and a proof for every committed one.
\<close>

section \<open>Definitions\<close>

datatype 'k state_op = OpPut 'k Blob | OpRemove 'k | OpCommit | OpFlush

fun state_exec ::
  "('k::linorder, 'h::linorder) jelly \<Rightarrow> ('s, 'h) StateNodeStore \<Rightarrow> 'k state_op \<Rightarrow> ('s, 'k, 'h) StateTree
    \<Rightarrow> ('s, 'k, 'h) StateTree jelly_result" where
  "state_exec J N (OpPut k v) t = Inr (state_put k v t)"
| "state_exec J N (OpRemove k) t = Inr (state_remove k t)"
| "state_exec J N OpCommit t = (case state_commit J N t of (t', r) \<Rightarrow> obind r (\<lambda>_. Inr t'))"
| "state_exec J N OpFlush t = (case state_flush J N t of (t', r) \<Rightarrow> obind r (\<lambda>_. Inr t'))"

fun state_run ::
  "('k::linorder, 'h::linorder) jelly \<Rightarrow> ('s, 'h) StateNodeStore \<Rightarrow> 'k state_op list \<Rightarrow> ('s, 'k, 'h) StateTree
    \<Rightarrow> ('s, 'k, 'h) StateTree jelly_result" where
  "state_run J N [] t = Inr t"
| "state_run J N (x # xs) t = obind (state_exec J N x t) (state_run J N xs)"

text \<open>An operation by a caller that goes on after an error, with whatever the operation has left behind.\<close>

fun state_try ::
  "('k::linorder, 'h::linorder) jelly \<Rightarrow> ('s, 'h) StateNodeStore \<Rightarrow> 'k state_op \<Rightarrow> ('s, 'k, 'h) StateTree
    \<Rightarrow> ('s, 'k, 'h) StateTree" where
  "state_try J N (OpPut k v) t = state_put k v t"
| "state_try J N (OpRemove k) t = state_remove k t"
| "state_try J N OpCommit t = fst (state_commit J N t)"
| "state_try J N OpFlush t = fst (state_flush J N t)"

type_synonym 'k state_spec = "('k \<Rightarrow> Blob option) \<times> ('k \<Rightarrow> Blob option option)"

definition spec_lookup :: "'k state_spec \<Rightarrow> 'k \<Rightarrow> Blob option" where
  "spec_lookup a k = (case snd a k of Some v \<Rightarrow> v | None \<Rightarrow> fst a k)"

fun spec_op :: "'k state_op \<Rightarrow> 'k state_spec \<Rightarrow> 'k state_spec" where
  "spec_op (OpPut k v) a = (fst a, (snd a)(k \<mapsto> Some v))"
| "spec_op (OpRemove k) a = (fst a, (snd a)(k \<mapsto> None))"
| "spec_op OpCommit a = (spec_lookup a, Map.empty)"
| "spec_op OpFlush a = a"

definition spec_run :: "'k state_op list \<Rightarrow> 'k state_spec" where
  "spec_run xs = fold spec_op xs (Map.empty, Map.empty)"

text \<open>The keys and the values of a run.\<close>

fun op_keys :: "'k state_op \<Rightarrow> 'k set" where
  "op_keys (OpPut k v) = {k}"
| "op_keys (OpRemove k) = {k}"
| "op_keys _ = {}"

fun op_blobs :: "'k state_op \<Rightarrow> Blob set" where
  "op_blobs (OpPut k v) = {v}"
| "op_blobs _ = {}"

text \<open>The leaves after a run, and that the trees on the way have no two nodes of the same hash.\<close>

fun run_leaves ::
  "('k::linorder, 'h) jelly \<Rightarrow> 'k state_op list \<Rightarrow> ('k \<times> Blob option) list \<Rightarrow> ('k, 'h) leaves \<Rightarrow> ('k, 'h) leaves" where
  "run_leaves J [] u S = S"
| "run_leaves J (OpPut k v # xs) u S = run_leaves J xs (btree_insert k (Some v) u) S"
| "run_leaves J (OpRemove k # xs) u S = run_leaves J xs (btree_insert k None u) S"
| "run_leaves J (OpCommit # xs) u S = run_leaves J xs [] (apply_updates J u S)"
| "run_leaves J (OpFlush # xs) u S = run_leaves J xs u S"

fun no_collisions ::
  "('k::linorder, 'h) jelly \<Rightarrow> 'k state_op list \<Rightarrow> ('k \<times> Blob option) list \<Rightarrow> ('k, 'h) leaves \<Rightarrow> bool" where
  "no_collisions J [] u S \<longleftrightarrow> True"
| "no_collisions J (OpPut k v # xs) u S \<longleftrightarrow> no_collisions J xs (btree_insert k (Some v) u) S"
| "no_collisions J (OpRemove k # xs) u S \<longleftrightarrow> no_collisions J xs (btree_insert k None u) S"
| "no_collisions J (OpCommit # xs) u S \<longleftrightarrow>
     no_collision J (set (trace J u S)) \<and> no_collisions J xs [] (apply_updates J u S)"
| "no_collisions J (OpFlush # xs) u S \<longleftrightarrow> no_collisions J xs u S"

section \<open>Pending changes\<close>

lemma map_of_btree_insert: "map_of (btree_insert k v kvs) = (map_of kvs)(k \<mapsto> v)"
  if "sorted (map fst kvs)" "distinct (map fst kvs)"
  using that by (induction k v kvs rule: btree_insert.induct) (auto simp: fun_eq_iff)

lemma set_btree_insert: "set (btree_insert k v kvs) \<subseteq> insert (k, v) (set kvs)" "fst ` set (btree_insert k v kvs) = insert k (fst ` set kvs)"
  by (induction k v kvs rule: btree_insert.induct) auto

lemma btree_insert_sorted:
  "sorted (map fst kvs) \<Longrightarrow> distinct (map fst kvs) \<Longrightarrow>
    sorted (map fst (btree_insert k v kvs)) \<and> distinct (map fst (btree_insert k v kvs))"
proof (induction k v kvs rule: btree_insert.induct)
  case (2 k v k' v' kvs)
  then show ?case using set_btree_insert(2) [of k v kvs] by (auto simp: image_iff dest: less_le_trans)
qed simp

section \<open>The committed values\<close>

definition rep :: "('k, 'h) leaves \<Rightarrow> ('k \<Rightarrow> Blob option) \<Rightarrow> bool" where
  "rep S M \<longleftrightarrow> (\<forall>k b. M k = Some b \<longleftrightarrow> (\<exists>l \<in> S. raw_key l = k \<and> blob l = b))"

lemma repD: "rep S M \<Longrightarrow> l \<in> S \<Longrightarrow> M (raw_key l) = Some (blob l)"
  unfolding rep_def by blast

lemma rep_update:
  assumes wf: "\<forall>l \<in> S. leaf_wf J l" and K: "inj_on (key_hash J) K" "raw_key ` S \<subseteq> K" "key \<in> K"
    and B: "inj_on (blob_crypto_hash J) B" "blob ` S \<subseteq> B" "set_option b \<subseteq> B" and M: "rep S M"
  shows "rep (leaf_update J key b S) (M(key := b))" "raw_key ` leaf_update J key b S \<subseteq> K" "blob ` leaf_update J key b S \<subseteq> B"
proof -
  have sk: "same_key J key l \<longleftrightarrow> raw_key l = key" if "l \<in> S" for l
    using K that by (auto simp: same_key_def inj_on_def)
  have "rep (leaf_update J key b S) (M(key := b)) \<and> raw_key ` leaf_update J key b S \<subseteq> K \<and> blob ` leaf_update J key b S \<subseteq> B"
  proof (cases b)
    case None
    have "leaf_update J key b S = {l \<in> S. raw_key l \<noteq> key}" using sk None by (auto simp: leaf_update_def)
    then show ?thesis using M K(2) B(2) None by (auto simp: rep_def)
  next
    case (Some v)
    show ?thesis
    proof (cases "\<exists>l \<in> S. same_key J key l \<and> blob_hash l = blob_crypto_hash J v")
      case True
      then obtain l where l: "l \<in> S" "raw_key l = key" "blob_crypto_hash J (blob l) = blob_crypto_hash J v"
        using wf sk by (auto simp: leaf_wf_def)
      then have "blob l = v" using B Some by (auto simp: inj_on_def)
      then have "M(key := b) = M" using repD [OF M l(1)] l(2) Some by auto
      moreover have "leaf_update J key b S = S" using True Some by (simp add: leaf_update_def)
      ultimately show ?thesis using M K(2) B(2) by simp
    next
      case False
      then have "leaf_update J key b S = insert (leaf_new J key v) {l \<in> S. raw_key l \<noteq> key}"
        using sk Some by (auto simp: leaf_update_def)
      then show ?thesis using M K(2,3) B(2,3) Some by (auto simp: rep_def leaf_new_def)
    qed
  qed
  then show "rep (leaf_update J key b S) (M(key := b))" "raw_key ` leaf_update J key b S \<subseteq> K"
    "blob ` leaf_update J key b S \<subseteq> B" by blast+
qed

lemma rep_updates:
  assumes "\<forall>l \<in> S. leaf_wf J l" "inj_on (key_hash J) K" "raw_key ` S \<subseteq> K" "fst ` set u \<subseteq> K"
    "inj_on (blob_crypto_hash J) B" "blob ` S \<subseteq> B" "\<Union> (set_option ` snd ` set u) \<subseteq> B" "rep S M" "distinct (map fst u)"
  shows "rep (apply_updates J u S) (spec_lookup (M, map_of u)) \<and> raw_key ` apply_updates J u S \<subseteq> K \<and> blob ` apply_updates J u S \<subseteq> B"
  using assms
proof (induction J u S arbitrary: M rule: apply_updates.induct)
  case (1 J S)
  then show ?case by (simp add: spec_lookup_def [abs_def])
next
  case (2 J key b u S)
  have k: "key \<in> K" "set_option b \<subseteq> B" using 2(5,8) by auto
  note up = rep_update [OF 2(2,3,4) k(1) 2(6,7) k(2) 2(9)]
  have "key \<notin> dom (map_of u)" using 2(10) by (auto simp: dom_map_of_conv_image_fst)
  then have "spec_lookup (M(key := b), map_of u) = spec_lookup (M, map_of ((key, b) # u))"
    by (auto simp: spec_lookup_def fun_eq_iff split: option.splits)
  moreover have "rep (apply_updates J u (leaf_update J key b S)) (spec_lookup (M(key := b), map_of u)) \<and>
    raw_key ` apply_updates J u (leaf_update J key b S) \<subseteq> K \<and> blob ` apply_updates J u (leaf_update J key b S) \<subseteq> B"
    using 2(5,8,10) by (intro 2(1) leaf_wf_update up 2) auto
  ultimately show ?case by (simp only: apply_updates.simps)
qed

section \<open>Refinement\<close>

definition refines ::
  "('k::linorder, 'h) jelly \<Rightarrow> ('s, 'h) StateNodeStore \<Rightarrow> 'k set \<Rightarrow> Blob set \<Rightarrow> ('k, 'h) leaves
    \<Rightarrow> ('s, 'k, 'h) StateTree \<Rightarrow> 'k state_spec \<Rightarrow> bool" where
  "refines J N K B S t a \<longleftrightarrow>
     state_inv J N S t \<and> rep S (fst a) \<and> raw_key ` S \<subseteq> K \<and> blob ` S \<subseteq> B \<and>
     sorted (map fst (st_updates t)) \<and> distinct (map fst (st_updates t)) \<and> map_of (st_updates t) = snd a \<and>
     fst ` set (st_updates t) \<subseteq> K \<and> \<Union> (set_option ` snd ` set (st_updates t)) \<subseteq> B"

lemma refines_new: "crypto_ok (jcrypto J) \<Longrightarrow> refines J N K B {} (state_tree_new J s None) (Map.empty, Map.empty)"
  using state_tree_new_inv [of J N s] by (simp add: refines_def rep_def state_tree_new_def Let_def)

lemma refines_pending:
  assumes "refines J N K B S t a" "k \<in> K" "set_option v \<subseteq> B"
  shows "refines J N K B S (t\<lparr>st_updates := btree_insert k v (st_updates t)\<rparr>) (fst a, (snd a)(k \<mapsto> v))"
proof -
  let ?u = "st_updates t"
  have u: "sorted (map fst ?u)" "distinct (map fst ?u)" "fst ` set ?u \<subseteq> K" "\<Union> (set_option ` snd ` set ?u) \<subseteq> B"
    using assms(1) by (simp_all add: refines_def)
  have "fst ` set (btree_insert k v ?u) \<subseteq> K" using set_btree_insert(2) [of k v ?u] u(3) assms(2) by simp
  moreover have "snd ` set (btree_insert k v ?u) \<subseteq> insert v (snd ` set ?u)" using set_btree_insert(1) [of k v ?u] by auto
  then have "\<Union> (set_option ` snd ` set (btree_insert k v ?u)) \<subseteq> B" using u(4) assms(3) by blast
  ultimately show ?thesis
    using assms(1) btree_insert_sorted [OF u(1,2), of k v] map_of_btree_insert [OF u(1,2), of k v]
    by (simp add: refines_def)
qed

lemma refines_commit:
  fixes J :: "('k::linorder, 'h::linorder) jelly"
  assumes C: "crypto_ok (jcrypto J)" and K: "inj_on (key_hash J) K" and B: "inj_on (blob_crypto_hash J) B"
    and r: "refines J N K B S t a" and nc: "no_collision J (set (trace J (st_updates t) S))"
  shows "\<exists>t'. state_commit J N t = (t', Inr (smt J 256 (apply_updates J (st_updates t) S))) \<and>
    refines J N K B (apply_updates J (st_updates t) S) t' (spec_lookup a, Map.empty) \<and> st_updates t' = []"
proof -
  have i: "state_inv J N S t" "rep S (fst a)" "raw_key ` S \<subseteq> K" "blob ` S \<subseteq> B" "distinct (map fst (st_updates t))"
    "map_of (st_updates t) = snd a" "fst ` set (st_updates t) \<subseteq> K" "\<Union> (set_option ` snd ` set (st_updates t)) \<subseteq> B"
    using r by (simp_all add: refines_def)
  have wf: "\<forall>l \<in> S. leaf_wf J l" using i(1) by (simp add: state_inv_def)
  have "inj_on (key_hash J) (set (map fst (st_updates t)))" using K i(7) by (auto intro: inj_on_subset)
  then have "distinct (map (key_hash J) (map fst (st_updates t)))" using i(5) distinct_map by blast
  then have d: "distinct (map (\<lambda>(key, b). key_hash J key) (st_updates t))" by (simp add: comp_def case_prod_unfold)
  from state_commit_inv [OF C i(1) d nc refl] obtain t' where
    t': "state_commit J N t = (t', Inr (smt J 256 (apply_updates J (st_updates t) S)))"
      "state_inv J N (apply_updates J (st_updates t) S) t'" "st_updates t' = []" by blast
  have "spec_lookup a = spec_lookup (fst a, map_of (st_updates t))" using i(6) by simp
  then have "refines J N K B (apply_updates J (st_updates t) S) t' (spec_lookup a, Map.empty)"
    using rep_updates [OF wf K i(3,7) B i(4,8,2,5)] t'(2,3) by (simp add: refines_def)
  then show ?thesis using t' by blast
qed

lemma refines_flush:
  fixes J :: "('k::linorder, 'h::linorder) jelly"
  assumes "crypto_ok (jcrypto J)" "bcs_ok J" "node_store_writes N" "refines J N K B S t a" "state_flush J N t = (t', r)"
  shows "refines J N K B S t' a \<and> st_updates t' = st_updates t"
proof -
  have i: "state_inv J N S t" using assms(4) by (simp add: refines_def)
  show ?thesis using state_flush_any [OF assms(1-3) i assms(5)] assms(4) by (simp add: refines_def)
qed

text \<open>One operation, whose flush may fail.\<close>

lemma refines_try:
  fixes J :: "('k::linorder, 'h::linorder) jelly"
  assumes C: "crypto_ok (jcrypto J)" and bcs: "bcs_ok J" and N: "node_store_writes N"
    and K: "inj_on (key_hash J) K" and B: "inj_on (blob_crypto_hash J) B" and r: "refines J N K B S t a"
    and x: "op_keys x \<subseteq> K" "op_blobs x \<subseteq> B" "no_collisions J (x # xs) (st_updates t) S"
  shows "\<exists>S'. refines J N K B S' (state_try J N x t) (spec_op x a) \<and>
    no_collisions J xs (st_updates (state_try J N x t)) S' \<and>
    run_leaves J (x # xs) (st_updates t) S = run_leaves J xs (st_updates (state_try J N x t)) S' \<and>
    (x = OpCommit \<longrightarrow> (\<exists>h. snd (state_commit J N t) = Inr h))"
proof (cases x)
  case (OpPut k v)
  then have k: "k \<in> K" "set_option (Some v) \<subseteq> B" using x by auto
  show ?thesis using refines_pending [OF r k] x(3) OpPut by (auto simp: state_put_def)
next
  case (OpRemove k)
  then have k: "k \<in> K" "set_option None \<subseteq> B" using x by auto
  show ?thesis using refines_pending [OF r k] x(3) OpRemove by (auto simp: state_remove_def)
next
  case OpCommit
  then have nc: "no_collision J (set (trace J (st_updates t) S))" using x(3) by simp
  show ?thesis using refines_commit [OF C K B r nc] x(3) OpCommit by fastforce
next
  case OpFlush
  obtain t' e where t': "state_flush J N t = (t', e)" by fastforce
  show ?thesis using refines_flush [OF C bcs N r t'] x(3) OpFlush t' by auto
qed

lemma refines_try_run:
  fixes J :: "('k::linorder, 'h::linorder) jelly"
  assumes C: "crypto_ok (jcrypto J)" and bcs: "bcs_ok J" and N: "node_store_writes N"
    and K: "inj_on (key_hash J) K" and B: "inj_on (blob_crypto_hash J) B"
  shows "refines J N K B S t a \<Longrightarrow> \<Union> (op_keys ` set xs) \<subseteq> K \<Longrightarrow> \<Union> (op_blobs ` set xs) \<subseteq> B \<Longrightarrow>
    no_collisions J xs (st_updates t) S \<Longrightarrow>
    refines J N K B (run_leaves J xs (st_updates t) S) (fold (state_try J N) xs t) (fold spec_op xs a)"
proof (induction xs arbitrary: S t a)
  case (Cons x xs)
  have x: "op_keys x \<subseteq> K" "op_blobs x \<subseteq> B" and xs: "\<Union> (op_keys ` set xs) \<subseteq> K" "\<Union> (op_blobs ` set xs) \<subseteq> B"
    using Cons.prems(2,3) by auto
  from refines_try [OF C bcs N K B Cons.prems(1) x Cons.prems(4)] obtain S' where
    S': "refines J N K B S' (state_try J N x t) (spec_op x a)" "no_collisions J xs (st_updates (state_try J N x t)) S'"
      "run_leaves J (x # xs) (st_updates t) S = run_leaves J xs (st_updates (state_try J N x t)) S'" by blast
  show ?case using Cons.IH [OF S'(1) xs S'(2)] S'(3) by simp
qed simp

text \<open>Over a store whose writes succeed no operation fails.\<close>

lemma state_run_try:
  fixes J :: "('k::linorder, 'h::linorder) jelly"
  assumes C: "crypto_ok (jcrypto J)" and bcs: "bcs_ok J" "\<And>l. \<exists>out. leaf_to_bytes J l = Inr out" and N: "state_node_store N"
    and K: "inj_on (key_hash J) K" and B: "inj_on (blob_crypto_hash J) B"
  shows "refines J N K B S t a \<Longrightarrow> \<Union> (op_keys ` set xs) \<subseteq> K \<Longrightarrow> \<Union> (op_blobs ` set xs) \<subseteq> B \<Longrightarrow>
    no_collisions J xs (st_updates t) S \<Longrightarrow> state_run J N xs t = Inr (fold (state_try J N) xs t)"
proof (induction xs arbitrary: S t a)
  case (Cons x xs)
  have x: "op_keys x \<subseteq> K" "op_blobs x \<subseteq> B" and xs: "\<Union> (op_keys ` set xs) \<subseteq> K" "\<Union> (op_blobs ` set xs) \<subseteq> B"
    using Cons.prems(2,3) by auto
  have N': "node_store_writes N" using N by (simp add: state_node_store_def)
  from refines_try [OF C bcs(1) N' K B Cons.prems(1) x Cons.prems(4)] obtain S' where
    S': "refines J N K B S' (state_try J N x t) (spec_op x a)" "no_collisions J xs (st_updates (state_try J N x t)) S'"
      "x = OpCommit \<longrightarrow> (\<exists>h. snd (state_commit J N t) = Inr h)" by blast
  have inv: "state_inv J N S t" using Cons.prems(1) by (simp add: refines_def)
  have "state_exec J N x t = Inr (state_try J N x t)"
    using S'(3) state_flush_inv [OF C bcs N inv] by (cases x) (auto split: prod.splits)
  then show ?case using Cons.IH [OF S'(1) xs S'(2)] by simp
qed simp

lemma refines_run:
  fixes J :: "('k::linorder, 'h::linorder) jelly"
  assumes C: "crypto_ok (jcrypto J)" and bcs: "bcs_ok J" "\<And>l. \<exists>out. leaf_to_bytes J l = Inr out" and N: "state_node_store N"
    and K: "inj_on (key_hash J) K" and B: "inj_on (blob_crypto_hash J) B" and r: "refines J N K B S t a"
    and xs: "\<Union> (op_keys ` set xs) \<subseteq> K" "\<Union> (op_blobs ` set xs) \<subseteq> B" "no_collisions J xs (st_updates t) S"
  shows "\<exists>t'. state_run J N xs t = Inr t' \<and> refines J N K B (run_leaves J xs (st_updates t) S) t' (fold spec_op xs a)"
proof -
  have N': "node_store_writes N" using N by (simp add: state_node_store_def)
  show ?thesis using state_run_try [OF C bcs N K B r xs] refines_try_run [OF C bcs(1) N' K B r xs] by simp
qed

lemma refines_get:
  fixes J :: "('k::linorder, 'h::linorder) jelly"
  assumes C: "crypto_ok (jcrypto J)" and b: "bits_ok J" and K: "inj_on (key_hash J) K" "key \<in> K" and r: "refines J N K B S t a"
  shows "state_get J N key t = Inr (spec_lookup a key)"
    and "\<exists>pf. state_get_with_proof J N key t = Inr (fst a key, pf) \<and>
      smp_verify J pf (state_root t) (key_hash J key) (fst a key) = Inr ()"
proof -
  have i: "state_inv J N S t" "rep S (fst a)" "raw_key ` S \<subseteq> K" "map_of (st_updates t) = snd a" using r by (simp_all add: refines_def)
  from state_get_with_proof_eq [OF C b i(1), of key] obtain v pf where
    v: "state_get_with_proof J N key t = Inr (v, pf)" "smp_verify J pf (state_root t) (key_hash J key) v = Inr ()"
      "\<And>b. v = Some b \<longleftrightarrow> (\<exists>l \<in> S. key_hash J (raw_key l) = key_hash J key \<and> blob l = b)" by blast
  have "key_hash J (raw_key l) = key_hash J key \<longleftrightarrow> raw_key l = key" if "l \<in> S" for l
    using K i(3) that by (auto simp: inj_on_def)
  then have "v = Some b \<longleftrightarrow> fst a key = Some b" for b using v(3) i(2) unfolding rep_def by metis
  then have "v = fst a key" by (metis not_None_eq)
  then show "\<exists>pf. state_get_with_proof J N key t = Inr (fst a key, pf) \<and>
      smp_verify J pf (state_root t) (key_hash J key) (fst a key) = Inr ()"
    and "state_get J N key t = Inr (spec_lookup a key)"
    using v i(4) by (auto simp: state_get_def spec_lookup_def split: option.splits)
qed

lemma try_from_new:
  fixes J :: "('k::linorder, 'h::linorder) jelly"
  assumes "crypto_ok (jcrypto J)" "bcs_ok J" "node_store_writes N"
    and K: "inj_on (key_hash J) (insert key (\<Union> (op_keys ` set xs)))"
    and B: "inj_on (blob_crypto_hash J) (\<Union> (op_blobs ` set xs))" and "no_collisions J xs [] {}"
  shows "refines J N (insert key (\<Union> (op_keys ` set xs))) (\<Union> (op_blobs ` set xs)) (run_leaves J xs [] {})
    (fold (state_try J N) xs (state_tree_new J s None)) (spec_run xs)"
proof -
  have "st_updates (state_tree_new J s None) = []" by (simp add: state_tree_new_def Let_def)
  then show ?thesis
    using refines_try_run [OF assms(1-3) K B refines_new [OF assms(1)] subset_insertI order_refl, of s] assms(6)
    by (simp add: spec_run_def)
qed

lemma run_from_new:
  fixes J :: "('k::linorder, 'h::linorder) jelly"
  assumes "crypto_ok (jcrypto J)" "bcs_ok J" "\<And>l. \<exists>out. leaf_to_bytes J l = Inr out" "state_node_store N"
    and K: "inj_on (key_hash J) (insert key (\<Union> (op_keys ` set xs)))"
    and B: "inj_on (blob_crypto_hash J) (\<Union> (op_blobs ` set xs))" and "no_collisions J xs [] {}"
  shows "\<exists>t. state_run J N xs (state_tree_new J s None) = Inr t \<and>
    refines J N (insert key (\<Union> (op_keys ` set xs))) (\<Union> (op_blobs ` set xs)) (run_leaves J xs [] {}) t (spec_run xs)"
proof -
  have "st_updates (state_tree_new J s None) = []" by (simp add: state_tree_new_def Let_def)
  then show ?thesis
    using refines_run [OF assms(1-4) K B refines_new [OF assms(1)] subset_insertI order_refl, of s] assms(7)
    by (simp add: spec_run_def)
qed

text \<open>A tree opened on the storage after a flush.\<close>

lemma refines_reopen:
  fixes J :: "('k::linorder, 'h::linorder) jelly"
  assumes "crypto_ok (jcrypto J)" "bcs_ok J" "node_store_writes N" "refines J N K B S t a" "state_flush J N t = (t', Inr ())"
  shows "state_root (state_tree_clone J t') = state_root t \<and> refines J N K B S (state_tree_clone J t') (fst a, Map.empty)"
proof -
  have i: "state_inv J N S t" and r: "rep S (fst a)" "raw_key ` S \<subseteq> K" "blob ` S \<subseteq> B" using assms(4) by (simp_all add: refines_def)
  from state_flush_any [OF assms(1-3) i assms(5)] have t': "state_inv J N S t'"
    "storage_root_hash t' = smt J 256 S" "sc_change_set (st_cache t') = batch_default" by blast+
  let ?c = "state_tree_clone J t'"
  have c: "st_storage ?c = st_storage t'" "sc_change_set (st_cache ?c) = batch_default" "state_root ?c = smt J 256 S" "st_updates ?c = []"
    using t'(2) by (simp_all add: state_tree_clone_def state_tree_new_def state_cache_new_def state_root_def Let_def)
  have "cached_tree_reader J N ?c = cached_tree_reader J N t'"
    by (rule ext, rule cached_tree_reader_cong) (simp_all add: c t'(3))
  then have "state_inv J N S ?c" using t'(1,3) c by (simp add: state_inv_def)
  then have "refines J N K B S ?c (fst a, Map.empty)" using r c(4) by (simp add: refines_def)
  moreover have "state_root ?c = state_root t" using i c(3) by (simp add: state_inv_def)
  ultimately show ?thesis by blast
qed

end
