(* ===== verification/Jellyfish_Sound.thy ===== *)
theory Jellyfish_Sound
  imports Jellyfish_Get
begin

text \<open>
  Soundness of sparse Merkle proofs: an accepted proof tells the truth about the tree with
  the root hash it was checked against, as long as no two of the hash inputs that occur in
  the tree and in the proof collide.
\<close>

section \<open>Hash inputs\<close>

datatype 'h pre = PEmpty | PLeaf 'h 'h | PInternal 'h 'h

fun hash_pre :: "('k, 'h) jelly \<Rightarrow> 'h pre \<Rightarrow> 'h" where
  "hash_pre J PEmpty = placeholder J"
| "hash_pre J (PLeaf k v) = sparse_leaf_hash J k v"
| "hash_pre J (PInternal a b) = sparse_internal_hash J a b"

text \<open>What is hashed at the root of the tree with \<open>n\<close> bits left, and in all of it.\<close>

definition root_pre :: "('k, 'h) jelly \<Rightarrow> nat \<Rightarrow> ('k, 'h) leaves \<Rightarrow> 'h pre" where
  "root_pre J n A =
     (if A = {} then PEmpty
      else if is_singleton A \<or> n = 0 then PLeaf (key_hash J (raw_key (the_elem A))) (blob_hash (the_elem A))
      else PInternal (smt J (n - 1) {l \<in> A. \<not> pbit (lpath J l) (256 - n)}) (smt J (n - 1) {l \<in> A. pbit (lpath J l) (256 - n)}))"

fun tree_pre :: "('k, 'h) jelly \<Rightarrow> nat \<Rightarrow> ('k, 'h) leaves \<Rightarrow> 'h pre set" where
  "tree_pre J 0 A = {root_pre J 0 A}"
| "tree_pre J (Suc n) A =
     (if A = {} \<or> is_singleton A then {root_pre J (Suc n) A}
      else insert (root_pre J (Suc n) A)
        (tree_pre J n {l \<in> A. \<not> pbit (lpath J l) (255 - n)} \<union> tree_pre J n {l \<in> A. pbit (lpath J l) (255 - n)}))"

text \<open>What the check of a proof hashes.\<close>

definition leaf_pre :: "'h SparseMerkleProof \<Rightarrow> 'h pre" where
  "leaf_pre pf = (case smp_leaf pf of None \<Rightarrow> PEmpty | Some (k, v) \<Rightarrow> PLeaf k v)"

fun climb_pre :: "('k, 'h) jelly \<Rightarrow> Nibble list \<Rightarrow> nat \<Rightarrow> 'h list \<Rightarrow> 'h \<Rightarrow> 'h pre set" where
  "climb_pre J p i [] h = {}"
| "climb_pre J p i (s # ss) h =
     insert (if pbit p i then PInternal s (climb J p (Suc i) ss h) else PInternal (climb J p (Suc i) ss h) s)
       (climb_pre J p (Suc i) ss h)"

definition proof_pre :: "('k, 'h) jelly \<Rightarrow> 'h \<Rightarrow> 'h SparseMerkleProof \<Rightarrow> 'h pre set" where
  "proof_pre J key pf =
     insert (leaf_pre pf) (climb_pre J (hpath J key) 0 (rev (smp_siblings pf)) (hash_pre J (leaf_pre pf)))"

lemma root_pre_in: "root_pre J n A \<in> tree_pre J n A"
  by (cases n) auto

lemma hash_root_pre: "hash_pre J (root_pre J n A) = smt J n A"
  by (cases n) (auto simp: root_pre_def leaf_crypto_hash_def is_singleton_iff)

text \<open>The bits left tell the leaves apart.\<close>

definition bits_apart :: "('k, 'h) jelly \<Rightarrow> nat \<Rightarrow> ('k, 'h) leaves \<Rightarrow> bool" where
  "bits_apart J i A \<longleftrightarrow>
     (\<forall>l \<in> A. \<forall>l' \<in> A. (\<forall>j. i \<le> j \<longrightarrow> j < 256 \<longrightarrow> pbit (lpath J l) j = pbit (lpath J l') j) \<longrightarrow> l = l')"

lemma bits_apart_down: "bits_apart J i A \<Longrightarrow> bits_apart J (Suc i) (bdown J p i 1 A)"
  unfolding bits_apart_def bdown_1 by (metis (mono_tags, lifting) Suc_leI le_neq_implies_less mem_Collect_eq)

lemma bits_apart_end: "bits_apart J i A \<Longrightarrow> 256 \<le> i \<Longrightarrow> small A"
proof -
  assume a: "bits_apart J i A" "256 \<le> i"
  have "l = l'" if "l \<in> A" "l' \<in> A" for l l' using a that unfolding bits_apart_def by (meson le_trans not_le)
  then show ?thesis unfolding small_def is_singleton_iff by blast
qed

lemma pbit_eqI:
  assumes C: "crypto_ok (jcrypto J)" and eq: "\<And>j. j < 256 \<Longrightarrow> pbit (lpath J l) j = pbit (lpath J l') j"
  shows "lpath J l = lpath J l'"
proof (rule nth_equalityI)
  show "length (lpath J l) = length (lpath J l')" using C by simp
  fix d assume "d < length (lpath J l)"
  then have d: "d < 64" using C by simp
  show "lpath J l ! d = lpath J l' ! d"
  proof (rule bit_word_eqI)
    fix i :: nat
    have "bit (lpath J l ! d) i = bit (lpath J l' ! d) i" if i: "i < 4"
    proof -
      define k where "k = 3 - i"
      define j where "j = 4 * d + k"
      have "k < 4" "3 - k = i" using i by (simp_all add: k_def)
      then have "j < 256" "j div 4 = d" "3 - j mod 4 = i" using d by (auto simp: j_def)
      then show ?thesis using eq [of j] by (simp add: pbit_def)
    qed
    moreover have "\<not> bit (lpath J x ! d) i" if "4 \<le> i" for x using less_16_bit lpath_less [OF C d, of x] that by blast
    ultimately show "bit (lpath J l ! d) i = bit (lpath J l' ! d) i" by (cases "i < 4") auto
  qed
qed

lemma bits_apart_leaves:
  assumes "crypto_ok (jcrypto J)" "leaves_ok J 0 S"
  shows "bits_apart J 0 S"
  using assms(2) pbit_eqI [OF assms(1)] unfolding bits_apart_def leaves_ok_def inj_on_def by auto

section \<open>An accepted proof\<close>

lemma climb_sound:
  fixes J :: "('k, 'h) jelly"
  assumes inj: "inj_on (hash_pre J) T" and leaf: "x \<in> T" "\<And>a b. x \<noteq> PInternal a b"
    and "bits_apart J i A" "i + length ss \<le> 256" "tree_pre J (256 - i) A \<subseteq> T" "climb_pre J p i ss (hash_pre J x) \<subseteq> T"
      "smt J (256 - i) A = climb J p i ss (hash_pre J x)"
  shows "x = PEmpty \<and> bdown J p i (length ss) A = {} \<or>
    (\<exists>l. x = PLeaf (key_hash J (raw_key l)) (blob_hash l) \<and> bdown J p i (length ss) A = {l})"
  using assms(4-)
proof (induction ss arbitrary: i A)
  case Nil
  have "root_pre J (256 - i) A \<in> T" using root_pre_in Nil.prems(3) by blast
  then have r: "root_pre J (256 - i) A = x"
    using inj leaf(1) hash_root_pre [of J "256 - i" A] Nil.prems(5) by (auto dest: inj_onD)
  have "small A"
  proof (cases "i < 256")
    case True
    then show ?thesis using r leaf(2) by (auto simp: root_pre_def small_def split: if_splits)
  next
    case False
    then show ?thesis using bits_apart_end [OF Nil.prems(1)] by simp
  qed
  then show ?case using r by (auto simp: small_def root_pre_def is_singleton_iff)
next
  case (Cons s ss)
  let ?c = "climb J p (Suc i) ss (hash_pre J x)" and ?B = "bdown J p i 1 A"
  let ?pre = "if pbit p i then PInternal s ?c else PInternal ?c s"
  have i: "i < 256" "256 - i = Suc (255 - i)" "255 - (255 - i) = i" "256 - Suc i = 255 - i" using Cons.prems(2) by simp_all
  have "?pre \<in> T" "root_pre J (256 - i) A \<in> T" using Cons.prems(3,4) root_pre_in by auto
  moreover have "hash_pre J (root_pre J (256 - i) A) = hash_pre J ?pre"
    unfolding hash_root_pre Cons.prems(5) by simp
  ultimately have r: "root_pre J (256 - i) A = ?pre" using inj by (auto dest: inj_onD)
  then have big: "\<not> (A = {} \<or> is_singleton A)" by (auto simp: root_pre_def split: if_splits)
  have down: "?c = smt J (255 - i) ?B" 
    using r big i(1) unfolding bdown_1 by (cases "pbit p i") (auto simp: root_pre_def)
  have "tree_pre J (255 - i) ?B \<subseteq> T"
    using Cons.prems(3) big unfolding i(2) bdown_1 by (cases "pbit p i") (auto simp: i(3))
  then have ih: "x = PEmpty \<and> bdown J p (Suc i) (length ss) ?B = {} \<or>
      (\<exists>l. x = PLeaf (key_hash J (raw_key l)) (blob_hash l) \<and> bdown J p (Suc i) (length ss) ?B = {l})"
    using Cons.IH [OF bits_apart_down [OF Cons.prems(1)], of p] Cons.prems(2,4) down i(4) by simp
  show ?case using ih unfolding length_Cons bdown_Suc [of J p i "length ss" A] .
qed

lemma smp_verify_sound:
  fixes J :: "('k, 'h) jelly"
  assumes C: "crypto_ok (jcrypto J)" and b: "bits_ok J" and S: "leaves_ok J 0 S"
    and inj: "inj_on (hash_pre J) (tree_pre J 256 S \<union> proof_pre J key pf)"
    and acc: "smp_verify J pf (smt J 256 S) key v = Inr ()"
  shows "case v of
      Some b \<Rightarrow> \<exists>l \<in> S. key_hash J (raw_key l) = key \<and> blob_hash l = blob_crypto_hash J b
    | None \<Rightarrow> \<not> (\<exists>l \<in> S. key_hash J (raw_key l) = key)"
proof -
  let ?p = "hpath J key" and ?ss = "rev (smp_siblings pf)" and ?x = "leaf_pre pf"
  let ?T = "tree_pre J 256 S \<union> proof_pre J key pf" and ?B = "bdown J (hpath J key) 0 (length (smp_siblings pf)) S"
  have len: "length (smp_siblings pf) \<le> 256" and chk: "smp_check J pf key v = Inr ()"
    using acc by (auto simp: smp_verify_def LENGTH_IN_BITS_def)
  have cur: "(case smp_leaf pf of None \<Rightarrow> placeholder J | Some (k, vh) \<Rightarrow> sparse_leaf_hash J k vh) = hash_pre J ?x"
    by (auto simp: leaf_pre_def split: option.splits)
  have bits: "iter_bits J key = map (pbit ?p) [0..<256]" using b by (simp add: bits_ok_def)
  have root: "smt J 256 S = climb J ?p 0 ?ss (hash_pre J ?x)"
    using acc fold_climb [of ?ss J ?p "hash_pre J ?x"] len
    by (simp add: smp_verify_def LENGTH_IN_BITS_def cur Let_def bits)
  have x: "?x \<in> ?T" "?x \<noteq> PInternal a c" for a c by (auto simp: proof_pre_def leaf_pre_def split: option.splits)
  have sub: "0 + length ?ss \<le> 256" "tree_pre J (256 - 0) S \<subseteq> ?T" "climb_pre J ?p 0 ?ss (hash_pre J ?x) \<subseteq> ?T"
    "smt J (256 - 0) S = climb J ?p 0 ?ss (hash_pre J ?x)"
    using len root by (auto simp: proof_pre_def)
  have B: "?x = PEmpty \<and> ?B = {} \<or> (\<exists>l. ?x = PLeaf (key_hash J (raw_key l)) (blob_hash l) \<and> ?B = {l})"
    using climb_sound [OF inj x bits_apart_leaves [OF C S] sub] by simp
  have on: "l \<in> ?B" if "l \<in> S" "key_hash J (raw_key l) = key" for l using that by (simp add: bdown_def lpath_def)
  show ?thesis
  proof (cases v)
    case None
    have "\<not> (\<exists>l \<in> S. key_hash J (raw_key l) = key)"
    proof
      assume "\<exists>l \<in> S. key_hash J (raw_key l) = key"
      then obtain l where l: "l \<in> S" "key_hash J (raw_key l) = key" by blast
      then have "?x = PLeaf key (blob_hash l)" using B on [OF l] by auto
      then show False using chk None by (auto simp: leaf_pre_def smp_check_def split: option.splits)
    qed
    then show ?thesis using None by simp
  next
    case (Some w)
    then have "?x = PLeaf key (blob_crypto_hash J w)"
      using chk by (auto simp: leaf_pre_def smp_check_def split: option.splits)
    then obtain l where "key_hash J (raw_key l) = key" "blob_hash l = blob_crypto_hash J w" "?B = {l}" using B by auto
    moreover have "l \<in> S" using calculation(3) bdown_subset by blast
    ultimately show ?thesis using Some by auto
  qed
qed

end
