(* ===== verification/Jellyfish_Sample.thy ===== *)
theory Jellyfish_Sample
  imports State_Tree_Spec Jellyfish_Sound
begin

text \<open>
  A concrete tree, on which the statements about the jellyfish Merkle tree and the state tree
  are applied: two leaves whose keys differ in the first bit.
\<close>

section \<open>The concrete interface\<close>

lemma concat_nibble_bits: "concat (map nibble_bits ns) = map (pbit ns) [0..<4 * length ns]"
proof (induction ns)
  case (Cons n ns)
  have "[0..<4 * length (n # ns)] = [0, 1, 2, 3] @ map (\<lambda>i. i + 4) [0..<4 * length ns]"
    using upt_add_eq_append [of 0 4 "4 * length ns"] map_add_upt [of 4 "4 * length ns"]
    by (simp add: add.commute upt_rec [of _ 4])
  moreover have "pbit (n # ns) (i + 4) = pbit ns i" for i using div_add_self2 [of 4 i] by (simp add: pbit_def)
  ultimately show ?case using Cons by (simp add: pbit_def nibble_bits_def comp_def)
qed simp

lemma sample_bits_ok: "bits_ok sample_jelly"
proof -
  have "concat (map nibble_bits (hpath sample_jelly h)) = map (pbit (hpath sample_jelly h)) [0..<256]" for h
    using concat_nibble_bits [of "hpath sample_jelly h"] by (simp add: length_hpath [OF sample_jelly_ok(1)])
  then show ?thesis by (simp add: bits_ok_def sample_jelly_def hpath_def word_crypto_def)
qed

section \<open>Two leaves\<close>

definition sample_key :: hash256 where
  "sample_key = 2 ^ 255"

definition sample_a :: "(hash256, hash256) LeafNode" where
  "sample_a = leaf_new sample_jelly 0 [1]"

definition sample_b :: "(hash256, hash256) LeafNode" where
  "sample_b = leaf_new sample_jelly sample_key [2]"

lemma hash256_to_vec_Cons: "\<exists>bs. hash256_to_vec w = ucast (drop_bit 248 w) # bs"
proof -
  have "[0..<32] = 0 # [1..<32]" using upt_conv_Cons [of 0 32] by simp
  then show ?thesis unfolding hash256_to_vec_def by simp
qed

lemma sample_path_0: "lpath sample_jelly l ! 0 = high (ucast (drop_bit 248 (raw_key l)))"
  using hash256_to_vec_Cons [of "raw_key l"] by (auto simp: lpath_def hpath_def sample_jelly_def word_crypto_def)

lemma sample_paths: "lpath sample_jelly sample_a ! 0 = 0" "lpath sample_jelly sample_b ! 0 = 8"
  unfolding sample_path_0 by (simp_all add: sample_a_def sample_b_def sample_key_def leaf_new_def high_def shr_def)

lemma sample_neq: "sample_a \<noteq> sample_b"
  using sample_paths by auto

lemma sample_updates:
  "leaf_update sample_jelly 0 (Some [1]) {} = {sample_a}"
  "leaf_update sample_jelly sample_key (Some [2]) {sample_a} = {sample_a, sample_b}"
  "leaf_update sample_jelly 0 None {sample_a} = {}"
  by (auto simp: leaf_update_def same_key_def sample_a_def sample_b_def sample_key_def leaf_new_def sample_jelly_def)

lemma sample_leaves_ok: "S \<subseteq> {sample_a, sample_b} \<Longrightarrow> leaves_ok sample_jelly 0 S"
proof (rule leaves_ok_mono [of _ _ "{sample_a, sample_b}"])
  have "lpath sample_jelly sample_a \<noteq> lpath sample_jelly sample_b" using sample_paths by auto
  then show "leaves_ok sample_jelly 0 {sample_a, sample_b}" by (auto simp: leaves_ok_def)
qed

lemma sample_key_neq: "sample_key \<noteq> 0" "0 < sample_key"
  by (simp_all add: sample_key_def)

lemma sample_leaf_wf: "l \<in> {sample_a, sample_b} \<Longrightarrow> leaf_wf sample_jelly l"
  by (auto simp: leaf_wf_def sample_a_def sample_b_def leaf_new_def)

lemma sample_forks: "forks sample_jelly 0 0 sample_a sample_b"
  using sample_paths by (simp add: forks_def)

lemma sample_live:
  "live sample_jelly 0 {sample_a, sample_b} = {(0, {sample_a, sample_b}), (0, {sample_a}), (0, {sample_b})}"
  using live_fork [OF sample_jelly_ok(1) sample_forks, of 0] sample_neq by (auto simp: nid_def is_singleton_iff)

lemma sample_smt:
  "smt sample_jelly 256 {sample_a, sample_b} =
    sparse_internal_hash sample_jelly (leaf_crypto_hash sample_jelly sample_a) (leaf_crypto_hash sample_jelly sample_b)"
proof -
  have b: "\<not> pbit (lpath sample_jelly sample_a) 0" "pbit (lpath sample_jelly sample_b) 0"
    using sample_paths by (simp_all add: pbit_def bit_numeral_rec)
  have "{l \<in> {sample_a, sample_b}. \<not> pbit (lpath sample_jelly l) (255 - 255)} = {sample_a}"
    "{l \<in> {sample_a, sample_b}. pbit (lpath sample_jelly l) (255 - 255)} = {sample_b}" using b by auto
  moreover have "\<not> is_singleton {sample_a, sample_b}" using sample_neq by (auto simp: is_singleton_iff)
  moreover have "(256 :: nat) = Suc 255" by simp
  ultimately show ?thesis by (simp only: smt.simps smt_singleton insert_not_empty if_False)
qed

lemma sample_placeholder: "(ucast (drop_bit 248 w) :: u8) \<noteq> 83 \<Longrightarrow> w \<noteq> placeholder sample_jelly"
proof -
  obtain h where "(create_literal_hash word_crypto ''SPARSE_MERKLE_PLACEHOLDER_HASH'' :: (hash256, unit) outcome) = Inr h"
    "to_vec word_crypto h = map of_char ''SPARSE_MERKLE_PLACEHOLDER_HASH'' @
      replicate (HASH_LENGTH - length ''SPARSE_MERKLE_PLACEHOLDER_HASH'') 0"
    using create_literal_hash_ok [OF word_crypto_ok, of "''SPARSE_MERKLE_PLACEHOLDER_HASH''"] by (auto simp: HASH_LENGTH_def)
  then have "hd (hash256_to_vec (placeholder sample_jelly)) = 83"
    by (simp add: SPARSE_MERKLE_PLACEHOLDER_HASH_def sample_jelly_def word_crypto_def)
  then have "(ucast (drop_bit 248 (placeholder sample_jelly)) :: u8) = 83" 
    using hash256_to_vec_Cons [of "placeholder sample_jelly"] by auto
  then show "(ucast (drop_bit 248 w) :: u8) \<noteq> 83 \<Longrightarrow> w \<noteq> placeholder sample_jelly" by auto
qed

lemma sample_values:
  "leaf_crypto_hash sample_jelly sample_a = 19813" "leaf_crypto_hash sample_jelly sample_b = 2 ^ 255 + 19824"
  "sparse_internal_hash sample_jelly x y = 3 * x + 5 * y + 1"
  by (simp_all add: leaf_crypto_hash_def sample_a_def sample_b_def sample_key_def leaf_new_def sample_jelly_def)

lemma sample_hashes:
  "distinct [placeholder sample_jelly, leaf_crypto_hash sample_jelly sample_a, leaf_crypto_hash sample_jelly sample_b,
    sparse_internal_hash sample_jelly (leaf_crypto_hash sample_jelly sample_a) (leaf_crypto_hash sample_jelly sample_b)]"
proof -
  have "(19813 :: hash256) \<noteq> placeholder sample_jelly" by (rule sample_placeholder) simp
  moreover have "2 ^ 255 + 19824 \<noteq> placeholder sample_jelly" by (rule sample_placeholder) simp
  moreover have "3 * 19813 + 5 * (2 ^ 255 + 19824) + 1 \<noteq> placeholder sample_jelly" by (rule sample_placeholder) simp
  ultimately show ?thesis unfolding sample_values by simp
qed

lemma sample_no_collision:
  assumes "Ss \<subseteq> {{}, {sample_a}, {sample_a, sample_b}}"
  shows "no_collision sample_jelly Ss"
proof -
  let ?J = sample_jelly and ?ab = "{sample_a, sample_b}"
  have h: "node_hash ?J (cnode ?J 0 S) = Inr (smt ?J 256 S)" if "S \<subseteq> ?ab" for S
    using node_hash_cnode [OF sample_jelly_ok(1) sample_leaves_ok [OF that]] by simp
  have "inj_on (smt ?J 256) {{}, {sample_a}, {sample_b}, ?ab}"
    using sample_hashes sample_neq by (auto simp: inj_on_def sample_smt)
  then have "inj_on (\<lambda>S. node_hash ?J (cnode ?J 0 S)) {{}, {sample_a}, {sample_b}, ?ab}"
    using h by (auto simp: inj_on_def)
  then have "inj_on (node_hash ?J) (cnode ?J 0 ` {{}, {sample_a}, {sample_b}, ?ab})"
    by (intro inj_on_imageI) (simp only: comp_def)
  moreover have "tree_nodes ?J S \<subseteq> cnode ?J 0 ` {{}, {sample_a}, {sample_b}, ?ab}" if "S \<in> Ss" for S
  proof -
    have "S = {} \<or> S = {sample_a} \<or> S = ?ab" using that assms by blast
    then have "live ?J 0 S \<subseteq> Pair 0 ` {{sample_a}, {sample_b}, ?ab}"
      by (elim disjE) (simp_all only: live_empty live_singleton sample_live nid_def is_singletonI if_True, blast+)
    then have "node_of ?J ` live ?J 0 S \<subseteq> cnode ?J 0 ` {{sample_a}, {sample_b}, ?ab}" unfolding node_of_def by force
    moreover have "Null = cnode ?J 0 {}" by (simp add: cnode_def)
    ultimately show ?thesis unfolding tree_nodes_def by blast
  qed
  ultimately show ?thesis unfolding no_collision_def by (meson UN_least inj_on_subset)
qed

end
