(* ===== verification/Jellyfish_Theorems.thy ===== *)
theory Jellyfish_Theorems
  imports Jellyfish_Sample
begin

text \<open>
  The properties of the jellyfish Merkle tree and of the state tree: batches of updates
  compute the root of the sparse Merkle tree and store its nodes, every version is readable
  with proofs that verify, an accepted proof is true, and the state tree is a map.
\<close>

section \<open>Batches of updates\<close>

text \<open>C2: Applying batches of updates to a tree that is stored returns, for each batch, the root hash of the
  binary sparse Merkle tree of the leaves at that version, and with the returned batch of nodes
  the reader has every node of the old tree and of every new version. By \<open>batches_ok\<close> every
  batch is nonempty and puts at most once into a tree that is empty at that point, and by
  \<open>no_collision\<close> no two nodes of the trees on the way have the same hash.\<close>

theorem puts_correct:
  fixes J :: "('k, 'h) jelly"
  assumes "crypto_ok (jcrypto J)" "leaves_ok J 0 S"
    "root = Some (smt J 256 S) \<and> stores J R S \<or> root = None \<and> S = {}"
    "batches_ok J kvss S" "no_collision J (set (traces J kvss S))"
  shows "\<exists>batch. puts J R root kvss = Inr (map (smt J 256) (versions J kvss S), batch) \<and>
    (\<forall>S' \<in> insert S (set (versions J kvss S)). stores J (overlay (batch_nodes batch) R) S')"
  using puts_eq [OF assms] by blast

lemma sample_batches:
  "versions sample_jelly [[(0, Some [1])], [(sample_key, Some [2])]] {} = [{sample_a}, {sample_a, sample_b}]"
  "batches_ok sample_jelly [[(0, Some [1])], [(sample_key, Some [2])]] {}"
  "set (traces sample_jelly [[(0, Some [1])], [(sample_key, Some [2])]] {}) \<subseteq> {{}, {sample_a}, {sample_a, sample_b}}"
  using sample_updates by simp_all

theorem puts_correct_witness:
  "\<exists>batch. puts sample_jelly (\<lambda>_. Inr None) None [[(0, Some [1])], [(sample_key, Some [2])]] =
    Inr ([smt sample_jelly 256 {sample_a}, smt sample_jelly 256 {sample_a, sample_b}], batch)"
  using puts_correct [OF sample_jelly_ok(1) sample_leaves_ok [OF empty_subsetI] disjI2 sample_batches(2)
      sample_no_collision [OF sample_batches(3)], of None "\<lambda>_. Inr None"]
  unfolding sample_batches(1) list.map by blast

lemma versions_ok:
  assumes "crypto_ok (jcrypto J)"
  shows "leaves_ok J 0 S \<Longrightarrow> S' \<in> set (versions J kvss S) \<Longrightarrow> leaves_ok J 0 S'"
proof (induction kvss arbitrary: S)
  case (Cons kvs kvss)
  then show ?case using apply_updates_ok [OF assms Cons.prems(1), of kvs] by auto
qed simp

lemma versions_wf: "\<forall>l \<in> S. leaf_wf J l \<Longrightarrow> S' \<in> set (versions J kvss S) \<Longrightarrow> \<forall>l \<in> S'. leaf_wf J l"
proof (induction kvss arbitrary: S)
  case (Cons kvs kvss)
  then show ?case using leaf_wf_updates [OF Cons.prems(1), of kvs] by auto
qed simp

text \<open>C6: Every version that a sequence of batches leaves nonempty can be read back through the returned nodes: a
  lookup at its root returns the value of the leaf with that key, or none when there is no
  such leaf, and the proof it returns is accepted for that root, key and value.\<close>

theorem puts_then_get:
  fixes J :: "('k, 'h) jelly"
  assumes "crypto_ok (jcrypto J)" "bits_ok J" "leaves_ok J 0 S" "\<forall>l \<in> S. leaf_wf J l"
    "root = Some (smt J 256 S) \<and> stores J R S \<or> root = None \<and> S = {}"
    "batches_ok J kvss S" "no_collision J (set (traces J kvss S))"
    and S': "S' \<in> insert S (set (versions J kvss S))" "S' \<noteq> {}"
  shows "\<exists>roots batch v pf. puts J R root kvss = Inr (roots, batch) \<and>
    get_with_proof J (overlay (batch_nodes batch) R) (smt J 256 S') key = Inr (v, pf) \<and>
    (\<forall>b. v = Some b \<longleftrightarrow> (\<exists>l \<in> S'. key_hash J (raw_key l) = key \<and> blob l = b)) \<and>
    smp_verify J pf (smt J 256 S') key v = Inr ()"
proof -
  obtain batch where b: "puts J R root kvss = Inr (map (smt J 256) (versions J kvss S), batch)"
    "stores J (overlay (batch_nodes batch) R) S'"
    using puts_eq [OF assms(1,3,5,6,7)] S'(1) by blast
  have "leaves_ok J 0 S'" "\<forall>l \<in> S'. leaf_wf J l"
    using versions_ok [OF assms(1,3)] versions_wf [OF assms(4)] S'(1) assms(3,4) by blast+
  then show ?thesis
    using get_with_proof_eq [OF assms(1,2) _ _ b(2), of key] S'(2) b(1) by blast
qed

theorem puts_then_get_witness:
  "\<exists>roots batch v pf.
    puts sample_jelly (\<lambda>_. Inr None) None [[(0, Some [1])], [(sample_key, Some [2])]] = Inr (roots, batch) \<and>
    get_with_proof sample_jelly (overlay (batch_nodes batch) (\<lambda>_. Inr None)) (smt sample_jelly 256 {sample_a}) 0 = Inr (v, pf) \<and>
    smp_verify sample_jelly pf (smt sample_jelly 256 {sample_a}) 0 v = Inr ()"
proof -
  have "{sample_a} \<in> insert {} (set (versions sample_jelly [[(0, Some [1])], [(sample_key, Some [2])]] {}))"
    unfolding sample_batches(1) by simp
  then show ?thesis
    using puts_then_get [OF sample_jelly_ok(1) sample_bits_ok sample_leaves_ok [OF empty_subsetI] _ disjI2 sample_batches(2)
        sample_no_collision [OF sample_batches(3)], where S' = "{sample_a}" and root = None and R = "\<lambda>_. Inr None" and key = 0] by blast
qed

text \<open>C23: Every node in the batch returned by an update is stored under its own hash, and every internal node of
  it is well formed: it has a child and is not a single leaf child.\<close>

theorem puts_batch_typed:
  fixes J :: "('k, 'h) jelly"
  assumes "crypto_ok (jcrypto J)" "leaves_ok J 0 S"
    "root = Some (smt J 256 S) \<and> stores J R S \<or> root = None \<and> S = {}"
    "batches_ok J kvss S" "no_collision J (set (traces J kvss S))"
  shows "\<exists>roots batch. puts J R root kvss = Inr (roots, batch) \<and>
    (\<forall>k nd. batch_nodes batch k = Some nd \<longrightarrow> node_hash J nd = Inr k \<and> (\<forall>c. nd = Internal c \<longrightarrow> internal_ok c))"
  using puts_eq [OF assms] unfolding node_typed_def by blast

theorem puts_batch_typed_witness:
  "\<exists>roots batch. puts sample_jelly (\<lambda>_. Inr None) None [[(0, Some [1])], [(sample_key, Some [2])]] = Inr (roots, batch) \<and>
    (\<forall>k nd. batch_nodes batch k = Some nd \<longrightarrow> node_hash sample_jelly nd = Inr k)"
  using puts_batch_typed [OF sample_jelly_ok(1) sample_leaves_ok [OF empty_subsetI] disjI2 sample_batches(2)
      sample_no_collision [OF sample_batches(3)], of None "\<lambda>_. Inr None"] by blast

text \<open>C13: An update of one key in a nonempty tree writes exactly the nodes of the new tree that the old one has not,
  under their hashes, and records as stale, since the new root, exactly the nodes of the old
  tree that the new one has not; no stale record names a node of the new tree.\<close>

theorem single_update_exact:
  fixes J :: "('k, 'h) jelly"
  assumes "crypto_ok (jcrypto J)" "leaves_ok J 0 S" "S \<noteq> {}" "stores J R S" "S' = leaf_update J key b S"
    "no_collision J {S, S'}"
  shows "\<exists>batch. updates J R (Some (smt J 256 S)) [(key, b)] = Inr (smt J 256 S', batch) \<and>
    dom (batch_nodes batch) = hash_of J ` (live J 0 S' - live J 0 S) \<and>
    (\<forall>x \<in> live J 0 S' - live J 0 S. batch_nodes batch (hash_of J x) = Some (node_of J x)) \<and>
    batch_stale batch = (\<lambda>x. \<lparr>stale_since_version = smt J 256 S', stale_node_key = hash_of J x\<rparr>) `
      (live J 0 S - live J 0 S') \<and>
    stale_node_key ` batch_stale batch \<inter> hash_of J ` live J 0 S' = {}"
  by (rule single_update_eq [OF assms])

lemma sample_stores: "stores sample_jelly (\<lambda>h. Inr (Some (Leaf sample_a))) {sample_a}"
  by (simp add: stores_def node_of_def nid_def cnode_def)

theorem single_update_exact_witness:
  "\<exists>batch. updates sample_jelly (\<lambda>h. Inr (Some (Leaf sample_a))) (Some (smt sample_jelly 256 {sample_a})) [(sample_key, Some [2])] =
      Inr (smt sample_jelly 256 {sample_a, sample_b}, batch) \<and>
    dom (batch_nodes batch) = hash_of sample_jelly ` {(0, {sample_a, sample_b}), (0, {sample_b})} \<and> batch_stale batch = {}"
proof -
  have d: "live sample_jelly 0 {sample_a, sample_b} - live sample_jelly 0 {sample_a} = {(0, {sample_a, sample_b}), (0, {sample_b})}"
    "live sample_jelly 0 {sample_a} - live sample_jelly 0 {sample_a, sample_b} = {}"
    using sample_neq by (auto simp: sample_live nid_def)
  have n: "no_collision sample_jelly {{sample_a}, {sample_a, sample_b}}" by (rule sample_no_collision) blast
  have ok: "leaves_ok sample_jelly 0 {sample_a}" by (rule sample_leaves_ok) blast
  show ?thesis
    using single_update_exact [OF sample_jelly_ok(1) ok insert_not_empty sample_stores sample_updates(2) [symmetric] n]
    unfolding d image_empty by blast
qed

lemma put_empty_spends:
  assumes "holds J {} c" "node_cache c (placeholder J) = None" "put J key (Some v) c = Inr c'"
    "leaf_crypto_hash J (leaf_new J key v) \<noteq> placeholder J"
  shows "\<not> placeholder_free J c'"
proof -
  have root: "root_node_key c = placeholder J" using assms(1) by (simp add: holds_def)
  have get: "cache_get_node J c (placeholder J) = Inr Null" by (simp add: cache_get_node_def)
  have "dom (node_cache c) \<subseteq> {placeholder J}" using assms(1) by (simp add: holds_def)
  then have "node_cache c k = None" for k using assms(2) by (cases "k = placeholder J") (auto simp: domIff)
  then have nc: "node_cache c = Map.empty" by (rule ext)
  show ?thesis
  proof (cases "placeholder_free J c")
    case True
    then have free: "placeholder J \<notin> stale_node_index_cache c" using assms(2) by (simp add: placeholder_free_def)
    let ?c1 = "c\<lparr>stale_node_index_cache := insert (placeholder J) (stale_node_index_cache c)\<rparr>"
    have d: "delete_node (placeholder J) False c = Inr ?c1" using assms(2) free by (simp add: delete_node_def)
    have "node_cache ?c1 (hash_of J (nid 0 {leaf_new J key v})) = None" by (simp add: nc)
    from create_leaf_node_eq [OF this] obtain c2 where
      c2: "create_leaf_node J key v ?c1 = Inr ((hash_at J 0 {leaf_new J key v}, cnode J 0 {leaf_new J key v}), c2)"
        "changed J {} {nid 0 {leaf_new J key v}} ?c1 c2" by blast
    have "put J key (Some v) c = Inr (c2\<lparr>root_node_key := hash_at J 0 {leaf_new J key v}\<rparr>)"
      unfolding put_def Let_def root using d c2(1) by (subst insert_at.simps) (simp add: get)
    then have c': "c' = c2\<lparr>root_node_key := hash_at J 0 {leaf_new J key v}\<rparr>" using assms(3) by simp
    have "placeholder J \<in> stale_node_index_cache c2" "node_cache c2 (placeholder J) = None"
      using c2(2) assms(2,4) unfolding changed_def by simp_all
    then show ?thesis by (simp add: placeholder_free_def c')
  next
    case False
    then show ?thesis using put_empty_panics [OF root False] assms(3) by simp
  qed
qed

text \<open>C35: On an existing empty tree, whose root is given and is the placeholder hash, one batch that puts a key, removes
  it and puts a key again panics: the placeholder root is recorded as stale twice, which the cache asserts not to happen.\<close>

theorem emptied_twice_panics:
  fixes J :: "('k, 'h) jelly"
  assumes C: "crypto_ok (jcrypto J)" and h: "leaf_crypto_hash J (leaf_new J key v) \<noteq> placeholder J"
  shows "updates J R (Some (placeholder J)) ((key, Some v) # (key, None) # (key', Some w) # kvs) = Inl Panic"
proof -
  let ?c = "tree_cache_new J R (Some (placeholder J))" and ?x = "leaf_new J key v"
  have S: "leaf_update J key (Some v) {} = {?x}" "leaf_update J key None {?x} = {}"
    by (auto simp: leaf_update_def same_key_def leaf_new_def)
  have ap: "apart J {nid 0 {?x}}" using h by (simp add: apart_def)
  have ok: "leaves_ok J 0 {?x}" "leaves_ok J 0 {}" by (simp_all add: leaves_ok_def)
  have e: "apart J (live J 0 {})" by (simp add: apart_def)
  have "Some (placeholder J) = Some (smt J 256 {}) \<and> stores J R {} \<or> Some (placeholder J) = None \<and> {} = {}" by (simp add: stores_def)
  note new = tree_cache_new_holds(1,2) [OF this e]
  obtain c1 where c1: "put J key (Some v) ?c = Inr c1" "holds J {?x} c1"
    using put_holds [OF C ok(2) S(1) [symmetric] ap _ _ new(1)] new(2) by auto
  have "node_cache ?c (placeholder J) = None" by (simp add: tree_cache_new_def)
  then have np: "\<not> placeholder_free J c1" by (rule put_empty_spends [OF new(1) _ c1(1) h])
  obtain c2 where c2: "put J key None c1 = Inr c2" "holds J {} c2" "placeholder_free J c2 = placeholder_free J c1"
    using put_holds [OF C ok(1) S(2) [symmetric] ap _ _ c1(2)] by auto
  have "put J key' (Some w) c2 = Inl Panic"
    by (rule put_empty_panics) (use c2 np in \<open>simp_all add: holds_def\<close>)
  then show ?thesis using c1(1) c2(1) by (simp add: updates_def puts_def)
qed

theorem emptied_twice_panics_witness:
  "updates sample_jelly (\<lambda>_. Inr None) (Some (placeholder sample_jelly)) [(0, Some [1]), (0, None), (sample_key, Some [2])] = Inl Panic"
proof -
  have "leaf_crypto_hash sample_jelly (leaf_new sample_jelly 0 [1]) \<noteq> placeholder sample_jelly"
    using sample_hashes unfolding sample_a_def by auto
  then show ?thesis by (rule emptied_twice_panics [OF sample_jelly_ok(1)])
qed

section \<open>Soundness of proofs\<close>

text \<open>C5: A proof that the verifier accepts for the root of a tree is true of it: a value is the value of the
  leaf with that key up to its hash, and non-existence means that no leaf has the key, as long
  as what the tree and the proof hash has no two inputs of the same hash.\<close>

theorem accepted_proof_is_true:
  fixes J :: "('k, 'h) jelly"
  assumes "crypto_ok (jcrypto J)" "bits_ok J" "leaves_ok J 0 S"
    "inj_on (hash_pre J) (tree_pre J 256 S \<union> proof_pre J key pf)"
    "smp_verify J pf (smt J 256 S) key v = Inr ()"
  shows "case v of
      Some b \<Rightarrow> \<exists>l \<in> S. key_hash J (raw_key l) = key \<and> blob_hash l = blob_crypto_hash J b
    | None \<Rightarrow> \<not> (\<exists>l \<in> S. key_hash J (raw_key l) = key)"
  by (rule smp_verify_sound [OF assms])

lemma tree_pre_singleton: "tree_pre J n {l} = {PLeaf (key_hash J (raw_key l)) (blob_hash l)}"
  by (cases n) (simp_all add: root_pre_def)

theorem accepted_proof_is_true_witness:
  "smp_verify sample_jelly \<lparr>smp_leaf = Some (0, blob_hash sample_a), smp_siblings = []\<rparr> (smt sample_jelly 256 {sample_a}) sample_key None = Inr () \<and>
   \<not> (\<exists>l \<in> {sample_a}. key_hash sample_jelly (raw_key l) = sample_key)"
proof -
  let ?pf = "\<lparr>smp_leaf = Some (0, blob_hash sample_a), smp_siblings = []\<rparr> :: hash256 SparseMerkleProof"
  have a: "key_hash sample_jelly (raw_key sample_a) = 0" by (simp add: sample_a_def leaf_new_def sample_jelly_def)
  have i: "inj_on (hash_pre sample_jelly) (tree_pre sample_jelly 256 {sample_a} \<union> proof_pre sample_jelly sample_key ?pf)"
    by (simp add: tree_pre_singleton a proof_pre_def leaf_pre_def)
  have v: "smp_verify sample_jelly ?pf (smt sample_jelly 256 {sample_a}) sample_key None = Inr ()"
    using a sample_key_neq by (simp add: smp_verify_def smp_check_def leaf_crypto_hash_def)
  have ok: "leaves_ok sample_jelly 0 {sample_a}" by (rule sample_leaves_ok) blast
  show ?thesis using accepted_proof_is_true [OF sample_jelly_ok(1) sample_bits_ok ok i v] v by simp
qed

section \<open>The state tree\<close>

text \<open>C3: From the empty state tree, over a node store that returns what was written to it, every sequence of
  puts, removals, commits and flushes succeeds and the tree is the map it stands for: a read
  gives the pending value of the key if there is one and the committed value otherwise, the
  root is that of the sparse Merkle tree of the committed leaves, and the committed value has
  a proof that verifies against this root. The keys and values of the run have distinct
  hashes, and no two nodes of the trees on the way have the same hash.\<close>

theorem state_tree_is_a_map:
  fixes J :: "('k::linorder, 'h::linorder) jelly"
  assumes C: "crypto_ok (jcrypto J)" and b: "bits_ok J" and bcs: "bcs_ok J" "\<And>l. \<exists>out. leaf_to_bytes J l = Inr out"
    and N: "state_node_store N" and K: "inj_on (key_hash J) (insert key (\<Union> (op_keys ` set xs)))"
    and B: "inj_on (blob_crypto_hash J) (\<Union> (op_blobs ` set xs))" and nc: "no_collisions J xs [] {}"
  shows "\<exists>t pf. state_run J N xs (state_tree_new J s None) = Inr t \<and>
    state_get J N key t = Inr (spec_lookup (spec_run xs) key) \<and>
    state_root t = smt J 256 (run_leaves J xs [] {}) \<and>
    state_get_with_proof J N key t = Inr (fst (spec_run xs) key, pf) \<and>
    smp_verify J pf (state_root t) (key_hash J key) (fst (spec_run xs) key) = Inr ()"
proof -
  obtain t where t: "state_run J N xs (state_tree_new J s None) = Inr t"
    "refines J N (insert key (\<Union> (op_keys ` set xs))) (\<Union> (op_blobs ` set xs)) (run_leaves J xs [] {}) t (spec_run xs)"
    using run_from_new [OF C bcs N K B nc] by blast
  have "state_root t = smt J 256 (run_leaves J xs [] {})" using t(2) by (simp add: refines_def state_inv_def)
  then show ?thesis using refines_get [OF C b K insertI1 t(2)] t(1) by auto
qed

lemma sample_run:
  "no_collisions sample_jelly [OpPut 0 [1], OpCommit, OpFlush, OpPut sample_key [2], OpCommit, OpRemove 0] [] {}"
  "spec_lookup (spec_run [OpPut 0 [1], OpCommit, OpFlush, OpPut sample_key [2], OpCommit, OpRemove 0]) sample_key = Some [2]"
  "run_leaves sample_jelly [OpPut 0 [1], OpCommit, OpFlush, OpPut sample_key [2], OpCommit, OpRemove 0] [] {} = {sample_a, sample_b}"
  using sample_no_collision [of "{{}, {sample_a}}"] sample_no_collision [of "{{sample_a}, {sample_a, sample_b}}"]
  by (simp_all add: sample_updates sample_key_neq spec_run_def spec_lookup_def)

lemma sample_run_inj:
  "inj_on (key_hash sample_jelly) A" "\<exists>out. leaf_to_bytes sample_jelly l = Inr out"
  "inj_on (blob_crypto_hash sample_jelly) {[1], [2]}"
  by (simp_all add: sample_jelly_def inj_on_def)

theorem state_tree_is_a_map_witness:
  "\<exists>t. state_run sample_jelly mock_node_store [OpPut 0 [1], OpCommit, OpFlush, OpPut sample_key [2], OpCommit, OpRemove 0]
      (state_tree_new sample_jelly mock_node_store_new None) = Inr t \<and>
    state_get sample_jelly mock_node_store sample_key t = Inr (Some [2]) \<and>
    state_root t = smt sample_jelly 256 {sample_a, sample_b}"
proof -
  let ?xs = "[OpPut 0 [1], OpCommit, OpFlush, OpPut sample_key [2], OpCommit, OpRemove 0]"
  have B: "inj_on (blob_crypto_hash sample_jelly) (\<Union> (op_blobs ` set ?xs))" using sample_run_inj(3) by simp
  show ?thesis
    using state_tree_is_a_map [OF sample_jelly_ok(1) sample_bits_ok sample_jelly_ok(2) sample_run_inj(2)
        mock_nodes.state_node_store_axioms sample_run_inj(1) B sample_run(1), where key = sample_key and s = mock_node_store_new]
    unfolding sample_run(2,3) by blast
qed

text \<open>C12: After a flush, a tree opened on the storage at the flushed root, which is what cloning does, has the committed
  values of the flushed tree and none of its pending changes.\<close>

theorem flushed_tree_reopens:
  fixes J :: "('k::linorder, 'h::linorder) jelly"
  assumes C: "crypto_ok (jcrypto J)" and b: "bits_ok J" and bcs: "bcs_ok J" "\<And>l. \<exists>out. leaf_to_bytes J l = Inr out"
    and N: "state_node_store N" and K: "inj_on (key_hash J) (insert key (\<Union> (op_keys ` set xs)))"
    and B: "inj_on (blob_crypto_hash J) (\<Union> (op_blobs ` set xs))" and nc: "no_collisions J xs [] {}"
  shows "\<exists>t t'. state_run J N xs (state_tree_new J s None) = Inr t \<and> state_flush J N t = (t', Inr ()) \<and>
    state_root (state_tree_clone J t') = state_root t \<and> \<not> is_dirty (state_tree_clone J t') \<and>
    state_get J N key (state_tree_clone J t') = Inr (fst (spec_run xs) key)"
proof -
  obtain t where t: "state_run J N xs (state_tree_new J s None) = Inr t"
    "refines J N (insert key (\<Union> (op_keys ` set xs))) (\<Union> (op_blobs ` set xs)) (run_leaves J xs [] {}) t (spec_run xs)"
    using run_from_new [OF C bcs N K B nc] by blast
  have N': "node_store_writes N" and inv: "state_inv J N (run_leaves J xs [] {}) t"
    using N t(2) by (simp_all add: state_node_store_def refines_def)
  obtain t' where t': "state_flush J N t = (t', Inr ())" using state_flush_inv [OF C bcs N inv] by blast
  note c = refines_reopen [OF C bcs(1) N' t(2) t']
  have "\<not> is_dirty (state_tree_clone J t')" by (simp add: is_dirty_def state_tree_clone_def state_tree_new_def Let_def)
  then show ?thesis using refines_get(1) [OF C b K insertI1 conjunct2 [OF c]] t(1) t' c by (auto simp: spec_lookup_def)
qed

theorem flushed_tree_reopens_witness:
  "\<exists>t t'. state_run sample_jelly mock_node_store [OpPut 0 [1], OpCommit, OpFlush, OpPut sample_key [2], OpCommit, OpRemove 0]
      (state_tree_new sample_jelly mock_node_store_new None) = Inr t \<and> state_flush sample_jelly mock_node_store t = (t', Inr ()) \<and>
    state_get sample_jelly mock_node_store 0 (state_tree_clone sample_jelly t') = Inr (Some [1])"
proof -
  let ?xs = "[OpPut 0 [1], OpCommit, OpFlush, OpPut sample_key [2], OpCommit, OpRemove 0]"
  have B: "inj_on (blob_crypto_hash sample_jelly) (\<Union> (op_blobs ` set ?xs))" using sample_run_inj(3) by simp
  have g: "fst (spec_run ?xs) 0 = Some [1]" using sample_key_neq by (simp add: spec_run_def spec_lookup_def)
  show ?thesis
    using flushed_tree_reopens [OF sample_jelly_ok(1) sample_bits_ok sample_jelly_ok(2) sample_run_inj(2)
        mock_nodes.state_node_store_axioms sample_run_inj(1) B sample_run(1), where key = 0 and s = mock_node_store_new]
    unfolding g by blast
qed

text \<open>C14: Failed writes do not show. Over a node store whose writes may fail, each key of a failed write being as before
  or written, the caller goes on after every error: after any sequence of puts, removals,
  commits and flushes the tree still is the map it stands for, with the root and the proofs of
  the committed leaves, as if every flush had succeeded. The next flush that does succeed
  leaves a storage on which a tree opened at its root has all the committed values. The keys
  and values of the run have distinct hashes, and no two nodes of the trees on the way have
  the same hash.\<close>

theorem failed_writes_invisible:
  fixes J :: "('k::linorder, 'h::linorder) jelly"
  assumes C: "crypto_ok (jcrypto J)" and b: "bits_ok J" and bcs: "bcs_ok J"
    and N: "node_store_writes N" and K: "inj_on (key_hash J) (insert key (\<Union> (op_keys ` set xs)))"
    and B: "inj_on (blob_crypto_hash J) (\<Union> (op_blobs ` set xs))" and nc: "no_collisions J xs [] {}"
    and t: "t = fold (state_try J N) xs (state_tree_new J s None)"
  shows "state_get J N key t = Inr (spec_lookup (spec_run xs) key) \<and>
    state_root t = smt J 256 (run_leaves J xs [] {}) \<and>
    (\<exists>pf. state_get_with_proof J N key t = Inr (fst (spec_run xs) key, pf) \<and>
      smp_verify J pf (state_root t) (key_hash J key) (fst (spec_run xs) key) = Inr ()) \<and>
    (\<forall>t'. state_flush J N t = (t', Inr ()) \<longrightarrow> state_root (state_tree_clone J t') = state_root t \<and>
      state_get J N key (state_tree_clone J t') = Inr (fst (spec_run xs) key))"
proof -
  have r: "refines J N (insert key (\<Union> (op_keys ` set xs))) (\<Union> (op_blobs ` set xs)) (run_leaves J xs [] {}) t (spec_run xs)"
    unfolding t by (rule try_from_new [OF C bcs N K B nc])
  have "state_root (state_tree_clone J t') = state_root t \<and>
      state_get J N key (state_tree_clone J t') = Inr (fst (spec_run xs) key)" if "state_flush J N t = (t', Inr ())" for t'
    using refines_reopen [OF C bcs N r that] refines_get(1) [OF C b K insertI1, where t = "state_tree_clone J t'"]
    by (auto simp: spec_lookup_def)
  moreover have "state_root t = smt J 256 (run_leaves J xs [] {})" using r by (simp add: refines_def state_inv_def)
  ultimately show ?thesis using refines_get [OF C b K insertI1 r] by blast
qed

text \<open>A store that cannot write the node of one key: it writes the others and fails.\<close>

definition faulty_node_store :: "'h \<Rightarrow> ('h MockStateNodeStore, 'h) StateNodeStore" where
  "faulty_node_store bad = \<lparr>store_get = mock_node_get, store_put = mock_node_put,
     store_write_nodes = (\<lambda>nodes s. (s ++ nodes(bad := None), if nodes bad = None then Inr () else Inl (Err MissingNode)))\<rparr>"

interpretation faulty: node_store_writes "faulty_node_store bad"
  by unfold_locales
    (auto simp: faulty_node_store_def mock_node_get_def map_add_def split: option.splits if_splits)

lemma commit_storage: "st_storage (fst (state_commit J N t)) = st_storage t"
  by (auto simp: state_commit_def state_updates_def split: sum.splits prod.splits if_splits)

lemma faulty_flush:
  assumes C: "crypto_ok (jcrypto J)" "bcs_ok J" and inv: "state_inv J (faulty_node_store bad) {l} t"
    and bad: "bad = leaf_crypto_hash J l" "bad \<noteq> placeholder J" "st_storage t bad = None"
  shows "\<exists>t' e. state_flush J (faulty_node_store bad) t = (t', Inl e)"
proof (rule ccontr)
  obtain t' r where t': "state_flush J (faulty_node_store bad) t = (t', r)" by fastforce
  moreover assume "\<nexists>t' e. state_flush J (faulty_node_store bad) t = (t', Inl e)"
  ultimately have r: "r = Inr ()" by (cases r) auto
  from state_flush_any [OF C faulty.node_store_writes_axioms inv t'] r
  have t: "state_inv J (faulty_node_store bad) {l} t'" "sc_change_set (st_cache t') = batch_default" by simp_all
  have "st_storage t' bad = None"
    using t' r bad(3) by (auto simp: state_flush_def faulty_node_store_def Let_def split: sum.splits prod.splits if_splits)
  then have "cached_tree_reader J (faulty_node_store bad) t' bad = Inr None"
    using t(2) bad(2) by (simp add: cached_tree_reader_def batch_default_def faulty_node_store_def mock_node_get_def)
  moreover have "hash_of J (nid 0 {l}) = bad" using bad(1) by (simp add: hash_of_def nid_def)
  ultimately show False using t(1) by (auto simp: state_inv_def stores_def)
qed

theorem failed_writes_invisible_witness:
  "\<exists>t t' e. t = fold (state_try sample_jelly (faulty_node_store 19813)) [OpPut 0 [1], OpCommit]
      (state_tree_new sample_jelly mock_node_store_new None) \<and>
    state_flush sample_jelly (faulty_node_store 19813) t = (t', Inl e) \<and>
    state_get sample_jelly (faulty_node_store 19813) 0 t' = Inr (Some [1])"
proof -
  let ?N = "faulty_node_store 19813 :: (hash256 MockStateNodeStore, hash256) StateNodeStore"
  let ?xs = "[OpPut 0 [1], OpCommit] :: hash256 state_op list"
  let ?new = "state_tree_new sample_jelly mock_node_store_new None"
  let ?t = "fold (state_try sample_jelly ?N) ?xs ?new"
  have nc: "no_collisions sample_jelly ?xs [] {}" "no_collisions sample_jelly (?xs @ [OpFlush]) [] {}"
    and l: "run_leaves sample_jelly ?xs [] {} = {sample_a}"
    using sample_no_collision [of "{{}, {sample_a}}"] by (simp_all add: sample_updates)
  have B: "inj_on (blob_crypto_hash sample_jelly) (\<Union> (op_blobs ` set ?xs))"
    "inj_on (blob_crypto_hash sample_jelly) (\<Union> (op_blobs ` set (?xs @ [OpFlush])))" by simp_all
  have inv: "state_inv sample_jelly ?N {sample_a} ?t"
    using try_from_new [OF sample_jelly_ok(1,2) faulty.node_store_writes_axioms sample_run_inj(1) B(1) nc(1), where s = mock_node_store_new]
    unfolding refines_def l by blast
  have st: "st_storage ?t 19813 = None"
    by (simp add: commit_storage state_put_def state_tree_new_def mock_node_store_new_def Let_def)
  have ne: "(19813 :: hash256) \<noteq> placeholder sample_jelly" by (rule sample_placeholder) simp
  obtain t' e where t': "state_flush sample_jelly ?N ?t = (t', Inl e)"
    using faulty_flush [OF sample_jelly_ok(1,2) inv _ ne st] sample_values(1) by auto
  have "state_get sample_jelly ?N 0 t' = Inr (spec_lookup (spec_run (?xs @ [OpFlush])) 0)"
    using failed_writes_invisible [OF sample_jelly_ok(1) sample_bits_ok sample_jelly_ok(2)
        faulty.node_store_writes_axioms [where bad = 19813] sample_run_inj(1) B(2) nc(2),
        where t = t' and s = mock_node_store_new and key = 0] t' by simp
  then show ?thesis using t' by (auto simp: spec_run_def spec_lookup_def)
qed

end
