(* ===== verification/Jellyfish_Store.thy ===== *)
theory Jellyfish_Store
  imports State_Tree Jellyfish_Sample
begin

text \<open>
  The mock tree store, \<^verbatim>\<open>mock_tree_store.rs\<close>: writing a batch, recording stale nodes and purging them. A
  call returns the store also when it fails, with what it had done by then. A \<^verbatim>\<open>NodeBatch\<close> is
  written in the order of its keys, stale records are kept in theirs.
\<close>

section \<open>Definitions\<close>

definition mts_default :: "('k, 'h) MockTreeStore" where
  "mts_default = \<lparr>mts_nodes = Map.empty, mts_stale = {}\<rparr>"

definition mts_put_stale_node_index ::
  "'h StaleNodeIndex \<Rightarrow> ('k, 'h) MockTreeStore \<Rightarrow> ('k, 'h) MockTreeStore \<times> unit jelly_result" where
  "mts_put_stale_node_index index s =
     (s\<lparr>mts_stale := insert index (mts_stale s)\<rparr>, ensure (index \<notin> mts_stale s) DuplicatedRetireLog)"

text \<open>\<^verbatim>\<open>write_node_batch\<close> of the trait \<^verbatim>\<open>TreeWriter\<close>, which panics on a node that is there.\<close>

fun mts_write_nodes ::
  "('h \<times> ('k, 'h) Node) list \<Rightarrow> ('k, 'h) MockTreeStore \<Rightarrow> ('k, 'h) MockTreeStore \<times> unit jelly_result" where
  "mts_write_nodes [] s = (s, Inr ())"
| "mts_write_nodes ((node_key, nd) # kns) s =
     (let s' = s\<lparr>mts_nodes := (mts_nodes s)(node_key \<mapsto> nd)\<rparr>
      in if mts_nodes s node_key = None then mts_write_nodes kns s' else (s', Inl Panic))"

definition mts_write_node_batch ::
  "('h::linorder \<Rightarrow> ('k, 'h) Node option) \<Rightarrow> ('k, 'h) MockTreeStore \<Rightarrow> ('k, 'h) MockTreeStore \<times> unit jelly_result" where
  "mts_write_node_batch node_batch s = mts_write_nodes (node_list node_batch) s"

fun mts_put_nodes ::
  "('h \<times> ('k, 'h) Node) list \<Rightarrow> ('k, 'h) MockTreeStore \<Rightarrow> ('k, 'h) MockTreeStore \<times> unit jelly_result" where
  "mts_put_nodes [] s = (s, Inr ())"
| "mts_put_nodes ((k, v) # kns) s =
     (case mts_put_node k v s of Inl e \<Rightarrow> (s, Inl e) | Inr s \<Rightarrow> mts_put_nodes kns s)"

fun mts_put_stales ::
  "'h StaleNodeIndex list \<Rightarrow> ('k, 'h) MockTreeStore \<Rightarrow> ('k, 'h) MockTreeStore \<times> unit jelly_result" where
  "mts_put_stales [] s = (s, Inr ())"
| "mts_put_stales (i # is) s =
     (case mts_put_stale_node_index i s of (s, Inl e) \<Rightarrow> (s, Inl e) | (s, Inr _) \<Rightarrow> mts_put_stales is s)"

definition write_tree_update_batch ::
  "('k, 'h::linorder) TreeUpdateBatch \<Rightarrow> ('k, 'h) MockTreeStore \<Rightarrow> ('k, 'h) MockTreeStore \<times> unit jelly_result" where
  "write_tree_update_batch batch s =
     (case mts_put_nodes (node_list (batch_nodes batch)) s of
        (s, Inl e) \<Rightarrow> (s, Inl e)
      | (s, Inr _) \<Rightarrow> mts_put_stales (stale_list (batch_stale batch)) s)"

fun purge_logs ::
  "'h StaleNodeIndex list \<Rightarrow> ('k, 'h) MockTreeStore \<Rightarrow> ('k, 'h) MockTreeStore \<times> unit jelly_result" where
  "purge_logs [] s = (s, Inr ())"
| "purge_logs (log # logs) s =
     (if mts_nodes s (stale_node_key log) = None then (s, Inl (Err StaleNodeMissing))
      else purge_logs logs
        (s\<lparr>mts_nodes := (mts_nodes s)(stale_node_key log := None), mts_stale := mts_stale s - {log}\<rparr>))"

definition purge_stale_nodes ::
  "'h::linorder \<Rightarrow> ('k, 'h) MockTreeStore \<Rightarrow> ('k, 'h) MockTreeStore \<times> unit jelly_result" where
  "purge_stale_nodes state_root_hash s =
     purge_logs (takeWhile (\<lambda>log. stale_since_version log = state_root_hash) (stale_list (mts_stale s))) s"

definition mts_num_nodes :: "('k, 'h) MockTreeStore \<Rightarrow> nat" where
  "mts_num_nodes s = card (dom (mts_nodes s))"

text \<open>\<^verbatim>\<open>get_rightmost_leaf\<close> over the entries of the node map in the order in which the map yields them.\<close>

definition rightmost_step ::
  "'h \<times> ('k::linorder, 'h) Node \<Rightarrow> ('h \<times> ('k, 'h) LeafNode) option \<Rightarrow> ('h \<times> ('k, 'h) LeafNode) option" where
  "rightmost_step kn best =
     (case snd kn of
        Leaf leaf_node \<Rightarrow>
          (case best of
             None \<Rightarrow> Some (fst kn, leaf_node)
           | Some (k, b) \<Rightarrow> if raw_key leaf_node > raw_key b then Some (fst kn, leaf_node) else best)
      | _ \<Rightarrow> best)"

definition get_rightmost_leaf ::
  "('h \<times> ('k::linorder, 'h) Node) list \<Rightarrow> ('h \<times> ('k, 'h) LeafNode) option" where
  "get_rightmost_leaf entries = fold rightmost_step entries None"

section \<open>Writing a batch\<close>

lemma stale_list_ok:
  assumes "finite A"
  shows "set (stale_list A) = A" "distinct (stale_list A)"
    "sorted (map (\<lambda>i. (stale_since_version i, stale_node_key i)) (stale_list A))"
proof -
  let ?f = "\<lambda>i. (stale_since_version i, stale_node_key i)" and ?g = "\<lambda>(v, k). \<lparr>stale_since_version = v, stale_node_key = k\<rparr>"
  have gf: "?g (?f i) = i" for i :: "'a StaleNodeIndex" by simp
  have fin: "finite (?f ` A)" using assms by simp
  have "set (stale_list A) = ?g ` ?f ` A" using fin by (simp add: stale_list_def)
  then show "set (stale_list A) = A" by (simp only: image_image gf image_ident)
  have "inj_on ?g B" for B :: "('a \<times> 'a) set" by (auto simp: inj_on_def)
  then show "distinct (stale_list A)" unfolding stale_list_def by (simp add: distinct_map)
  have "map ?f (stale_list A) = sorted_list_of_set (?f ` A)" unfolding stale_list_def by (simp add: comp_def case_prod_unfold)
  then show "sorted (map ?f (stale_list A))" by simp
qed

lemma node_list_ok: "finite (dom nodes) \<Longrightarrow> distinct (map fst (node_list nodes)) \<and> map_of (node_list nodes) = nodes"
proof -
  assume fin: "finite (dom nodes)"
  have d: "distinct (map fst (node_list nodes))" by (simp add: node_list_def comp_def)
  have "map_of (node_list nodes) k = Some n \<longleftrightarrow> nodes k = Some n" for k n
    using d set_node_list [OF fin, of k n] by (simp add: map_of_eq_Some_iff)
  then have "map_of (node_list nodes) = nodes" by (intro ext option_ext)
  then show ?thesis using d by simp
qed

lemma mts_put_nodes_eq:
  "distinct (map fst kns) \<Longrightarrow> fst ` set kns \<inter> dom (mts_nodes s) = {} \<Longrightarrow>
    mts_put_nodes kns s = (s\<lparr>mts_nodes := mts_nodes s ++ map_of kns\<rparr>, Inr ())"
proof (induction kns arbitrary: s)
  case (Cons kn kns)
  obtain k n where kn: "kn = (k, n)" by (cases kn)
  let ?s = "s\<lparr>mts_nodes := (mts_nodes s)(k \<mapsto> n)\<rparr>"
  have "mts_nodes s k = None" using Cons.prems(2) kn by (auto simp: domIff)
  then have "mts_put_nodes (kn # kns) s = mts_put_nodes kns ?s" by (simp add: kn mts_put_node_def)
  also have "\<dots> = (?s\<lparr>mts_nodes := mts_nodes ?s ++ map_of kns\<rparr>, Inr ())"
  proof (rule Cons.IH)
    have "dom (mts_nodes ?s) = insert k (dom (mts_nodes s))" by simp
    then show "fst ` set kns \<inter> dom (mts_nodes ?s) = {}" using Cons.prems kn by simp
  qed (use Cons.prems in simp)
  also have "mts_nodes ?s ++ map_of kns = mts_nodes s ++ map_of (kn # kns)"
    using map_add_upd_left [of k "map_of kns" "mts_nodes s" n] Cons.prems(1) kn by (simp add: dom_map_of_conv_image_fst)
  also have "?s\<lparr>mts_nodes := mts_nodes s ++ map_of (kn # kns)\<rparr> = s\<lparr>mts_nodes := mts_nodes s ++ map_of (kn # kns)\<rparr>" by simp
  finally show ?case .
qed simp

lemma mts_put_stales_eq:
  "distinct is \<Longrightarrow> set is \<inter> mts_stale s = {} \<Longrightarrow>
    mts_put_stales is s = (s\<lparr>mts_stale := mts_stale s \<union> set is\<rparr>, Inr ())"
proof (induction "is" arbitrary: s)
  case (Cons i "is")
  let ?s = "s\<lparr>mts_stale := insert i (mts_stale s)\<rparr>"
  have "mts_put_stales (i # is) s = mts_put_stales is ?s"
    using Cons.prems by (simp add: mts_put_stale_node_index_def ensure_def)
  also have "\<dots> = (?s\<lparr>mts_stale := mts_stale ?s \<union> set is\<rparr>, Inr ())" using Cons.prems by (intro Cons.IH) auto
  finally show ?case by simp
qed simp

lemma purge_logs_eq:
  "distinct (map stale_node_key logs) \<Longrightarrow> stale_node_key ` set logs \<subseteq> dom (mts_nodes s) \<Longrightarrow>
    purge_logs logs s =
      (s\<lparr>mts_nodes := mts_nodes s |` (- stale_node_key ` set logs), mts_stale := mts_stale s - set logs\<rparr>, Inr ())"
proof (induction logs arbitrary: s)
  case (Cons log logs)
  let ?s = "s\<lparr>mts_nodes := (mts_nodes s)(stale_node_key log := None), mts_stale := mts_stale s - {log}\<rparr>"
  have "purge_logs (log # logs) s = purge_logs logs ?s" using Cons.prems(2) by auto
  also have "\<dots> = (?s\<lparr>mts_nodes := mts_nodes ?s |` (- stale_node_key ` set logs), mts_stale := mts_stale ?s - set logs\<rparr>, Inr ())"
  proof (rule Cons.IH)
    have "dom (mts_nodes ?s) = dom (mts_nodes s) - {stale_node_key log}" by simp
    then show "stale_node_key ` set logs \<subseteq> dom (mts_nodes ?s)" using Cons.prems by (simp add: subset_Diff_insert)
  qed (use Cons.prems in simp)
  also have "?s\<lparr>mts_nodes := mts_nodes ?s |` (- stale_node_key ` set logs), mts_stale := mts_stale ?s - set logs\<rparr> =
      s\<lparr>mts_nodes := mts_nodes s |` (- stale_node_key ` set (log # logs)), mts_stale := mts_stale s - set (log # logs)\<rparr>"
  proof -
    have "mts_nodes ?s |` (- stale_node_key ` set logs) = mts_nodes s |` (- stale_node_key ` set (log # logs))"
      by (auto simp: restrict_map_def fun_eq_iff)
    moreover have "mts_stale ?s - set logs = mts_stale s - set (log # logs)" by auto
    moreover have "?s\<lparr>mts_nodes := m, mts_stale := A\<rparr> = s\<lparr>mts_nodes := m, mts_stale := A\<rparr>" for m A by simp
    ultimately show ?thesis by (simp only:)
  qed
  finally show ?case .
qed (simp add: restrict_map_def)

section \<open>Updating and purging\<close>

text \<open>A store with the nodes of one version and nothing else.\<close>

definition mts_exact :: "('k, 'h) jelly \<Rightarrow> ('k, 'h) leaves \<Rightarrow> ('k, 'h) MockTreeStore \<Rightarrow> bool" where
  "mts_exact J S s \<longleftrightarrow>
     (\<forall>k nd. mts_nodes s k = Some nd \<longleftrightarrow> (\<exists>x \<in> live J 0 S. hash_of J x = k \<and> node_of J x = nd)) \<and> mts_stale s = {}"

lemma mts_exactD:
  assumes "mts_exact J S s"
  shows "x \<in> live J 0 S \<Longrightarrow> mts_nodes s (hash_of J x) = Some (node_of J x)" "dom (mts_nodes s) = hash_of J ` live J 0 S"
    "mts_stale s = {}"
  using assms by (auto simp: mts_exact_def dom_def)

lemma mts_exact_restrict:
  assumes ap: "apart J (L \<union> live J 0 S')" and d: "dom m = hash_of J ` (L \<union> live J 0 S')"
    and m: "\<And>x. x \<in> L \<union> live J 0 S' \<Longrightarrow> m (hash_of J x) = Some (node_of J x)"
  shows "mts_exact J S' \<lparr>mts_nodes = m |` (- hash_of J ` (L - live J 0 S')), mts_stale = {}\<rparr>"
proof -
  have "(m |` (- hash_of J ` (L - live J 0 S'))) k = Some nd \<longleftrightarrow> (\<exists>x \<in> live J 0 S'. hash_of J x = k \<and> node_of J x = nd)" for k nd
  proof
    assume "(m |` (- hash_of J ` (L - live J 0 S'))) k = Some nd"
    then have k: "k \<notin> hash_of J ` (L - live J 0 S')" "m k = Some nd" by (auto simp: restrict_map_def split: if_splits)
    then obtain x where x: "x \<in> L \<union> live J 0 S'" "k = hash_of J x" using d domI [of m k nd] by blast
    then show "\<exists>x \<in> live J 0 S'. hash_of J x = k \<and> node_of J x = nd" using k m [OF x(1)] by auto
  next
    assume "\<exists>x \<in> live J 0 S'. hash_of J x = k \<and> node_of J x = nd"
    then obtain x where x: "x \<in> live J 0 S'" "hash_of J x = k" "node_of J x = nd" by blast
    then have "k \<notin> hash_of J ` (L - live J 0 S')" using apartD(1) [OF ap, of x] by blast
    then show "(m |` (- hash_of J ` (L - live J 0 S'))) k = Some nd" using x m [of x] by (simp add: restrict_map_def)
  qed
  then show ?thesis by (simp add: mts_exact_def)
qed

lemma write_update:
  assumes S: "mts_exact J S s" and ap: "apart J (live J 0 S \<union> live J 0 S')"
    and dom: "dom (batch_nodes batch) = hash_of J ` (live J 0 S' - live J 0 S)" and fin: "finite (batch_stale batch)"
  shows "write_tree_update_batch batch s = (\<lparr>mts_nodes = mts_nodes s ++ batch_nodes batch, mts_stale = batch_stale batch\<rparr>, Inr ())"
proof -
  have "finite (dom (batch_nodes batch))" unfolding dom using finite_live [of J 0 S'] by simp
  note nl = node_list_ok [OF this]
  have keys: "fst ` set (node_list (batch_nodes batch)) = dom (batch_nodes batch)"
    using nl dom_map_of_conv_image_fst [of "node_list (batch_nodes batch)"] by simp
  have "hash_of J ` (live J 0 S' - live J 0 S) \<inter> hash_of J ` live J 0 S = {}"
    using apartD(1) [OF ap] by auto
  then have "mts_put_nodes (node_list (batch_nodes batch)) s = (s\<lparr>mts_nodes := mts_nodes s ++ batch_nodes batch\<rparr>, Inr ())"
    using mts_put_nodes_eq [of "node_list (batch_nodes batch)" s] nl unfolding keys dom mts_exactD(2) [OF S] by simp
  then show ?thesis
    using mts_put_stales_eq [OF stale_list_ok(2) [OF fin], of "s\<lparr>mts_nodes := mts_nodes s ++ batch_nodes batch\<rparr>"]
      stale_list_ok(1) [OF fin] mts_exactD(3) [OF S]
    by (cases s) (simp add: write_tree_update_batch_def)
qed

lemma takeWhile_sorted_eq:
  "sorted (map f xs) \<Longrightarrow> takeWhile (\<lambda>x. f x = r) xs = (if \<exists>x \<in> set xs. f x < r then [] else filter (\<lambda>x. f x = r) xs)"
proof (induction xs)
  case (Cons x xs)
  have x: "f x \<le> f y" if "y \<in> set xs" for y using Cons.prems that by auto
  consider "f x < r" | "f x = r" | "r < f x" by (rule linorder_cases)
  then show ?case
  proof cases
    case 2
    then have "\<not> (\<exists>y \<in> set xs. f y < r)" using x leD by blast
    then show ?thesis using Cons 2 by simp
  next
    case 3
    then have "r < f y" if "y \<in> set xs" for y using x [OF that] by (rule less_le_trans)
    then have "filter (\<lambda>y. f y = r) xs = []" "\<not> (\<exists>y \<in> set xs. f y < r)" by (force simp: filter_empty_conv)+
    then show ?thesis using 3 by auto
  qed auto
qed simp

lemma purge_eq:
  assumes fin: "finite (mts_stale s)"
    and sub: "stale_node_key ` {i \<in> mts_stale s. stale_since_version i = r} \<subseteq> dom (mts_nodes s)"
  shows "purge_stale_nodes r s =
    (if \<exists>i \<in> mts_stale s. stale_since_version i < r then s
     else s\<lparr>mts_nodes := mts_nodes s |` (- stale_node_key ` {i \<in> mts_stale s. stale_since_version i = r}),
       mts_stale := {i \<in> mts_stale s. stale_since_version i \<noteq> r}\<rparr>, Inr ())"
proof -
  let ?D = "{i \<in> mts_stale s. stale_since_version i = r}" and ?l = "stale_list (mts_stale s)"
  note sl = stale_list_ok [OF fin]
  have "sorted (map stale_since_version ?l)"
    using sl(3) by (simp add: sorted_map) (erule sorted_wrt_mono_rel [rotated], auto)
  then have tw: "takeWhile (\<lambda>log. stale_since_version log = r) ?l =
      (if \<exists>i \<in> mts_stale s. stale_since_version i < r then [] else filter (\<lambda>log. stale_since_version log = r) ?l)"
    using takeWhile_sorted_eq [of stale_since_version ?l r] sl(1) by simp
  let ?f = "filter (\<lambda>log. stale_since_version log = r) ?l"
  have f: "set ?f = ?D" using sl(1) by auto
  have "inj_on stale_node_key ?D" by (auto intro!: inj_onI StaleNodeIndex.equality)
  then have "distinct (map stale_node_key ?f)" using sl(2) f by (simp add: distinct_map)
  note run = purge_logs_eq [OF this, of s]
  have "mts_stale s - ?D = {i \<in> mts_stale s. stale_since_version i \<noteq> r}" by auto
  then show ?thesis using run sub unfolding purge_stale_nodes_def tw f by simp
qed

text \<open>C17: A mock store that holds exactly one version takes the batch of a single-key update and then has both versions;
  purging at the new root removes exactly the nodes the update dropped, and the store holds
  exactly the new version.\<close>

theorem update_then_purge:
  fixes J :: "('k, 'h::linorder) jelly"
  assumes C: "crypto_ok (jcrypto J)" and S: "leaves_ok J 0 S" "S \<noteq> {}" and s: "mts_exact J S s"
    and S': "S' = leaf_update J key b S" and nc: "no_collision J {S, S'}"
  shows "\<exists>batch s1 s2. updates J (mts_reader s) (Some (smt J 256 S)) [(key, b)] = Inr (smt J 256 S', batch) \<and>
    write_tree_update_batch batch s = (s1, Inr ()) \<and> stores J (mts_reader s1) S \<and> stores J (mts_reader s1) S' \<and>
    purge_stale_nodes (smt J 256 S') s1 = (s2, Inr ()) \<and> mts_exact J S' s2"
proof -
  have R: "stores J (mts_reader s) S" using mts_exactD(1) [OF s] by (simp add: stores_def mts_reader_def)
  from single_update_eq [OF C S R S' nc] obtain batch
    where b: "updates J (mts_reader s) (Some (smt J 256 S)) [(key, b)] = Inr (smt J 256 S', batch)"
    "dom (batch_nodes batch) = hash_of J ` (live J 0 S' - live J 0 S)"
    "\<forall>x \<in> live J 0 S' - live J 0 S. batch_nodes batch (hash_of J x) = Some (node_of J x)"
    "batch_stale batch = (\<lambda>x. \<lparr>stale_since_version = smt J 256 S', stale_node_key = hash_of J x\<rparr>) `
      (live J 0 S - live J 0 S')" by (elim exE conjE)
  have okS': "leaves_ok J 0 S'" unfolding S' by (rule leaves_ok_update_0 [OF C S(1)])
  have "apart J (\<Union>S \<in> {S, S'}. live J 0 S)" by (rule no_collision_apart [OF C _ nc]) (use S okS' in auto)
  then have ap: "apart J (live J 0 S \<union> live J 0 S')" by simp
  have fin: "finite (batch_stale batch)" unfolding b(4) using finite_live [of J 0 S] by simp
  let ?s1 = "\<lparr>mts_nodes = mts_nodes s ++ batch_nodes batch, mts_stale = batch_stale batch\<rparr>"
  note w = write_update [OF s ap b(2) fin]
  have key: "hash_of J x \<in> dom (batch_nodes batch) \<longleftrightarrow> x \<notin> live J 0 S" if "x \<in> live J 0 S \<union> live J 0 S'" for x
    unfolding b(2) using apartD(1) [OF ap] that by (auto simp: image_iff)
  have n1: "mts_nodes ?s1 (hash_of J x) = Some (node_of J x)" if "x \<in> live J 0 S \<union> live J 0 S'" for x
    using that key [OF that] bspec [OF b(3), of x] mts_exactD(1) [OF s, of x] by (cases "x \<in> live J 0 S") (auto simp: map_add_def domIff)
  have d1: "dom (mts_nodes ?s1) = hash_of J ` (live J 0 S \<union> live J 0 S')"
    using mts_exactD(2) [OF s] b(2) by (simp add: dom_map_add) blast
  have keys: "stale_node_key ` batch_stale batch = hash_of J ` (live J 0 S - live J 0 S')" by (simp add: b(4) image_image)
  have ver: "{i \<in> mts_stale ?s1. stale_since_version i = smt J 256 S'} = batch_stale batch"
    "{i \<in> mts_stale ?s1. stale_since_version i \<noteq> smt J 256 S'} = {}" "\<not> (\<exists>i \<in> mts_stale ?s1. stale_since_version i < smt J 256 S')"
    by (auto simp: b(4))
  have sub: "stale_node_key ` {i \<in> mts_stale ?s1. stale_since_version i = smt J 256 S'} \<subseteq> dom (mts_nodes ?s1)"
    unfolding ver(1) d1 keys by blast
  have "finite (mts_stale ?s1)" using fin by simp
  from purge_eq [OF this sub] have p: "purge_stale_nodes (smt J 256 S') ?s1 =
      (\<lparr>mts_nodes = mts_nodes ?s1 |` (- hash_of J ` (live J 0 S - live J 0 S')), mts_stale = {}\<rparr>, Inr ())"
    unfolding ver keys using ver(3) by simp
  have "mts_exact J S' \<lparr>mts_nodes = mts_nodes ?s1 |` (- hash_of J ` (live J 0 S - live J 0 S')), mts_stale = {}\<rparr>"
    by (rule mts_exact_restrict [OF ap d1 n1])
  then show ?thesis using b(1) w p n1 by (auto simp: stores_def mts_reader_def)
qed

text \<open>C34: A purge of a store whose records at the given root name present nodes does nothing when there is a stale
  record of a version whose hash sorts before that root; otherwise it removes exactly the
  nodes that became stale at that root, and their records. The comment on the code says that
  records retired before or at a version can be purged.\<close>

theorem purge_effect:
  fixes s :: "('k, 'h::linorder) MockTreeStore"
  assumes "finite (mts_stale s)"
    and "stale_node_key ` {i \<in> mts_stale s. stale_since_version i = state_root_hash} \<subseteq> dom (mts_nodes s)"
  shows "purge_stale_nodes state_root_hash s =
    (if \<exists>i \<in> mts_stale s. stale_since_version i < state_root_hash then s
     else s\<lparr>mts_nodes := mts_nodes s |` (- stale_node_key ` {i \<in> mts_stale s. stale_since_version i = state_root_hash}),
       mts_stale := {i \<in> mts_stale s. stale_since_version i \<noteq> state_root_hash}\<rparr>, Inr ())"
  by (rule purge_eq [OF assms])

definition sample_store :: "(hash256, hash256) MockTreeStore" where
  "sample_store = \<lparr>mts_nodes = [leaf_crypto_hash sample_jelly sample_a \<mapsto> Leaf sample_a], mts_stale = {}\<rparr>"

theorem update_then_purge_witness:
  "\<exists>batch s1 s2. updates sample_jelly (mts_reader sample_store) (Some (smt sample_jelly 256 {sample_a})) [(sample_key, Some [2])] =
      Inr (smt sample_jelly 256 {sample_a, sample_b}, batch) \<and>
    write_tree_update_batch batch sample_store = (s1, Inr ()) \<and>
    purge_stale_nodes (smt sample_jelly 256 {sample_a, sample_b}) s1 = (s2, Inr ()) \<and>
    mts_exact sample_jelly {sample_a, sample_b} s2"
proof -
  have ok: "leaves_ok sample_jelly 0 {sample_a}" by (rule sample_leaves_ok) blast
  have ex: "mts_exact sample_jelly {sample_a} sample_store"
    by (auto simp: mts_exact_def sample_store_def nid_def hash_of_def node_of_def cnode_def split: if_splits)
  have up: "{sample_a, sample_b} = leaf_update sample_jelly sample_key (Some [2]) {sample_a}" by (simp add: sample_updates)
  have nc: "no_collision sample_jelly {{sample_a}, {sample_a, sample_b}}" by (rule sample_no_collision) blast
  show ?thesis using update_then_purge [OF sample_jelly_ok(1) ok _ ex up nc] by blast
qed

theorem purge_effect_witness:
  "purge_stale_nodes (2 :: hash256) (sample_store\<lparr>mts_stale := {\<lparr>stale_since_version = 1, stale_node_key = 7\<rparr>}\<rparr>) =
    (sample_store\<lparr>mts_stale := {\<lparr>stale_since_version = 1, stale_node_key = 7\<rparr>}\<rparr>, Inr ())"
proof -
  let ?s = "sample_store\<lparr>mts_stale := {\<lparr>stale_since_version = 1 :: hash256, stale_node_key = 7\<rparr>}\<rparr>"
  have "finite (mts_stale ?s)" "stale_node_key ` {i \<in> mts_stale ?s. stale_since_version i = 2} \<subseteq> dom (mts_nodes ?s)"
    by auto
  from purge_effect [OF this] show ?thesis by simp
qed

end
