(* ===== verification/Jellyfish_Iter.thy ===== *)
theory Jellyfish_Iter
  imports State_Tree
begin

text \<open>
  The iterator over a version of the tree, \<^verbatim>\<open>iterator/mod.rs\<close>, and \<^verbatim>\<open>StateTree::dump\<close> that drains it.
  A call that does not end is \<open>None\<close>: shifting a child bit out of its 16 bits, or a store whose
  nodes form a cycle. The vector of parents is a list with its last element first.
\<close>

section \<open>Definitions\<close>

record 'h NodeVisitInfo =
  visit_key :: 'h
  visit_node :: "'h Children"
  children_bitmap :: u16
  next_child_to_visit :: u16

definition visit_info_new :: "'h \<Rightarrow> 'h Children \<Rightarrow> 'h NodeVisitInfo jelly_result" where
  "visit_info_new node_key nd =
     obind (generate_bitmaps nd) (\<lambda>(bitmap, _).
     Inr \<lparr>visit_key = node_key, visit_node = nd, children_bitmap = bitmap,
          next_child_to_visit = shl 1 (trailing_zeros bitmap)\<rparr>)"

text \<open>
  The loop that shifts to the next child. After sixteen shifts the bit is gone and the loop
  never ends, so seventeen rounds are all there is to run.
\<close>

fun shift_to_child :: "nat \<Rightarrow> u16 \<Rightarrow> u16 \<Rightarrow> u16 option" where
  "shift_to_child 0 bitmap x = None"
| "shift_to_child (Suc n) bitmap x =
     (if x AND bitmap = 0 then shift_to_child n bitmap (shl x 1) else Some x)"

definition new_next_child_to_visit ::
  "'h \<Rightarrow> 'h Children \<Rightarrow> Nibble \<Rightarrow> 'h NodeVisitInfo jelly_result option" where
  "new_next_child_to_visit node_key nd child_index =
     (case generate_bitmaps nd of
        Inl e \<Rightarrow> Some (Inl e)
      | Inr (bitmap, _) \<Rightarrow>
          (case shift_to_child 17 bitmap (shl 1 (unat child_index)) of
             None \<Rightarrow> None
           | Some x \<Rightarrow> Some (Inr \<lparr>visit_key = node_key, visit_node = nd, children_bitmap = bitmap, next_child_to_visit = x\<rparr>)))"

definition is_rightmost :: "'h NodeVisitInfo \<Rightarrow> bool jelly_result" where
  "is_rightmost info =
     obind (assert_that (leading_zeros (next_child_to_visit info) \<ge> leading_zeros (children_bitmap info))) (\<lambda>_.
     Inr (leading_zeros (next_child_to_visit info) = leading_zeros (children_bitmap info)))"

definition advance :: "'h NodeVisitInfo \<Rightarrow> 'h NodeVisitInfo jelly_result option" where
  "advance info =
     (case obind (is_rightmost info) (\<lambda>r. assert_that (\<not> r)) of
        Inl e \<Rightarrow> Some (Inl e)
      | Inr _ \<Rightarrow>
          (case shift_to_child 17 (children_bitmap info) (shl (next_child_to_visit info) 1) of
             None \<Rightarrow> None
           | Some x \<Rightarrow> Some (Inr (info\<lparr>next_child_to_visit := x\<rparr>))))"

record 'h JellyfishMerkleIterator =
  it_root_hash :: 'h
  parent_stack :: "'h NodeVisitInfo list"
  it_done :: bool

fun cleanup_stack :: "'h NodeVisitInfo list \<Rightarrow> 'h NodeVisitInfo list jelly_result option" where
  "cleanup_stack [] = Some (Inr [])"
| "cleanup_stack (info # stack) =
     (case is_rightmost info of
        Inl e \<Rightarrow> Some (Inl e)
      | Inr True \<Rightarrow> cleanup_stack stack
      | Inr False \<Rightarrow>
          (case advance info of
             None \<Rightarrow> None
           | Some (Inl e) \<Rightarrow> Some (Inl e)
           | Some (Inr info) \<Rightarrow> Some (Inr (info # stack))))"

text \<open>The end of \<^verbatim>\<open>new\<close>, below the internal nodes.\<close>

definition iterator_new_bottom ::
  "('k, 'h::linorder) jelly \<Rightarrow> ('k, 'h) TreeReader \<Rightarrow> 'h \<Rightarrow> 'h \<Rightarrow> 'h NodeVisitInfo list \<Rightarrow> 'h
    \<Rightarrow> 'h JellyfishMerkleIterator jelly_result option" where
  "iterator_new_bottom J R state_root_hash starting_key stack current_node_key =
     (case get_node R current_node_key of
        Inl e \<Rightarrow> Some (Inl e)
      | Inr (Internal _) \<Rightarrow> Some (Inl Panic)
      | Inr (Leaf leaf_node) \<Rightarrow>
          if key_hash J (raw_key leaf_node) < starting_key
          then (case cleanup_stack stack of
                  None \<Rightarrow> None
                | Some (Inl e) \<Rightarrow> Some (Inl e)
                | Some (Inr stack) \<Rightarrow>
                    Some (Inr \<lparr>it_root_hash = state_root_hash, parent_stack = stack, it_done = (stack = [])\<rparr>))
          else Some (Inr \<lparr>it_root_hash = state_root_hash, parent_stack = stack, it_done = False\<rparr>)
      | Inr Null \<Rightarrow> Some (Inr \<lparr>it_root_hash = state_root_hash, parent_stack = stack, it_done = True\<rparr>))"

text \<open>
  The loop of \<^verbatim>\<open>new\<close>. Each round takes a nibble of the starting key and panics when there is none
  left, so one round more than the nibbles of a key are all there is to run.
\<close>

fun iterator_new_loop ::
  "nat \<Rightarrow> ('k, 'h::linorder) jelly \<Rightarrow> ('k, 'h) TreeReader \<Rightarrow> 'h \<Rightarrow> 'h \<Rightarrow> 'h NodeVisitInfo list \<Rightarrow> 'h \<Rightarrow> NibbleIterator
    \<Rightarrow> 'h JellyfishMerkleIterator jelly_result option" where
  "iterator_new_loop 0 J R state_root_hash starting_key stack current_node_key nibble_iter = None"
| "iterator_new_loop (Suc n) J R state_root_hash starting_key stack current_node_key nibble_iter =
     (case get_node R current_node_key of
        Inl e \<Rightarrow> Some (Inl e)
      | Inr (Internal internal_node) \<Rightarrow>
          (case obind (nibble_next nibble_iter) (\<lambda>(x, it). obind (expect x) (\<lambda>i. Inr (i, it))) of
             Inl e \<Rightarrow> Some (Inl e)
           | Inr (child_index, nibble_iter) \<Rightarrow>
               (case internal_node child_index of
                  Some child \<Rightarrow>
                    (case new_next_child_to_visit current_node_key internal_node child_index of
                       None \<Rightarrow> None
                     | Some (Inl e) \<Rightarrow> Some (Inl e)
                     | Some (Inr info) \<Rightarrow>
                         iterator_new_loop n J R state_root_hash starting_key (info # stack) (child_hash child) nibble_iter)
                | None \<Rightarrow>
                    (case generate_bitmaps internal_node of
                       Inl e \<Rightarrow> Some (Inl e)
                     | Inr (bitmap, _) \<Rightarrow>
                         (case (if (ucast child_index :: 32 word) < 15 - word_of_nat (leading_zeros bitmap)
                                then (case new_next_child_to_visit current_node_key internal_node child_index of
                                        None \<Rightarrow> None
                                      | Some (Inl e) \<Rightarrow> Some (Inl e)
                                      | Some (Inr info) \<Rightarrow> Some (Inr (info # stack)))
                                else cleanup_stack stack) of
                            None \<Rightarrow> None
                          | Some (Inl e) \<Rightarrow> Some (Inl e)
                          | Some (Inr stack) \<Rightarrow>
                              Some (Inr \<lparr>it_root_hash = state_root_hash, parent_stack = stack, it_done = False\<rparr>)))))
      | Inr _ \<Rightarrow> iterator_new_bottom J R state_root_hash starting_key stack current_node_key)"

definition iterator_new ::
  "('k, 'h::linorder) jelly \<Rightarrow> ('k, 'h) TreeReader \<Rightarrow> 'h \<Rightarrow> 'h \<Rightarrow> 'h JellyfishMerkleIterator jelly_result option" where
  "iterator_new J R state_root_hash starting_key =
     iterator_new_loop (ROOT_NIBBLE_HEIGHT + 1) J R state_root_hash starting_key [] state_root_hash
       (path_nibbles (nibble_path_new (to_vec (jcrypto J) starting_key)))"

text \<open>The item of a call of \<^verbatim>\<open>next\<close>; a panic is an item with that fault.\<close>

type_synonym 'k iterator_item = "('k \<times> Blob) jelly_result option"

partial_function (option) iterator_next_loop ::
  "('k, 'h) TreeReader \<Rightarrow> 'h JellyfishMerkleIterator \<Rightarrow> ('h JellyfishMerkleIterator \<times> 'k iterator_item) option" where
  "iterator_next_loop R it =
     (case parent_stack it of
        [] \<Rightarrow> Some (it, Some (Inl Panic))
      | info # _ \<Rightarrow>
          (case obind (nibble_from (word_of_nat (trailing_zeros (next_child_to_visit info)))) (\<lambda>child_index.
                expect (visit_node info child_index)) of
             Inl e \<Rightarrow> Some (it, Some (Inl e))
           | Inr child \<Rightarrow>
               (case get_node R (child_hash child) of
                  Inl e \<Rightarrow> Some (it, Some (Inl e))
                | Inr (Internal internal_node) \<Rightarrow>
                    (case visit_info_new (child_hash child) internal_node of
                       Inl e \<Rightarrow> Some (it, Some (Inl e))
                     | Inr visit_info \<Rightarrow>
                         iterator_next_loop R (it\<lparr>parent_stack := visit_info # parent_stack it\<rparr>))
                | Inr (Leaf leaf_node) \<Rightarrow>
                    (case cleanup_stack (parent_stack it) of
                       None \<Rightarrow> None
                     | Some (Inl e) \<Rightarrow> Some (it, Some (Inl e))
                     | Some (Inr stack) \<Rightarrow>
                         Some (it\<lparr>parent_stack := stack\<rparr>, Some (Inr (raw_key leaf_node, blob leaf_node))))
                | Inr Null \<Rightarrow> Some (it, Some (Inl (Err UnexpectedNull))))))"

definition iterator_next ::
  "('k, 'h) TreeReader \<Rightarrow> 'h JellyfishMerkleIterator \<Rightarrow> ('h JellyfishMerkleIterator \<times> 'k iterator_item) option" where
  "iterator_next R it =
     (if it_done it then Some (it, None)
      else if parent_stack it = [] then
        (case get_node R (it_root_hash it) of
           Inl e \<Rightarrow> Some (it, Some (Inl e))
         | Inr (Leaf leaf_node) \<Rightarrow> Some (it\<lparr>it_done := True\<rparr>, Some (Inr (raw_key leaf_node, blob leaf_node)))
         | Inr (Internal _) \<Rightarrow> Some (it, None)
         | Inr Null \<Rightarrow> Some (it, Some (Inl Panic)))
      else iterator_next_loop R it)"

text \<open>\<^verbatim>\<open>StateTree::dump\<close>: \<open>encode_key\<close> is the method of the key type.\<close>

partial_function (option) dump_loop ::
  "('k \<Rightarrow> u8 list jelly_result) \<Rightarrow> ('k, 'h) TreeReader \<Rightarrow> 'h JellyfishMerkleIterator \<Rightarrow> (u8 list \<times> Blob) list
    \<Rightarrow> (u8 list \<times> Blob) list jelly_result option" where
  "dump_loop encode_key R it states =
     (case iterator_next R it of
        None \<Rightarrow> None
      | Some (it, item) \<Rightarrow>
          (case item of
             None \<Rightarrow> Some (Inr states)
           | Some r \<Rightarrow>
               (case obind r (\<lambda>(key, b). obind (encode_key key) (\<lambda>k. Inr (k, b))) of
                  Inl e \<Rightarrow> Some (Inl e)
                | Inr kb \<Rightarrow> dump_loop encode_key R it (states @ [kb]))))"

definition state_dump ::
  "('k, 'h::linorder) jelly \<Rightarrow> ('s, 'h) StateNodeStore \<Rightarrow> ('k \<Rightarrow> u8 list jelly_result) \<Rightarrow> 'h \<Rightarrow> ('s, 'k, 'h) StateTree
    \<Rightarrow> (u8 list \<times> Blob) list jelly_result option" where
  "state_dump J N encode_key zero t =
     (case iterator_new J (cached_tree_reader J N t) (state_root t) zero of
        None \<Rightarrow> None
      | Some (Inl e) \<Rightarrow> Some (Inl e)
      | Some (Inr it) \<Rightarrow> dump_loop encode_key (cached_tree_reader J N t) it [])"

end
