(* ===== verification/Iter_Spec.thy ===== *)
theory Iter_Spec
  imports Jellyfish_Iter
begin

text \<open>
  What the iterator promises: the leaves of the tree from the starting key on, in the order of
  their keys, each once. The parents on its stack stand for the leaves that are still to come.
\<close>

section \<open>Shifting to the next child\<close>

lemma leading_zeros_eqI:
  fixes a :: "'a::len word"
  assumes "bit a n" "\<And>i. n < i \<Longrightarrow> \<not> bit a i"
  shows "leading_zeros a = LENGTH('a) - 1 - n"
proof -
  have n: "n < LENGTH('a)" using assms(1) by (rule bit_imp_le_length)
  have b: "bit (unat a) i \<longleftrightarrow> bit a i" for i by (simp add: bit_unsigned_iff)
  have "a \<noteq> 0" using assms(1) by auto
  then have "0 < unat a" by (simp add: unat_gt_0)
  then have "bit a (blen (unat a) - 1)" using bit_blen_pred b by blast
  then have "blen (unat a) - 1 \<le> n" using assms(2) not_le by blast
  moreover have "n < blen (unat a)" using bit_blen [of "unat a" n] b assms(1) not_le by blast
  ultimately show ?thesis using n by (simp add: leading_zeros_blen)
qed

lemma shift_to_child_eq:
  assumes "n \<le> m" "m < 16" "bit bitmap m" "\<And>i. n \<le> i \<Longrightarrow> i < m \<Longrightarrow> \<not> bit bitmap i" "m - n < fuel"
  shows "shift_to_child fuel bitmap (2 ^ n) = Some (2 ^ m)"
  using assms
proof (induction fuel arbitrary: n)
  case (Suc fuel)
  have z: "2 ^ n AND bitmap = 0 \<longleftrightarrow> \<not> bit bitmap n"
    by (subst and.commute) (rule and_exp_eq_0_iff_not_bit)
  show ?case
  proof (cases "n = m")
    case True
    then show ?thesis using Suc.prems(3) z by simp
  next
    case False
    then have "shift_to_child fuel bitmap (2 ^ Suc n) = Some (2 ^ m)" using Suc.prems by (intro Suc.IH) auto
    moreover have "shl (2 ^ n :: u16) 1 = 2 ^ Suc n" by (simp add: shl_def push_bit_eq_mult)
    ultimately show ?thesis using Suc.prems(1,4) False z by simp
  qed
qed simp

section \<open>The leaves in order\<close>

function ord :: "('k, 'h) jelly \<Rightarrow> nat \<Rightarrow> ('k, 'h) leaves \<Rightarrow> ('k, 'h) LeafNode list" where
  "ord J d A =
     (if A = {} then []
      else if is_singleton A \<or> 64 \<le> d then [the_elem A]
      else concat (map (\<lambda>n. ord J (Suc d) (sub J d (nib n) A)) [0..<16]))"
  by pat_completeness auto
termination by (relation "measure (\<lambda>(J, d, A). 64 - d)") auto

declare ord.simps [simp del]

definition from_child :: "('k, 'h) jelly \<Rightarrow> nat \<Rightarrow> ('k, 'h) leaves \<Rightarrow> nat \<Rightarrow> ('k, 'h) LeafNode list" where
  "from_child J d A n = concat (map (\<lambda>m. ord J (Suc d) (sub J d (nib m) A)) [n..<16])"

lemma ord_empty [simp]: "ord J d {} = []"
  by (simp add: ord.simps)

lemma ord_singleton [simp]: "ord J d {l} = [l]"
  by (simp add: ord.simps)

lemma ord_step: "A \<noteq> {} \<Longrightarrow> \<not> is_singleton A \<Longrightarrow> d < 64 \<Longrightarrow> ord J d A = from_child J d A 0"
  unfolding from_child_def by (subst ord.simps) simp

lemma from_child_Suc: "n < 16 \<Longrightarrow> from_child J d A n = ord J (Suc d) (sub J d (nib n) A) @ from_child J d A (Suc n)"
  by (simp add: from_child_def upt_conv_Cons)

lemma from_child_end: "from_child J d A n = []" if "\<And>i. n \<le> i \<Longrightarrow> i < 16 \<Longrightarrow> sub J d (nib i) A = {}"
  unfolding from_child_def using that by simp

lemma from_child_skip:
  assumes "n \<le> m" "m \<le> 16" "\<And>i. n \<le> i \<Longrightarrow> i < m \<Longrightarrow> sub J d (nib i) A = {}"
  shows "from_child J d A n = from_child J d A m"
proof -
  have "[n..<16] = [n..<m] @ [m..<16]" using assms(1,2) by (metis le_add_diff_inverse upt_add_eq_append)
  then show ?thesis unfolding from_child_def using assms(3) by simp
qed

section \<open>Parents\<close>

definition good :: "('k, 'h) jelly \<Rightarrow> ('k, 'h) TreeReader \<Rightarrow> nat \<Rightarrow> ('k, 'h) leaves \<Rightarrow> bool" where
  "good J R d A \<longleftrightarrow> leaves_ok J d A \<and> A \<noteq> {} \<and> (\<forall>x \<in> live J d A. R (hash_of J x) = Inr (Some (node_of J x)))"

definition frame :: "('k, 'h) jelly \<Rightarrow> ('k, 'h) TreeReader \<Rightarrow> 'h NodeVisitInfo \<Rightarrow> nat \<times> ('k, 'h) leaves \<times> nat \<Rightarrow> bool" where
  "frame J R info f \<longleftrightarrow> (case f of (d, A, n) \<Rightarrow>
     good J R d A \<and> \<not> is_singleton A \<and> d < 64 \<and> n < 16 \<and> sub J d (nib n) A \<noteq> {} \<and>
     visit_node info = cchildren J d A \<and> next_child_to_visit info = 2 ^ n \<and>
     (\<forall>i. bit (children_bitmap info) i \<longleftrightarrow> i < 16 \<and> sub J d (nib i) A \<noteq> {}))"

fun after :: "('k, 'h) jelly \<Rightarrow> (nat \<times> ('k, 'h) leaves \<times> nat) list \<Rightarrow> ('k, 'h) LeafNode list" where
  "after J [] = []"
| "after J ((d, A, n) # fs) = from_child J d A (Suc n) @ after J fs"

fun coming :: "('k, 'h) jelly \<Rightarrow> (nat \<times> ('k, 'h) leaves \<times> nat) list \<Rightarrow> ('k, 'h) LeafNode list" where
  "coming J [] = []"
| "coming J ((d, A, n) # fs) = from_child J d A n @ after J fs"

lemma cchildren_nib: "i < 16 \<Longrightarrow> cchildren J d A (nib i) =
    (if sub J d (nib i) A \<noteq> {} then Some (child_new (hash_at J (Suc d) (sub J d (nib i) A)) (is_singleton (sub J d (nib i) A))) else None)"
  by (simp add: cchildren_def nib_less)

lemma bitmap_cchildren:
  "\<exists>e l. generate_bitmaps (cchildren J d A) = Inr (e, l) \<and> (\<forall>i. bit e i \<longleftrightarrow> i < 16 \<and> sub J d (nib i) A \<noteq> {})"
  using generate_bitmaps_eq [of "cchildren J d A"] by (auto simp: cchildren_nib)

lemma ex_child:
  assumes C: "crypto_ok (jcrypto J)" and A: "d < 64" "A \<noteq> {}"
  shows "\<exists>n<16. sub J d (nib n) A \<noteq> {}"
proof -
  obtain l where l: "l \<in> A" using A(2) by blast
  have "lpath J l ! d < 16" by (rule lpath_less [OF C A(1)])
  then have "unat (lpath J l ! d) < 16" "nib (unat (lpath J l ! d)) = lpath J l ! d" by (simp_all add: unat_less_16)
  then show ?thesis using l by (intro exI [of _ "unat (lpath J l ! d)"]) (auto simp: sub_def)
qed

lemma last_child:
  assumes "\<And>i. bit (e :: u16) i \<longleftrightarrow> i < 16 \<and> sub J d (nib i) A \<noteq> {}" "n < 16" "sub J d (nib n) A \<noteq> {}"
  obtains h where "h < 16" "sub J d (nib h) A \<noteq> {}" "\<forall>i. i < 16 \<longrightarrow> sub J d (nib i) A \<noteq> {} \<longrightarrow> i \<le> h" "leading_zeros e = 15 - h"
proof -
  let ?b = "\<lambda>i. i < 16 \<and> sub J d (nib i) A \<noteq> {}"
  define h where "h = (GREATEST i. ?b i)"
  have h: "?b h" unfolding h_def by (rule GreatestI_nat [of ?b n 16]) (use assms(2,3) in auto)
  have le: "i \<le> h" if "?b i" for i unfolding h_def by (rule Greatest_le_nat [of ?b i 16]) (use that in auto)
  have "leading_zeros e = 15 - h" using leading_zeros_eqI [of e h] assms(1) h le not_le by fastforce
  then show thesis using that [of h] h le by blast
qed

lemma is_rightmost_eq:
  assumes "frame J R info (d, A, n)"
  shows "is_rightmost info = Inr (\<forall>i. n < i \<longrightarrow> i < 16 \<longrightarrow> sub J d (nib i) A = {})"
proof -
  let ?b = "\<lambda>i. i < 16 \<and> sub J d (nib i) A \<noteq> {}"
  have f: "?b n" "next_child_to_visit info = 2 ^ n" "\<And>i. bit (children_bitmap info) i \<longleftrightarrow> ?b i"
    using assms by (auto simp: frame_def)
  obtain h where h: "h < 16" "sub J d (nib h) A \<noteq> {}" "\<forall>i. i < 16 \<longrightarrow> sub J d (nib i) A \<noteq> {} \<longrightarrow> i \<le> h"
    and "leading_zeros (children_bitmap info) = 15 - h" using last_child [OF f(3)] f(1) by blast
  moreover have "leading_zeros (next_child_to_visit info) = 15 - n"
    using leading_zeros_eqI [of "next_child_to_visit info" n] f(1) by (simp add: f(2) bit_exp_iff)
  moreover have "n \<le> h" using f(1) h by auto
  moreover have "n = h \<longleftrightarrow> (\<forall>i. n < i \<longrightarrow> i < 16 \<longrightarrow> sub J d (nib i) A = {})"
    using h f(1) \<open>n \<le> h\<close> by (metis le_neq_implies_less not_le)
  ultimately show ?thesis using h(1) by (auto simp: is_rightmost_def)
qed

lemma advance_eq:
  assumes f: "frame J R info (d, A, n)" and i: "n < i" "i < 16" "sub J d (nib i) A \<noteq> {}"
  shows "\<exists>info' m. advance info = Some (Inr info') \<and> frame J R info' (d, A, m) \<and> from_child J d A m = from_child J d A (Suc n)"
proof -
  let ?b = "\<lambda>i. n < i \<and> i < 16 \<and> sub J d (nib i) A \<noteq> {}"
  define m where "m = (LEAST i. ?b i)"
  have m: "?b m" unfolding m_def by (rule LeastI [of ?b i]) (use i in simp)
  have least: "\<not> ?b j" if "j < m" for j using not_less_Least that unfolding m_def by blast
  have bits: "\<And>i. bit (children_bitmap info) i \<longleftrightarrow> i < 16 \<and> sub J d (nib i) A \<noteq> {}" "next_child_to_visit info = 2 ^ n"
    using f by (auto simp: frame_def)
  have "shl (next_child_to_visit info) 1 = 2 ^ Suc n" by (simp add: bits(2) shl_def push_bit_eq_mult)
  moreover have "shift_to_child 17 (children_bitmap info) (2 ^ Suc n) = Some (2 ^ m)"
    by (rule shift_to_child_eq) (use m least bits(1) in auto)
  moreover have "is_rightmost info = Inr False" using is_rightmost_eq [OF f] i by auto
  ultimately have "advance info = Some (Inr (info\<lparr>next_child_to_visit := 2 ^ m\<rparr>))" by (simp add: advance_def)
  moreover have "frame J R (info\<lparr>next_child_to_visit := 2 ^ m\<rparr>) (d, A, m)" using f m by (auto simp: frame_def)
  moreover have "from_child J d A (Suc n) = from_child J d A m" by (rule from_child_skip) (use m least in auto)
  ultimately show ?thesis by auto
qed

lemma cleanup_stack_eq:
  "list_all2 (frame J R) stack fs \<Longrightarrow>
    \<exists>stack' fs'. cleanup_stack stack = Some (Inr stack') \<and> list_all2 (frame J R) stack' fs' \<and> coming J fs' = after J fs"
proof (induction stack arbitrary: fs)
  case (Cons info stack)
  then obtain d A n gs where fs: "fs = (d, A, n) # gs" "frame J R info (d, A, n)" "list_all2 (frame J R) stack gs"
    by (cases fs) auto
  show ?case
  proof (cases "\<forall>i. n < i \<longrightarrow> i < 16 \<longrightarrow> sub J d (nib i) A = {}")
    case True
    then have "from_child J d A (Suc n) = []" by (intro from_child_end) auto
    then show ?thesis using is_rightmost_eq [OF fs(2)] True Cons.IH [OF fs(3)] by (simp add: fs(1))
  next
    case False
    then obtain i where i: "n < i" "i < 16" "sub J d (nib i) A \<noteq> {}" by blast
    obtain info' m where "advance info = Some (Inr info')" "frame J R info' (d, A, m)" "from_child J d A m = from_child J d A (Suc n)"
      using advance_eq [OF fs(2) i] by blast
    then show ?thesis using is_rightmost_eq [OF fs(2)] False fs(1,3)
      by (intro exI [of _ "info' # stack"] exI [of _ "(d, A, m) # gs"]) auto
  qed
qed (auto intro: exI [of _ "[]"])

lemma first_child:
  assumes "i < 16" "n \<le> i" "sub J d (nib i) A \<noteq> {}"
  obtains m where "n \<le> m" "m < 16" "sub J d (nib m) A \<noteq> {}" "\<forall>j. n \<le> j \<longrightarrow> j < m \<longrightarrow> sub J d (nib j) A = {}"
    "from_child J d A n = from_child J d A m" "sub J d (nib n) A \<noteq> {} \<longrightarrow> m = n"
proof -
  let ?b = "\<lambda>i. n \<le> i \<and> i < 16 \<and> sub J d (nib i) A \<noteq> {}"
  define m where "m = (LEAST i. ?b i)"
  have m: "?b m" unfolding m_def by (rule LeastI [of ?b i]) (use assms in simp)
  have least: "\<not> ?b j" if "j < m" for j using not_less_Least that unfolding m_def by blast
  show thesis
  proof (rule that)
    show "n \<le> m" "m < 16" "sub J d (nib m) A \<noteq> {}" using m by blast+
    have e: "sub J d (nib j) A = {}" if "n \<le> j" "j < m" for j using least [OF that(2)] that m by simp
    then show "\<forall>j. n \<le> j \<longrightarrow> j < m \<longrightarrow> sub J d (nib j) A = {}" by blast
    show "from_child J d A n = from_child J d A m" using m e by (intro from_child_skip) simp_all
    show "sub J d (nib n) A \<noteq> {} \<longrightarrow> m = n" using m least [of n] by fastforce
  qed
qed

lemma visit_info_new_eq:
  assumes C: "crypto_ok (jcrypto J)" and g: "good J R d A" "\<not> is_singleton A" "d < 64"
  shows "\<exists>info m. visit_info_new k (cchildren J d A) = Inr info \<and> frame J R info (d, A, m) \<and> from_child J d A m = ord J d A"
proof -
  have ne: "A \<noteq> {}" using g(1) by (simp add: good_def)
  obtain i where i: "i < 16" "sub J d (nib i) A \<noteq> {}" using ex_child [OF C g(3) ne] by blast
  obtain m where m: "m < 16" "sub J d (nib m) A \<noteq> {}" "\<forall>j. 0 \<le> j \<longrightarrow> j < m \<longrightarrow> sub J d (nib j) A = {}"
    "from_child J d A 0 = from_child J d A m" by (rule first_child [OF i(1) le0 i(2)])
  obtain e l where e: "generate_bitmaps (cchildren J d A) = Inr (e, l)" "\<And>i. bit e i \<longleftrightarrow> i < 16 \<and> sub J d (nib i) A \<noteq> {}"
    using bitmap_cchildren by blast
  have "trailing_zeros e = m" by (rule trailing_zeros_eqI) (use m e(2) in auto)
  moreover have "shl 1 m = (2 ^ m :: u16)" using m(1) by (simp add: shl_one)
  ultimately have "visit_info_new k (cchildren J d A) =
      Inr \<lparr>visit_key = k, visit_node = cchildren J d A, children_bitmap = e, next_child_to_visit = 2 ^ m\<rparr>"
    by (simp add: visit_info_new_def e(1))
  then show ?thesis using g m e(2) ord_step [OF ne g(2,3)] by (auto simp: frame_def)
qed

lemma new_next_child_to_visit_eq:
  assumes g: "good J R d A" "\<not> is_singleton A" "d < 64" and i: "i < 16" "n \<le> i" "sub J d (nib i) A \<noteq> {}"
  shows "\<exists>info m. new_next_child_to_visit k (cchildren J d A) (nib n) = Some (Inr info) \<and> frame J R info (d, A, m) \<and>
    from_child J d A m = from_child J d A n \<and> (sub J d (nib n) A \<noteq> {} \<longrightarrow> m = n)"
proof -
  obtain m where m: "n \<le> m" "m < 16" "sub J d (nib m) A \<noteq> {}" "\<forall>j. n \<le> j \<longrightarrow> j < m \<longrightarrow> sub J d (nib j) A = {}"
    "from_child J d A n = from_child J d A m" "sub J d (nib n) A \<noteq> {} \<longrightarrow> m = n"
    by (rule first_child [OF i])
  obtain e l where e: "generate_bitmaps (cchildren J d A) = Inr (e, l)" "\<And>i. bit e i \<longleftrightarrow> i < 16 \<and> sub J d (nib i) A \<noteq> {}"
    using bitmap_cchildren by blast
  have "shift_to_child 17 e (2 ^ n) = Some (2 ^ m)" by (rule shift_to_child_eq) (use m e(2) in auto)
  moreover have "shl 1 (unat (nib n)) = (2 ^ n :: u16)" using m(1,2) by (simp add: unat_nib shl_one)
  ultimately have "new_next_child_to_visit k (cchildren J d A) (nib n) =
      Some (Inr \<lparr>visit_key = k, visit_node = cchildren J d A, children_bitmap = e, next_child_to_visit = 2 ^ m\<rparr>)"
    by (simp add: new_next_child_to_visit_def e(1))
  then show ?thesis using g m e(2) by (auto simp: frame_def)
qed

section \<open>The next leaf\<close>

lemma good_read: "good J R d A \<Longrightarrow> is_singleton A \<or> d < 64 \<Longrightarrow> get_node R (hash_at J d A) = Inr (cnode J d A)"
  using nid_live [of A d J] unfolding good_def get_node_eq_Inr by (metis hash_of_nid node_of_nid)

lemma good_sub:
  assumes C: "crypto_ok (jcrypto J)" and g: "good J R d A" "d < 64" and n: "n < 16" "sub J d (nib n) A \<noteq> {}"
  shows "good J R (Suc d) (sub J d (nib n) A)" "\<not> is_singleton (sub J d (nib n) A) \<Longrightarrow> Suc d < 64"
proof -
  have A: "leaves_ok J d A" using g(1) by (simp add: good_def)
  have ok: "leaves_ok J (Suc d) (sub J d (nib n) A)" by (rule leaves_ok_sub [OF C A g(2)])
  have "live J (Suc d) (sub J d (nib n) A) \<subseteq> live J d A"
    by (rule live_sub_subset [OF C A g(2)]) (use n(1) in \<open>simp add: nib_less\<close>)
  then show "good J R (Suc d) (sub J d (nib n) A)" using g(1) ok n(2) unfolding good_def by blast
  show "\<not> is_singleton (sub J d (nib n) A) \<Longrightarrow> Suc d < 64" using leaves_ok_lt_64 [OF C ok n(2)] .
qed

lemma child_hash_new: "child_hash (child_new h b) = h"
  by (simp add: child_new_def)

lemma iterator_next_loop_eq:
  assumes C: "crypto_ok (jcrypto J)"
  shows "list_all2 (frame J R) (parent_stack it) ((d, A, n) # fs) \<Longrightarrow>
    \<exists>l it' fs'. iterator_next_loop R it = Some (it', Some (Inr (raw_key l, blob l))) \<and>
      it_root_hash it' = it_root_hash it \<and> it_done it' = it_done it \<and>
      list_all2 (frame J R) (parent_stack it') fs' \<and> coming J ((d, A, n) # fs) = l # coming J fs'"
proof (induction "64 - d" arbitrary: d A n fs it rule: less_induct)
  case less
  obtain info stack where st: "parent_stack it = info # stack" "frame J R info (d, A, n)" "list_all2 (frame J R) stack fs"
    using less.prems by (cases "parent_stack it") auto
  let ?B = "sub J d (nib n) A"
  have f: "good J R d A" "d < 64" "n < 16" "?B \<noteq> {}" "visit_node info = cchildren J d A" "next_child_to_visit info = 2 ^ n"
    using st(2) by (auto simp: frame_def)
  note B = good_sub [OF C f(1-4)]
  have "trailing_zeros (next_child_to_visit info) = n"
    unfolding f(6) by (rule trailing_zeros_eqI) (use f(3) in \<open>auto simp: bit_exp_iff\<close>)
  then have child: "obind (nibble_from (word_of_nat (trailing_zeros (next_child_to_visit info)))) (\<lambda>child_index.
      expect (visit_node info child_index)) = Inr (child_new (hash_at J (Suc d) ?B) (is_singleton ?B))"
    using f(3,4) nib_less [of n] by (simp add: nibble_from_def f(5) cchildren_nib)
  have coming: "coming J ((d, A, n) # fs) = ord J (Suc d) ?B @ after J ((d, A, n) # fs)"
    using f(3) by (simp add: from_child_Suc)
  show ?case
  proof (cases "is_singleton ?B")
    case True
    then obtain l where l: "?B = {l}" by (auto simp: is_singleton_iff)
    have g: "get_node R (hash_at J (Suc d) ?B) = Inr (Leaf l)" using good_read [OF B(1)] l by (simp add: cnode_def)
    obtain stack' fs' where c: "cleanup_stack (parent_stack it) = Some (Inr stack')" "list_all2 (frame J R) stack' fs'"
      "coming J fs' = after J ((d, A, n) # fs)" using cleanup_stack_eq [OF less.prems] by blast
    have "iterator_next_loop R it = Some (it\<lparr>parent_stack := stack'\<rparr>, Some (Inr (raw_key l, blob l)))"
      by (subst iterator_next_loop.simps) (simp only: st(1) list.case child sum.case child_hash_new g Node.case
        c(1) [unfolded st(1)] option.case)
    then show ?thesis using c(2,3) l coming by (intro exI [of _ l] exI [of _ "it\<lparr>parent_stack := stack'\<rparr>"] exI [of _ fs']) simp
  next
    case False
    have d: "Suc d < 64" by (rule B(2) [OF False])
    have g: "get_node R (hash_at J (Suc d) ?B) = Inr (Internal (cchildren J (Suc d) ?B))"
      using good_read [OF B(1)] d False f(4) by (simp add: cnode_def)
    obtain v m where v: "visit_info_new (hash_at J (Suc d) ?B) (cchildren J (Suc d) ?B) = Inr v" "frame J R v (Suc d, ?B, m)"
      "from_child J (Suc d) ?B m = ord J (Suc d) ?B" using visit_info_new_eq [OF C B(1) False d] by blast
    let ?it = "it\<lparr>parent_stack := v # parent_stack it\<rparr>"
    have step: "iterator_next_loop R it = iterator_next_loop R ?it"
      by (subst iterator_next_loop.simps) (simp only: st(1) list.case child sum.case child_hash_new g Node.case v(1))
    have "list_all2 (frame J R) (parent_stack ?it) ((Suc d, ?B, m) # (d, A, n) # fs)" using less.prems v(2) by simp
    from less.hyps [OF _ this] f(2) have "\<exists>l it' fs'. iterator_next_loop R ?it = Some (it', Some (Inr (raw_key l, blob l))) \<and>
      it_root_hash it' = it_root_hash ?it \<and> it_done it' = it_done ?it \<and>
      list_all2 (frame J R) (parent_stack it') fs' \<and> coming J ((Suc d, ?B, m) # (d, A, n) # fs) = l # coming J fs'" by simp
    moreover have "coming J ((Suc d, ?B, m) # (d, A, n) # fs) = coming J ((d, A, n) # fs)" using coming v(3) by simp
    ultimately show ?thesis unfolding step by (simp del: coming.simps)
  qed
qed

text \<open>The leaves that an iterator over the tree of \<open>S\<close> still returns.\<close>

definition remaining ::
  "('k, 'h) jelly \<Rightarrow> ('k, 'h) TreeReader \<Rightarrow> ('k, 'h) leaves \<Rightarrow> 'h JellyfishMerkleIterator \<Rightarrow> ('k, 'h) LeafNode list \<Rightarrow> bool" where
  "remaining J R S it ls \<longleftrightarrow>
     it_root_hash it = smt J 256 S \<and>
     (if it_done it then ls = []
      else if is_singleton S then parent_stack it = [] \<and> ls = [the_elem S]
      else S \<noteq> {} \<and> (\<exists>fs. list_all2 (frame J R) (parent_stack it) fs \<and> ls = coming J fs))"

lemma iterator_next_eq:
  assumes C: "crypto_ok (jcrypto J)" and g: "S \<noteq> {} \<Longrightarrow> good J R 0 S" and r: "remaining J R S it ls"
  shows "case ls of
      [] \<Rightarrow> \<exists>it'. iterator_next R it = Some (it', None)
    | l # ls' \<Rightarrow> \<exists>it'. iterator_next R it = Some (it', Some (Inr (raw_key l, blob l))) \<and> remaining J R S it' ls'"
proof (cases "it_done it")
  case True
  then show ?thesis using r by (simp add: remaining_def iterator_next_def)
next
  case False
  have root: "it_root_hash it = smt J 256 S" using r by (simp add: remaining_def)
  show ?thesis
  proof (cases "is_singleton S")
    case True
    then obtain l where l: "S = {l}" by (auto simp: is_singleton_iff)
    have "get_node R (smt J 256 S) = Inr (Leaf l)" using good_read [OF g] l by (simp add: cnode_def)
    then show ?thesis using r False l root by (simp add: remaining_def iterator_next_def)
  next
    case mult: False
    then obtain fs where fs: "S \<noteq> {}" "list_all2 (frame J R) (parent_stack it) fs" "ls = coming J fs"
      using r False by (auto simp: remaining_def)
    show ?thesis
    proof (cases fs)
      case Nil
      have "get_node R (smt J 256 S) = Inr (Internal (cchildren J 0 S))"
        using good_read [OF g [OF fs(1)]] mult fs(1) by (simp add: cnode_def)
      then show ?thesis using fs Nil False root by (simp add: iterator_next_def)
    next
      case (Cons f gs)
      obtain d A n where f: "f = (d, A, n)" by (cases f)
      have ne: "parent_stack it \<noteq> []" using fs(2) Cons by auto
      obtain l it' fs' where n: "iterator_next_loop R it = Some (it', Some (Inr (raw_key l, blob l)))"
        "it_root_hash it' = it_root_hash it" "it_done it' = it_done it"
        "list_all2 (frame J R) (parent_stack it') fs'" "coming J fs = l # coming J fs'"
        using iterator_next_loop_eq [OF C fs(2) [unfolded Cons f]] unfolding Cons f by blast
      have "remaining J R S it' (coming J fs')" using n(2-4) root False mult fs(1) by (auto simp: remaining_def)
      then show ?thesis using n(1,5) ne False fs(3) by (simp add: iterator_next_def)
    qed
  qed
qed

section \<open>The order of keys\<close>

text \<open>The order of hash values is that of their bytes.\<close>

definition hash_order_ok :: "('k, 'h::linorder) jelly \<Rightarrow> bool" where
  "hash_order_ok J \<longleftrightarrow> (\<forall>a b. a < b \<longleftrightarrow> (to_vec (jcrypto J) a, to_vec (jcrypto J) b) \<in> lexord {(x, y). x < y})"

abbreviation lkey :: "('k, 'h) jelly \<Rightarrow> ('k, 'h) LeafNode \<Rightarrow> 'h" where
  "lkey J l \<equiv> key_hash J (raw_key l)"

lemma digits: "r < 16 \<Longrightarrow> r' < 16 \<Longrightarrow> 16 * q + r < 16 * q' + r' \<longleftrightarrow> q < q' \<or> q = q' \<and> r < r'" for q q' r r' :: nat
  by arith

lemma byte_less: "x < y \<longleftrightarrow> high x < high y \<or> high x = high y \<and> low x < low y" for x y :: u8
proof -
  have "(15 :: u8) = mask 4" by (simp add: mask_eq_exp_minus_1)
  then have l: "low b = take_bit 4 b" for b by (simp add: low_def take_bit_eq_mask)
  have h: "unat (high b) = unat b div 16" "unat (low b) = unat b mod 16" for b
    by (simp_all add: high_def shr_def drop_bit_eq_div l take_bit_eq_mod unat_div unat_mod)
  have "unat x < unat y \<longleftrightarrow> unat x div 16 < unat y div 16 \<or> unat x div 16 = unat y div 16 \<and> unat x mod 16 < unat y mod 16"
    using digits [of "unat x mod 16" "unat y mod 16" "unat x div 16" "unat y div 16"] by simp
  then show ?thesis unfolding word_less_nat_alt word_unat_eq_iff [of "high x"] h .
qed

lemma unpack_lexord:
  "length xs = length ys \<Longrightarrow> (xs, ys) \<in> lexord {(x, y). x < y} \<longleftrightarrow> (unpack xs, unpack ys) \<in> lexord {(x, y). x < y}"
proof (induction xs ys rule: list_induct2)
  case (Cons x xs y ys)
  have "x = y \<longleftrightarrow> high x = high y \<and> low x = low y" using unpack_inject [of "[x]" "[y]"] by auto
  then show ?case using Cons.IH byte_less [of x y] by auto
qed simp

lemma key_less:
  assumes C: "crypto_ok (jcrypto J)" and "hash_order_ok J"
  shows "a < b \<longleftrightarrow> (\<exists>i<64. take i (hpath J a) = take i (hpath J b) \<and> hpath J a ! i < hpath J b ! i)"
proof -
  have "length (to_vec (jcrypto J) a) = length (to_vec (jcrypto J) b)" using C by (simp add: to_vec_length)
  then have "a < b \<longleftrightarrow> (hpath J a, hpath J b) \<in> lexord {(x, y). x < y}"
    using assms(2) unpack_lexord unfolding hash_order_ok_def hpath_def by blast
  then show ?thesis using C by (simp add: lexord_take_index_conv)
qed

definition aligned :: "('k, 'h) jelly \<Rightarrow> nat \<Rightarrow> Nibble list \<Rightarrow> ('k, 'h) leaves \<Rightarrow> bool" where
  "aligned J d p A \<longleftrightarrow> (\<forall>l \<in> A. take d (lpath J l) = take d p)"

lemma aligned_sub:
  assumes "crypto_ok (jcrypto J)" "d < 64" "length p = 64" "aligned J d p A"
  shows "aligned J (Suc d) p (sub J d (p ! d) A)"
  using assms by (auto simp: aligned_def sub_def take_Suc_conv_app_nth)

lemma nibble_key_less:
  assumes "crypto_ok (jcrypto J)" "hash_order_ok J" "d < 64" "take d (hpath J a) = take d (hpath J b)" "hpath J a ! d < hpath J b ! d"
  shows "a < b"
  using assms key_less [OF assms(1,2)] by blast

lemma set_ord:
  assumes "crypto_ok (jcrypto J)" "leaves_ok J d A"
  shows "set (ord J d A) = A"
  using assms
proof (induction J d A rule: ord.induct)
  case (1 J d A)
  show ?case
  proof (cases "A = {} \<or> is_singleton A")
    case True
    then show ?thesis by (auto simp: is_singleton_iff)
  next
    case False
    then have d: "d < 64" using leaves_ok_lt_64 "1.prems" by blast
    have "set (ord J (Suc d) (sub J d (nib n) A)) = sub J d (nib n) A" if "n < 16" for n
      using that d False by (intro "1.IH" leaves_ok_sub "1.prems") simp_all
    then have "set (ord J d A) = (\<Union>n<16. sub J d (nib n) A)"
      using False d by (simp add: ord_step from_child_def atLeast0LessThan)
    also have "\<dots> = A"
    proof -
      have "l \<in> (\<Union>n<16. sub J d (nib n) A)" if "l \<in> A" for l
        using that lpath_less [OF "1.prems"(1) d, of l]
        by (auto simp: sub_def unat_less_16 intro!: bexI [of _ "unat (lpath J l ! d)"])
      then show ?thesis using sub_subset by blast
    qed
    finally show ?thesis .
  qed
qed

lemma set_from_child:
  assumes "crypto_ok (jcrypto J)" "leaves_ok J d A" "d < 64"
  shows "set (from_child J d A n) = (\<Union>m \<in> {n..<16}. sub J d (nib m) A)"
  using set_ord [OF assms(1) leaves_ok_sub [OF assms]] by (simp add: from_child_def)

lemma nib_mono: "m < n \<Longrightarrow> n < 16 \<Longrightarrow> nib m < nib n"
  by (simp add: word_less_nat_alt unat_nib)

lemma sorted_ord:
  assumes "crypto_ok (jcrypto J)" "hash_order_ok J" "leaves_ok J d A" "aligned J d p A"
  shows "sorted_wrt (\<lambda>a b. lkey J a < lkey J b) (ord J d A)"
  using assms
proof (induction J d A arbitrary: p rule: ord.induct)
  case (1 J d A)
  show ?case
  proof (cases "A = {} \<or> is_singleton A")
    case True
    then show ?thesis by (auto simp: is_singleton_iff)
  next
    case False
    then have d: "d < 64" using leaves_ok_lt_64 "1.prems"(1,3) by blast
    have ih: "sorted_wrt (\<lambda>a b. lkey J a < lkey J b) (ord J (Suc d) (sub J d (nib n) A))" if "n < 16" for n
    proof (rule "1.IH")
      show "aligned J (Suc d) (take d p @ [nib n]) (sub J d (nib n) A)"
      proof -
        have "take (Suc d) (lpath J l) = take (Suc d) (take d p @ [nib n])" if l: "l \<in> sub J d (nib n) A" for l
        proof -
          have "take d (lpath J l) = take d p" "lpath J l ! d = nib n" using "1.prems"(4) l by (auto simp: aligned_def sub_def)
          moreover have "length (take d p) = d" using calculation(1) d length_lpath [OF "1.prems"(1), of l] by (metis length_take min_def not_less order.asym)
          ultimately show ?thesis using d "1.prems"(1) by (simp add: take_Suc_conv_app_nth)
        qed
        then show ?thesis by (simp add: aligned_def)
      qed
    qed (use that d False "1.prems" leaves_ok_sub in auto)
    have "sorted_wrt (\<lambda>a b. lkey J a < lkey J b) (from_child J d A n)" if "n \<le> 16" for n
      using that
    proof (induction "16 - n" arbitrary: n)
      case 0
      then show ?case by (simp add: from_child_def)
    next
      case (Suc k)
      then have n: "n < 16" by simp
      have "lkey J a < lkey J b" if "a \<in> sub J d (nib n) A" "b \<in> sub J d (nib m) A" "n < m" "m < 16" for a b m
      proof (rule nibble_key_less [OF "1.prems"(1,2) d])
        show "take d (hpath J (lkey J a)) = take d (hpath J (lkey J b))" using "1.prems"(4) that
          by (simp add: aligned_def sub_def lpath_def)
        show "hpath J (lkey J a) ! d < hpath J (lkey J b) ! d" using that nib_mono by (auto simp: sub_def lpath_def)
      qed
      then show ?case
        using Suc(1) [of "Suc n"] Suc(2) n ih [OF n] set_ord [OF "1.prems"(1) leaves_ok_sub [OF "1.prems"(1,3) d]]
          set_from_child [OF "1.prems"(1,3) d, of "Suc n"]
        by (auto simp: from_child_Suc sorted_wrt_append)
    qed
    then show ?thesis using ord_step [of A d J] False d by simp
  qed
qed

section \<open>The first leaf\<close>

lemma filter_from_child:
  assumes C: "crypto_ok (jcrypto J)" "hash_order_ok J" and A: "leaves_ok J d A" "d < 64" "aligned J d (hpath J k) A"
  shows "filter (\<lambda>l. k \<le> lkey J l) (from_child J d A 0) =
    filter (\<lambda>l. k \<le> lkey J l) (ord J (Suc d) (sub J d (hpath J k ! d) A)) @ from_child J d A (Suc (unat (hpath J k ! d)))"
proof -
  let ?i = "unat (hpath J k ! d)" and ?ge = "\<lambda>l. k \<le> lkey J l"
  have i: "?i < 16" "nib ?i = hpath J k ! d" using hpath_less [OF C(1) A(2), of k] by (simp_all add: unat_less_16)
  have lt: "lkey J l < k" if "l \<in> sub J d (nib m) A" "m < ?i" for l m
    by (rule nibble_key_less [OF C A(2)]) (use A(3) that i nib_mono [OF that(2) i(1)] in \<open>auto simp: aligned_def sub_def lpath_def\<close>)
  have gt: "k < lkey J l" if "l \<in> sub J d (nib m) A" "?i < m" "m < 16" for l m
    by (rule nibble_key_less [OF C A(2)]) (use A(3) that i nib_mono [OF that(2,3)] in \<open>auto simp: aligned_def sub_def lpath_def\<close>)
  have set: "set (ord J (Suc d) (sub J d (nib m) A)) = sub J d (nib m) A" for m
    by (rule set_ord [OF C(1) leaves_ok_sub [OF C(1) A(1,2)]])
  have "filter ?ge (ord J (Suc d) (sub J d (nib m) A)) = []" if "m < ?i" for m
    using lt [OF _ that] by (auto simp: filter_empty_conv set not_le)
  then have "filter ?ge (concat (map (\<lambda>m. ord J (Suc d) (sub J d (nib m) A)) [0..<?i])) = []"
    by (auto simp: filter_concat comp_def)
  moreover have "filter ?ge (from_child J d A (Suc ?i)) = from_child J d A (Suc ?i)"
    by (rule filter_True) (use set_from_child [OF C(1) A(1,2)] gt in \<open>auto intro: less_imp_le\<close>)
  moreover have "[0..<16] = [0..<?i] @ ?i # [Suc ?i..<16]"
    using upt_add_eq_append [of 0 ?i "16 - ?i"] i(1) by (simp add: upt_conv_Cons)
  ultimately show ?thesis by (simp add: from_child_def i(2))
qed

lemma right_child_test:
  assumes C: "crypto_ok (jcrypto J)" and A: "A \<noteq> {}" "d < 64" and e: "\<And>i. bit (e :: u16) i \<longleftrightarrow> i < 16 \<and> sub J d (nib i) A \<noteq> {}"
    and n: "n < 16"
  shows "(ucast (nib n) :: 32 word) < 15 - word_of_nat (leading_zeros e) \<longleftrightarrow> (\<exists>i. n < i \<and> i < 16 \<and> sub J d (nib i) A \<noteq> {})"
proof -
  obtain m where "m < 16" "sub J d (nib m) A \<noteq> {}" using ex_child [OF C A(2,1)] by blast
  from last_child [OF e this] obtain h where h: "h < 16" "sub J d (nib h) A \<noteq> {}"
    "\<forall>i. i < 16 \<longrightarrow> sub J d (nib i) A \<noteq> {} \<longrightarrow> i \<le> h" "leading_zeros e = 15 - h" by blast
  have "(15 :: 32 word) - word_of_nat (15 - h) = word_of_nat h" using h(1) by simp
  moreover have "unat (ucast (nib n) :: 32 word) = n" using n by (simp add: unsigned_ucast_eq unat_nib take_bit_eq_mod)
  moreover have "unat (word_of_nat h :: 32 word) = h" using h(1) by (simp add: unat_of_nat_eq)
  ultimately have "(ucast (nib n) :: 32 word) < 15 - word_of_nat (leading_zeros e) \<longleftrightarrow> n < h"
    by (simp add: h(4) word_less_nat_alt)
  then show ?thesis using h by (meson less_le_trans)
qed

text \<open>Where \<open>new\<close> stands: at the node of \<open>A\<close>, below the next child of the last parent.\<close>

definition below :: "('k, 'h) jelly \<Rightarrow> ('k, 'h) leaves \<Rightarrow> nat \<Rightarrow> ('k, 'h) leaves \<Rightarrow> (nat \<times> ('k, 'h) leaves \<times> nat) list \<Rightarrow> bool" where
  "below J S d A fs \<longleftrightarrow> (case fs of
     [] \<Rightarrow> d = 0 \<and> A = S
   | (d', A', n) # _ \<Rightarrow> \<not> is_singleton S \<and> S \<noteq> {} \<and> d = Suc d' \<and> A = sub J d' (nib n) A')"

lemma remaining_stack:
  "list_all2 (frame J R) stack fs \<Longrightarrow> \<not> is_singleton S \<Longrightarrow> S \<noteq> {} \<Longrightarrow>
    remaining J R S \<lparr>it_root_hash = smt J 256 S, parent_stack = stack, it_done = False\<rparr> (coming J fs)"
  by (auto simp: remaining_def)

lemma iterator_new_bottom_eq:
  assumes g: "good J R d {l}" and st: "list_all2 (frame J R) stack fs" and b: "below J S d {l} fs"
  shows "\<exists>it. iterator_new_bottom J R (smt J 256 S) k stack (hash_at J d {l}) = Some (Inr it) \<and>
    remaining J R S it ((if k \<le> lkey J l then [l] else []) @ after J fs)"
proof -
  have get: "get_node R (hash_at J d {l}) = Inr (Leaf l)" using good_read [OF g] by (simp add: cnode_def)
  show ?thesis
  proof (cases fs)
    case Nil
    then show ?thesis using b st get by (auto simp: below_def iterator_new_bottom_def remaining_def)
  next
    case (Cons f gs)
    obtain d' A' n where f: "f = (d', A', n)" by (cases f)
    have S: "\<not> is_singleton S" "S \<noteq> {}" "d = Suc d'" "{l} = sub J d' (nib n) A'" using b Cons f by (auto simp: below_def)
    have "n < 16" using st Cons f by (auto simp: frame_def list_all2_Cons2)
    then have c: "coming J fs = l # after J fs" by (simp add: Cons f from_child_Suc S(4) [symmetric])
    show ?thesis
    proof (cases "k \<le> lkey J l")
      case True
      then have "iterator_new_bottom J R (smt J 256 S) k stack (hash_at J d {l}) =
          Some (Inr \<lparr>it_root_hash = smt J 256 S, parent_stack = stack, it_done = False\<rparr>)"
        unfolding iterator_new_bottom_def get by (simp add: leD)
      then show ?thesis using remaining_stack [OF st S(1,2)] c True by auto
    next
      case False
      obtain stack' fs' where cl: "cleanup_stack stack = Some (Inr stack')" "list_all2 (frame J R) stack' fs'" "coming J fs' = after J fs"
        using cleanup_stack_eq [OF st] by blast
      have "iterator_new_bottom J R (smt J 256 S) k stack (hash_at J d {l}) =
          Some (Inr \<lparr>it_root_hash = smt J 256 S, parent_stack = stack', it_done = (stack' = [])\<rparr>)"
        unfolding iterator_new_bottom_def get using False cl(1) by (simp add: not_le)
      moreover have "remaining J R S \<lparr>it_root_hash = smt J 256 S, parent_stack = stack', it_done = (stack' = [])\<rparr> (coming J fs')"
        using remaining_stack [OF cl(2) S(1,2)] cl(2) by (cases "stack' = []") (auto simp: remaining_def)
      ultimately show ?thesis using cl(3) False by auto
    qed
  qed
qed

lemma missing_child_eq:
  assumes C: "crypto_ok (jcrypto J)" and g: "good J R d A" "\<not> is_singleton A" "d < 64" and n: "n < 16" "sub J d (nib n) A = {}"
    and e: "\<And>i. bit (e :: u16) i \<longleftrightarrow> i < 16 \<and> sub J d (nib i) A \<noteq> {}" and st: "list_all2 (frame J R) stack fs"
  shows "\<exists>stack' fs'. (if (ucast (nib n) :: 32 word) < 15 - word_of_nat (leading_zeros e)
      then (case new_next_child_to_visit key (cchildren J d A) (nib n) of
              None \<Rightarrow> None | Some (Inl e) \<Rightarrow> Some (Inl e) | Some (Inr info) \<Rightarrow> Some (Inr (info # stack)))
      else cleanup_stack stack) = Some (Inr stack') \<and> list_all2 (frame J R) stack' fs' \<and>
      coming J fs' = from_child J d A (Suc n) @ after J fs"
proof -
  have "A \<noteq> {}" using g(1) by (simp add: good_def)
  note test = right_child_test [OF C this g(3) e n(1)]
  show ?thesis
  proof (cases "\<exists>i. n < i \<and> i < 16 \<and> sub J d (nib i) A \<noteq> {}")
    case True
    then obtain i where i: "n \<le> i" "i < 16" "sub J d (nib i) A \<noteq> {}" using less_imp_le by blast
    obtain info m where info: "new_next_child_to_visit key (cchildren J d A) (nib n) = Some (Inr info)"
      "frame J R info (d, A, m)" "from_child J d A m = from_child J d A n"
      using new_next_child_to_visit_eq [OF g i(2,1,3)] by blast
    have "from_child J d A n = from_child J d A (Suc n)" using from_child_Suc [OF n(1), of J d A] n(2) by simp
    then show ?thesis using info st test True
      by (intro exI [of _ "info # stack"] exI [of _ "(d, A, m) # fs"]) simp
  next
    case no: False
    then have "from_child J d A (Suc n) = []" by (intro from_child_end) auto
    then show ?thesis using cleanup_stack_eq [OF st] test no by auto
  qed
qed

lemma iterator_new_loop_eq:
  assumes C: "crypto_ok (jcrypto J)" "hash_order_ok J"
  shows "good J R d A \<Longrightarrow> aligned J d (hpath J k) A \<Longrightarrow> list_all2 (frame J R) stack fs \<Longrightarrow> below J S d A fs \<Longrightarrow> d + fuel = 65 \<Longrightarrow>
    \<exists>it. iterator_new_loop fuel J R (smt J 256 S) k stack (hash_at J d A) (kiter J k d) = Some (Inr it) \<and>
      remaining J R S it (filter (\<lambda>l. k \<le> lkey J l) (ord J d A) @ after J fs)"
proof (induction fuel arbitrary: d A stack fs)
  case 0
  then show ?case by (auto simp: below_def frame_def list_all2_Cons2 split: list.splits)
next
  case (Suc fuel)
  let ?ge = "\<lambda>l. k \<le> lkey J l"
  have A: "leaves_ok J d A" "A \<noteq> {}" using Suc.prems(1) by (simp_all add: good_def)
  show ?case
  proof (cases "is_singleton A")
    case True
    then obtain l where l: "A = {l}" by (auto simp: is_singleton_iff)
    have get: "get_node R (hash_at J d A) = Inr (Leaf l)" using good_read [OF Suc.prems(1)] l by (simp add: cnode_def)
    then have "iterator_new_loop (Suc fuel) J R (smt J 256 S) k stack (hash_at J d A) (kiter J k d) =
        iterator_new_bottom J R (smt J 256 S) k stack (hash_at J d {l})" by (simp add: l)
    then show ?thesis
      using iterator_new_bottom_eq [OF Suc.prems(1,3,4) [unfolded l], of k]
      by (cases "k \<le> lkey J l") (simp_all add: l)
  next
    case False
    have d: "d < 64" by (rule leaves_ok_lt_64 [OF C(1) A False])
    obtain n where n: "n < 16" "hpath J k ! d = nib n" "unat (nib n) = n"
      using hpath_less [OF C(1) d, of k] by (intro that [of "unat (hpath J k ! d)"]) (simp_all add: unat_less_16)
    have S: "\<not> is_singleton S" "S \<noteq> {}" using Suc.prems(4) False A(2) by (auto simp: below_def split: list.splits)
    have get: "get_node R (hash_at J d A) = Inr (Internal (cchildren J d A))"
      using good_read [OF Suc.prems(1)] d False A(2) by (simp add: cnode_def)
    note next' = nibble_next_kiter [OF C(1) d, of k]
    have list: "filter ?ge (ord J d A) @ after J fs =
        filter ?ge (ord J (Suc d) (sub J d (nib n) A)) @ from_child J d A (Suc n) @ after J fs"
      unfolding ord_step [OF A(2) False d] filter_from_child [OF C A(1) d Suc.prems(2)] n(2,3) by simp
    show ?thesis
    proof (cases "sub J d (nib n) A = {}")
      case child: False
      obtain info where info: "new_next_child_to_visit (hash_at J d A) (cchildren J d A) (nib n) = Some (Inr info)"
        "frame J R info (d, A, n)"
        using new_next_child_to_visit_eq [OF Suc.prems(1) False d n(1) order_refl child] child by blast
      have al: "aligned J (Suc d) (hpath J k) (sub J d (nib n) A)"
        using aligned_sub [OF C(1) d _ Suc.prems(2)] n(2) length_hpath [OF C(1)] by simp
      have be: "below J S (Suc d) (sub J d (nib n) A) ((d, A, n) # fs)" using S by (simp add: below_def)
      have st: "list_all2 (frame J R) (info # stack) ((d, A, n) # fs)" using info(2) Suc.prems(3) by simp
      have "Suc d + fuel = 65" using Suc.prems(5) by simp
      from Suc.IH [OF good_sub(1) [OF C(1) Suc.prems(1) d n(1) child] al st be this]
      obtain it where it: "iterator_new_loop fuel J R (smt J 256 S) k (info # stack)
          (hash_at J (Suc d) (sub J d (nib n) A)) (kiter J k (Suc d)) = Some (Inr it)"
        "remaining J R S it (filter ?ge (ord J (Suc d) (sub J d (nib n) A)) @ after J ((d, A, n) # fs))"
        by blast
      have c: "cchildren J d A (nib n) = Some (child_new (hash_at J (Suc d) (sub J d (nib n) A)) (is_singleton (sub J d (nib n) A)))"
        unfolding cchildren_nib [OF n(1)] by (rule if_P [OF child])
      have "iterator_new_loop (Suc fuel) J R (smt J 256 S) k stack (hash_at J d A) (kiter J k d) = Some (Inr it)"
        unfolding iterator_new_loop.simps get sum.case Node.case next' obind.simps prod.case expect.simps n(2)
          c option.case info(1) child_hash_new by (rule it(1))
      then show ?thesis using it(2) unfolding list by auto
    next
      case empty: True
      have c: "cchildren J d A (nib n) = None" unfolding cchildren_nib [OF n(1)] using empty by simp
      obtain e l where e: "generate_bitmaps (cchildren J d A) = Inr (e, l)" "\<And>i. bit e i \<longleftrightarrow> i < 16 \<and> sub J d (nib i) A \<noteq> {}"
        using bitmap_cchildren by blast
      obtain stack' fs' where st: "(if (ucast (nib n) :: 32 word) < 15 - word_of_nat (leading_zeros e)
          then (case new_next_child_to_visit (hash_at J d A) (cchildren J d A) (nib n) of
                  None \<Rightarrow> None | Some (Inl e) \<Rightarrow> Some (Inl e) | Some (Inr info) \<Rightarrow> Some (Inr (info # stack)))
          else cleanup_stack stack) = Some (Inr stack')" "list_all2 (frame J R) stack' fs'"
          "coming J fs' = from_child J d A (Suc n) @ after J fs"
        using missing_child_eq [OF C(1) Suc.prems(1) False d n(1) empty e(2) Suc.prems(3)] by blast
      have "iterator_new_loop (Suc fuel) J R (smt J 256 S) k stack (hash_at J d A) (kiter J k d) =
          Some (Inr \<lparr>it_root_hash = smt J 256 S, parent_stack = stack', it_done = False\<rparr>)"
        unfolding iterator_new_loop.simps get sum.case Node.case next' obind.simps prod.case expect.simps n(2)
          c option.case e(1) st(1) by (rule refl)
      then show ?thesis using remaining_stack [OF st(2) S] st(3) empty unfolding list by auto
    qed
  qed
qed

section \<open>The whole iteration\<close>

text \<open>The items of the first \<open>n\<close> calls of \<^verbatim>\<open>next\<close>.\<close>

fun take_items ::
  "nat \<Rightarrow> ('k, 'h) TreeReader \<Rightarrow> 'h JellyfishMerkleIterator \<Rightarrow> ('k \<times> Blob) jelly_result list option" where
  "take_items 0 R it = Some []"
| "take_items (Suc n) R it =
     (case iterator_next R it of
        None \<Rightarrow> None
      | Some (it, None) \<Rightarrow> Some []
      | Some (it, Some r) \<Rightarrow> map_option (Cons r) (take_items n R it))"

lemma iterator_new_eq:
  fixes J :: "('k, 'h::linorder) jelly"
  assumes C: "crypto_ok (jcrypto J)" "hash_order_ok J" and S: "leaves_ok J 0 S" "stores J R S"
    and e: "S = {} \<Longrightarrow> R (placeholder J) = Inr (Some Null)"
  shows "\<exists>it. iterator_new J R (smt J 256 S) k = Some (Inr it) \<and> remaining J R S it (filter (\<lambda>l. k \<le> lkey J l) (ord J 0 S))"
proof (cases "S = {}")
  case True
  have "get_node R (placeholder J) = Inr Null" using e [OF True] by (simp add: get_node_def)
  then show ?thesis using True
    by (simp add: iterator_new_def ROOT_NIBBLE_HEIGHT_def numeral_eq_Suc iterator_new_bottom_def remaining_def)
next
  case False
  have g: "good J R 0 S" using S False by (simp add: good_def stores_def)
  have "aligned J 0 (hpath J k) S" "below J S 0 S []" by (simp_all add: aligned_def below_def)
  from iterator_new_loop_eq [OF C g this(1) list_all2_Nil [THEN iffD2, OF refl] this(2), of 65]
  show ?thesis by (simp add: iterator_new_def ROOT_NIBBLE_HEIGHT_def kiter_0)
qed

lemma take_items_eq:
  assumes C: "crypto_ok (jcrypto J)" and g: "S \<noteq> {} \<Longrightarrow> good J R 0 S"
  shows "remaining J R S it ls \<Longrightarrow> take_items n R it = Some (map (\<lambda>l. Inr (raw_key l, blob l)) (take n ls))"
proof (induction n arbitrary: it ls)
  case (Suc n)
  show ?case
  proof (cases ls)
    case Nil
    then show ?thesis using iterator_next_eq [OF C g Suc.prems] by auto
  next
    case (Cons l ls')
    then obtain it' where it': "iterator_next R it = Some (it', Some (Inr (raw_key l, blob l)))" "remaining J R S it' ls'"
      using iterator_next_eq [OF C g Suc.prems] by auto
    then show ?thesis using Suc.IH [OF it'(2)] Cons by simp
  qed
qed simp

lemma dump_loop_eq:
  assumes C: "crypto_ok (jcrypto J)" and g: "S \<noteq> {} \<Longrightarrow> good J R 0 S"
  shows "remaining J R S it ls \<Longrightarrow> dump_loop encode_key R it states =
    Some (obind (omap (\<lambda>l. obind (encode_key (raw_key l)) (\<lambda>k. Inr (k, blob l))) ls) (\<lambda>kbs. Inr (states @ kbs)))"
proof (induction ls arbitrary: it states)
  case Nil
  obtain it' where "iterator_next R it = Some (it', None)" using iterator_next_eq [OF C g Nil] by auto
  then show ?case by (subst dump_loop.simps) simp
next
  case (Cons l ls)
  obtain it' where it': "iterator_next R it = Some (it', Some (Inr (raw_key l, blob l)))" "remaining J R S it' ls"
    using iterator_next_eq [OF C g Cons.prems] by auto
  show ?case
  proof (cases "encode_key (raw_key l)")
    case (Inl e)
    then show ?thesis using it'(1) by (subst dump_loop.simps) simp
  next
    case (Inr k)
    have "dump_loop encode_key R it states = dump_loop encode_key R it' (states @ [(k, blob l)])"
      by (subst dump_loop.simps) (simp add: it'(1) Inr)
    also have "\<dots> = Some (obind (omap (\<lambda>l. obind (encode_key (raw_key l)) (\<lambda>k. Inr (k, blob l))) ls)
        (\<lambda>kbs. Inr ((states @ [(k, blob l)]) @ kbs)))" by (rule Cons.IH [OF it'(2)])
    finally show ?thesis using Inr
      by (cases "omap (\<lambda>l. obind (encode_key (raw_key l)) (\<lambda>k. Inr (k, blob l))) ls") simp_all
  qed
qed

end
