(* ===== verification/Iter_Theorems.thy ===== *)
theory Iter_Theorems
  imports Iter_Spec Jellyfish_Sample
begin

text \<open>
  The properties of the iterator and of the dump of a state tree: they end, and give the leaves
  from the starting key on in the order of their keys.
\<close>

section \<open>The order of concrete hash values\<close>

fun digits_val :: "u8 list \<Rightarrow> nat" where
  "digits_val [] = 0"
| "digits_val (x # xs) = unat x * 256 ^ length xs + digits_val xs"

lemma digit_step: "a < c \<Longrightarrow> r < b \<Longrightarrow> a * b + r < c * b" for a b c r :: nat
proof -
  assume "a < c" "r < b"
  then have "Suc a * b \<le> c * b" by (intro mult_le_mono1) simp
  then show "a * b + r < c * b" using \<open>r < b\<close> unfolding mult_Suc by linarith
qed

lemma digits_val_less: "digits_val xs < 256 ^ length xs"
proof (induction xs)
  case (Cons x xs)
  have "unat x < 256" using unsigned_less [of x] by simp
  from digit_step [OF this Cons] show ?case by simp
qed simp

lemma digits_val_lexord:
  "length xs = length ys \<Longrightarrow> (xs, ys) \<in> lexord {(x, y). x < y} \<longleftrightarrow> digits_val xs < digits_val ys"
proof (induction xs ys rule: list_induct2)
  case (Cons x xs y ys)
  let ?b = "256 ^ length ys :: nat"
  have lt: "digits_val xs < ?b" "digits_val ys < ?b" using digits_val_less [of xs] digits_val_less [of ys] Cons.hyps by simp_all
  have v: "digits_val (x # xs) = unat x * ?b + digits_val xs" "digits_val (y # ys) = unat y * ?b + digits_val ys"
    using Cons.hyps by simp_all
  consider "unat x < unat y" | "unat x = unat y" | "unat y < unat x" by linarith
  then show ?case
  proof cases
    case 1
    then have "digits_val (x # xs) < digits_val (y # ys)" using digit_step [OF 1 lt(1)] unfolding v by linarith
    then show ?thesis using 1 by (simp add: word_less_nat_alt del: digits_val.simps)
  next
    case 2
    then have "x = y" by (simp add: word_unat_eq_iff)
    then show ?thesis using Cons v by (simp del: digits_val.simps)
  next
    case 3
    then have "\<not> digits_val (x # xs) < digits_val (y # ys)" using digit_step [OF 3 lt(2)] unfolding v by linarith
    moreover have "\<not> x < y" "x \<noteq> y" using 3 by (auto simp: word_less_nat_alt)
    ultimately show ?thesis by (simp del: digits_val.simps)
  qed
qed simp

lemma digits_val_bytes:
  fixes w :: hash256
  shows "digits_val (map (\<lambda>i. ucast (drop_bit (8 * (n - Suc i)) w)) [0..<n]) = unat w mod 256 ^ n"
proof (induction n)
  case (Suc n)
  have u: "[0..<Suc n] = 0 # map Suc [0..<n]" by (simp add: upt_conv_Cons map_Suc_upt)
  have "unat (ucast (drop_bit (8 * n) w) :: u8) = unat w div 256 ^ n mod 256"
  proof -
    have "unat (drop_bit (8 * n) w) = drop_bit (8 * n) (unat w)"
    proof -
      have "unat w < 2 ^ 256" using unsigned_less [of w] by simp
      then show ?thesis by (simp add: unsigned_drop_bit_eq take_bit_nat_eq_self)
    qed
    also have "\<dots> = unat w div 256 ^ n" by (simp add: drop_bit_eq_div power_mult)
    finally show ?thesis by (simp add: unsigned_ucast_eq take_bit_eq_mod)
  qed
  moreover have "unat w mod 256 ^ Suc n = 256 ^ n * (unat w div 256 ^ n mod 256) + unat w mod 256 ^ n"
    using mod_mult2_eq [of "unat w" "256 ^ n" 256] by (simp add: mult.commute)
  ultimately show ?case using Suc unfolding u by (simp add: comp_def)
qed simp

lemma sample_order_ok: "hash_order_ok sample_jelly"
proof -
  have v: "digits_val (hash256_to_vec w) = unat w" for w
  proof -
    have "unat w < 2 ^ 256" using unsigned_less [of w] by simp
    then have "unat w mod 256 ^ 32 = unat w" by simp
    then show ?thesis using digits_val_bytes [of 32 w] by (simp add: hash256_to_vec_def)
  qed
  have "length (hash256_to_vec a) = length (hash256_to_vec b)" for a b by (simp add: hash256_to_vec_def)
  from digits_val_lexord [OF this] have "a < b \<longleftrightarrow> (hash256_to_vec a, hash256_to_vec b) \<in> lexord {(x, y). x < y}" for a b
    unfolding word_less_nat_alt [of a b] v by blast
  then show ?thesis by (simp add: hash_order_ok_def sample_jelly_def word_crypto_def)
qed

section \<open>Dumps\<close>

lemma zero_least:
  fixes J :: "('k, 'h::linorder) jelly"
  assumes "crypto_ok (jcrypto J)" "hash_order_ok J" "to_vec (jcrypto J) zero = replicate HASH_LENGTH 0"
  shows "zero \<le> h"
proof -
  have "(xs, replicate (length xs) (0 :: u8)) \<notin> lexord {(x, y). x < y}" for xs by (induction xs) auto
  then have "\<not> h < zero" using assms(2,3) to_vec_length [OF assms(1), of h] unfolding hash_order_ok_def by metis
  then show ?thesis by simp
qed

lemma sorted_distinct: "sorted_wrt (\<lambda>a b. f a < f b) xs \<Longrightarrow> distinct (map f xs)" for f :: "'a \<Rightarrow> 'b::linorder"
  by (induction xs) auto

lemma dump_refines:
  fixes J :: "('k::linorder, 'h::linorder) jelly"
  assumes C: "crypto_ok (jcrypto J)" and O: "hash_order_ok J" and r: "refines J N K B S t a"
    and zero: "to_vec (jcrypto J) zero = replicate HASH_LENGTH 0" and enc: "\<And>k. encode_key k = Inr (ek k)"
  shows "\<exists>kvs. state_dump J N encode_key zero t = Some (Inr (map (\<lambda>(k, v). (ek k, v)) kvs)) \<and>
    map_of kvs = fst a \<and> sorted_wrt (\<lambda>a b. key_hash J (fst a) < key_hash J (fst b)) kvs"
proof -
  let ?R = "cached_tree_reader J N t" and ?ls = "ord J 0 S"
  let ?kvs = "map (\<lambda>l. (raw_key l, blob l)) ?ls"
  have i: "state_root t = smt J 256 S" "leaves_ok J 0 S" "stores J ?R S" "rep S (fst a)"
    using r by (simp_all add: refines_def state_inv_def)
  have "?R (placeholder J) = Inr (Some Null)" by (simp add: cached_tree_reader_def)
  from iterator_new_eq [OF C O i(2,3) this, of zero] obtain it where
    it: "iterator_new J ?R (smt J 256 S) zero = Some (Inr it)" "remaining J ?R S it ?ls"
    using zero_least [OF C O zero] by auto
  have g: "S \<noteq> {} \<Longrightarrow> good J ?R 0 S" using i(2,3) by (simp add: good_def stores_def)
  have "omap (\<lambda>l. obind (encode_key (raw_key l)) (\<lambda>k. Inr (k, blob l))) ?ls = Inr (map (\<lambda>l. (ek (raw_key l), blob l)) ?ls)"
    by (rule omap_total) (simp add: enc)
  then have dump: "state_dump J N encode_key zero t = Some (Inr (map (\<lambda>(k, v). (ek k, v)) ?kvs))"
    using dump_loop_eq [OF C g it(2), of encode_key "[]"] it(1) by (simp add: state_dump_def i(1) comp_def)
  have "aligned J 0 [] S" by (simp add: aligned_def)
  then have sorted: "sorted_wrt (\<lambda>a b. key_hash J (fst a) < key_hash J (fst b)) ?kvs"
    using sorted_ord [OF C O i(2)] by (simp add: sorted_wrt_map)
  have "distinct (map (key_hash J) (map fst ?kvs))" using sorted_distinct [OF sorted] by (simp add: comp_def)
  then have "distinct (map fst ?kvs)" using distinct_map by blast
  then have "map_of ?kvs k = Some b \<longleftrightarrow> fst a k = Some b" for k b
    using i(4) set_ord [OF C i(2)] by (auto simp: rep_def map_of_eq_Some_iff)
  then have "map_of ?kvs = fst a" by (intro ext option_ext)
  then show ?thesis using dump sorted by blast
qed

section \<open>Iteration\<close>

text \<open>C15: An iterator over a stored tree, made with a starting key, returns the leaves whose key hash is at or after the
  starting key, each once and in the order of key hashes, and then ends; making it and every
  call of it end without an error. Hashes are ordered as their bytes (\<open>hash_order_ok\<close>).\<close>

theorem iterator_in_order:
  fixes J :: "('k, 'h::linorder) jelly"
  assumes C: "crypto_ok (jcrypto J)" and O: "hash_order_ok J" and S: "leaves_ok J 0 S" and R: "stores J R S"
    and e: "S = {} \<Longrightarrow> R (placeholder J) = Inr (Some Null)"
  shows "\<exists>it ls. iterator_new J R (smt J 256 S) k = Some (Inr it) \<and>
    set ls = {l \<in> S. k \<le> key_hash J (raw_key l)} \<and>
    sorted_wrt (\<lambda>a b. key_hash J (raw_key a) < key_hash J (raw_key b)) ls \<and>
    (\<forall>n. take_items n R it = Some (map (\<lambda>l. Inr (raw_key l, blob l)) (take n ls)))"
proof -
  obtain it where it: "iterator_new J R (smt J 256 S) k = Some (Inr it)" "remaining J R S it (filter (\<lambda>l. k \<le> lkey J l) (ord J 0 S))"
    using iterator_new_eq [OF C O S R e] by blast
  have g: "S \<noteq> {} \<Longrightarrow> good J R 0 S" using S R by (simp add: good_def stores_def)
  have "aligned J 0 [] S" by (simp add: aligned_def)
  then have "sorted_wrt (\<lambda>a b. lkey J a < lkey J b) (filter (\<lambda>l. k \<le> lkey J l) (ord J 0 S))"
    by (intro sorted_wrt_filter sorted_ord [OF C O S])
  then show ?thesis using it take_items_eq [OF C g it(2)] set_ord [OF C S]
    by (intro exI [of _ it] exI [of _ "filter (\<lambda>l. k \<le> lkey J l) (ord J 0 S)"]) (simp del: take_items.simps)
qed

theorem iterator_in_order_witness:
  "\<exists>it. iterator_new sample_jelly (\<lambda>h. Inr (Some (Leaf sample_a))) (smt sample_jelly 256 {sample_a}) 0 = Some (Inr it) \<and>
    take_items 5 (\<lambda>h. Inr (Some (Leaf sample_a))) it = Some [Inr (0, [1])]"
proof -
  have R: "stores sample_jelly (\<lambda>h. Inr (Some (Leaf sample_a))) {sample_a}" by (simp add: stores_def node_of_def nid_def cnode_def)
  have ok: "leaves_ok sample_jelly 0 {sample_a}" by (rule sample_leaves_ok) blast
  obtain it ls where it: "iterator_new sample_jelly (\<lambda>h. Inr (Some (Leaf sample_a))) (smt sample_jelly 256 {sample_a}) 0 = Some (Inr it)"
    and ls: "set ls = {l \<in> {sample_a}. 0 \<le> key_hash sample_jelly (raw_key l)}"
      "sorted_wrt (\<lambda>a b. key_hash sample_jelly (raw_key a) < key_hash sample_jelly (raw_key b)) ls"
    and t: "\<forall>n. take_items n (\<lambda>h. Inr (Some (Leaf sample_a))) it = Some (map (\<lambda>l. Inr (raw_key l, blob l)) (take n ls))"
    using iterator_in_order [OF sample_jelly_ok(1) sample_order_ok ok R, of 0] by blast
  have "distinct ls" using ls(2) by (induction ls) auto
  moreover have set: "set ls = {sample_a}" using ls(1) by auto
  ultimately have "length ls = Suc 0" using distinct_card by fastforce
  then have "ls = [sample_a]" using set by (cases ls) simp_all
  moreover have "raw_key sample_a = 0" "blob sample_a = [1]" by (simp_all add: sample_a_def leaf_new_def)
  ultimately have "take_items 5 (\<lambda>h. Inr (Some (Leaf sample_a))) it = Some [Inr (0, [1])]" using t [rule_format, of 5] by simp
  then show ?thesis using it by blast
qed

text \<open>C16: The dump of a state tree, after any run of puts, removals, commits and flushes from the empty tree, ends and lists
  exactly the committed map: each committed key once with its value, in the order of key
  hashes, with keys in their encoding. The keys and values of the run have distinct hashes, and
  no two nodes of the trees on the way have the same hash.\<close>

theorem dump_is_committed_map:
  fixes J :: "('k::linorder, 'h::linorder) jelly"
  assumes C: "crypto_ok (jcrypto J)" and O: "hash_order_ok J" and bcs: "bcs_ok J" "\<And>l. \<exists>out. leaf_to_bytes J l = Inr out"
    and N: "state_node_store N" and K: "inj_on (key_hash J) (\<Union> (op_keys ` set xs))"
    and B: "inj_on (blob_crypto_hash J) (\<Union> (op_blobs ` set xs))" and nc: "no_collisions J xs [] {}"
    and zero: "to_vec (jcrypto J) zero = replicate HASH_LENGTH 0" and enc: "\<And>k. encode_key k = Inr (ek k)"
  shows "\<exists>t kvs. state_run J N xs (state_tree_new J s None) = Inr t \<and>
    state_dump J N encode_key zero t = Some (Inr (map (\<lambda>(k, v). (ek k, v)) kvs)) \<and>
    map_of kvs = fst (spec_run xs) \<and> sorted_wrt (\<lambda>a b. key_hash J (fst a) < key_hash J (fst b)) kvs"
proof -
  have "st_updates (state_tree_new J s None) = []" by (simp add: state_tree_new_def Let_def)
  then obtain t where t: "state_run J N xs (state_tree_new J s None) = Inr t"
    "refines J N (\<Union> (op_keys ` set xs)) (\<Union> (op_blobs ` set xs)) (run_leaves J xs [] {}) t (spec_run xs)"
    using refines_run [OF C bcs N K B refines_new [OF C] order_refl order_refl, of s] nc by (auto simp: spec_run_def)
  then show ?thesis using dump_refines [where encode_key = encode_key and ek = ek, OF C O t(2) zero enc] by blast
qed

theorem dump_is_committed_map_witness:
  "\<exists>t kvs. state_run sample_jelly mock_node_store [OpPut 0 [1], OpCommit] (state_tree_new sample_jelly mock_node_store_new None) = Inr t \<and>
    state_dump sample_jelly mock_node_store (\<lambda>k. Inr (hash256_to_vec k)) 0 t = Some (Inr (map (\<lambda>(k, v). (hash256_to_vec k, v)) kvs)) \<and>
    map_of kvs = [0 \<mapsto> [1]]"
proof -
  have K: "inj_on (key_hash sample_jelly) A" for A by (simp add: sample_jelly_def inj_on_def)
  have B: "inj_on (blob_crypto_hash sample_jelly) (\<Union> (op_blobs ` set [OpPut 0 [1], OpCommit]))" by simp
  have l: "\<exists>out. leaf_to_bytes sample_jelly l = Inr out" for l by (simp add: sample_jelly_def)
  have z: "to_vec (jcrypto sample_jelly) 0 = replicate HASH_LENGTH 0"
    by (simp add: sample_jelly_def word_crypto_def hash256_to_vec_def HASH_LENGTH_def map_replicate_const)
  have nc: "no_collisions sample_jelly [OpPut 0 [1], OpCommit] [] {}"
    using sample_no_collision [of "{{}, {sample_a}}"] by (simp add: sample_updates)
  have m: "fst (spec_run [OpPut (0 :: hash256) [1], OpCommit]) = [0 \<mapsto> [1]]"
    by (auto simp: spec_run_def spec_lookup_def fun_eq_iff)
  show ?thesis
    using dump_is_committed_map [where s = mock_node_store_new and encode_key = "\<lambda>k. Inr (hash256_to_vec k)" and ek = hash256_to_vec,
      OF sample_jelly_ok(1) sample_order_ok sample_jelly_ok(2) l mock_nodes.state_node_store_axioms K B nc z refl]
    unfolding m by blast
qed

end
