(* ===== verification/Peers_State.thy ===== *)
theory Peers_State
  imports Prelude
begin

text \<open>
  Reputation and slot allocation behind the peerset, \<^verbatim>\<open>network-p2p/peerset/src/peersstate.rs\<close>:
  the known nodes, their membership in each set, and the counters of occupied slots. The
  access objects (\<^verbatim>\<open>ConnectedPeer\<close>, \<^verbatim>\<open>NotConnectedPeer\<close>, \<^verbatim>\<open>UnknownPeer\<close>, \<^verbatim>\<open>Reputation\<close>) hold a
  reference to the state, a set and a peer: their methods take these three as arguments.

  Slot counters are 32-bit words that wrap, reputations are integers kept in the range of
  \<^verbatim>\<open>i32\<close>, instants are nanoseconds. The order in which the code visits a \<^verbatim>\<open>HashMap\<close> or
  \<^verbatim>\<open>HashSet\<close> is a parameter. An operation reads the clock once; \<open>now\<close> is what it reads.
\<close>

section \<open>Definitions\<close>

text \<open>\<open>OutOfFuel\<close> marks a loop cut short by the bound of the model; it is proved not to occur.\<close>

datatype peer_error = OutOfFuel

type_synonym 'a pr = "('a, peer_error) outcome"

type_synonym Instant = nat

record ('p, 'n) iteration =
  map_keys :: "('p \<Rightarrow> 'n option) \<Rightarrow> 'p list"
  set_elems :: "'p set \<Rightarrow> 'p list"

subsection \<open>Integers\<close>

definition I32_MIN :: int where
  "I32_MIN = - (2 ^ 31)"

definition I32_MAX :: int where
  "I32_MAX = 2 ^ 31 - 1"

definition i32_saturate :: "int \<Rightarrow> int" where
  "i32_saturate x = max I32_MIN (min I32_MAX x)"

text \<open>Division of Rust truncates towards zero.\<close>

definition tdiv :: "int \<Rightarrow> int \<Rightarrow> int" where
  "tdiv a b = sgn a * sgn b * (\<bar>a\<bar> div \<bar>b\<bar>)"

subsection \<open>The state\<close>

datatype MembershipState = NotMember | In | Out | NotConnected Instant

fun is_connected :: "MembershipState \<Rightarrow> bool" where
  "is_connected NotMember = False"
| "is_connected In = True"
| "is_connected Out = True"
| "is_connected (NotConnected _) = False"

record PeerNode =
  node_sets :: "MembershipState list"
  reputation :: int

definition peer_node_new :: "nat \<Rightarrow> PeerNode" where
  "peer_node_new num_sets = \<lparr>node_sets = replicate num_sets NotMember, reputation = 0\<rparr>"

record SlotConfig =
  sc_in_peers :: u32
  sc_out_peers :: u32

record 'p SetInfo =
  num_in :: u32
  num_out :: u32
  max_in :: u32
  max_out :: u32
  no_slot_nodes :: "'p set"

record 'p PeersState =
  nodes :: "'p \<Rightarrow> PeerNode option"
  ps_sets :: "'p SetInfo list"

datatype Peer = PConnected | PNotConnected | PUnknown

definition peers_state_new :: "SlotConfig list \<Rightarrow> 'p PeersState" where
  "peers_state_new configs =
     \<lparr>nodes = Map.empty,
      ps_sets = map (\<lambda>config. \<lparr>num_in = 0, num_out = 0, max_in = sc_in_peers config,
        max_out = sc_out_peers config, no_slot_nodes = {}\<rparr>) configs\<rparr>"

definition num_sets :: "'p PeersState \<Rightarrow> nat" where
  "num_sets s = length (ps_sets s)"

definition peer :: "'p PeersState \<Rightarrow> nat \<Rightarrow> 'p \<Rightarrow> Peer pr" where
  "peer s sid p =
     obind (assert_that (sid < length (ps_sets s))) (\<lambda>_.
     case nodes s p of
       None \<Rightarrow> Inr PUnknown
     | Some n \<Rightarrow>
         obind (vec_index (node_sets n) sid) (\<lambda>m.
         Inr (case m of
                NotMember \<Rightarrow> PUnknown
              | In \<Rightarrow> PConnected
              | Out \<Rightarrow> PConnected
              | NotConnected _ \<Rightarrow> PNotConnected)))"

definition peers :: "('p, PeerNode) iteration \<Rightarrow> 'p PeersState \<Rightarrow> 'p list" where
  "peers E s = map_keys E (nodes s)"

definition peer_reputations :: "('p, PeerNode) iteration \<Rightarrow> 'p PeersState \<Rightarrow> ('p \<times> int) list" where
  "peer_reputations E s = map (\<lambda>p. (p, reputation (the (nodes s p)))) (map_keys E (nodes s))"

text \<open>The filters of the two enumerations index the node's sets, which panics out of range.\<close>

definition filter_nodes ::
  "('p, PeerNode) iteration \<Rightarrow> 'p PeersState \<Rightarrow> nat \<Rightarrow> (MembershipState \<Rightarrow> bool) \<Rightarrow> 'p list pr" where
  "filter_nodes E s sid Q =
     obind (omap (\<lambda>p. obind (vec_index (node_sets (the (nodes s p))) sid) (\<lambda>m. Inr (p, m)))
       (map_keys E (nodes s))) (\<lambda>pms.
     Inr (map fst (filter (\<lambda>(_, m). Q m) pms)))"

definition connected_peers :: "('p, PeerNode) iteration \<Rightarrow> 'p PeersState \<Rightarrow> nat \<Rightarrow> 'p list pr" where
  "connected_peers E s sid =
     obind (assert_that (sid < length (ps_sets s))) (\<lambda>_. filter_nodes E s sid is_connected)"

definition better :: "'p PeersState \<Rightarrow> 'p \<Rightarrow> 'p option \<Rightarrow> 'p option" where
  "better s to_try cur =
     (case cur of
        None \<Rightarrow> Some to_try
      | Some c \<Rightarrow>
          if reputation (the (nodes s c)) \<ge> reputation (the (nodes s to_try)) then Some c
          else Some to_try)"

definition highest_not_connected_peer ::
  "('p, PeerNode) iteration \<Rightarrow> 'p PeersState \<Rightarrow> nat \<Rightarrow> 'p option pr" where
  "highest_not_connected_peer E s sid =
     obind (assert_that (sid < length (ps_sets s))) (\<lambda>_.
     obind (filter_nodes E s sid (\<lambda>m. case m of NotConnected _ \<Rightarrow> True | _ \<Rightarrow> False)) (\<lambda>ps.
     Inr (fold (better s) ps None)))"

text \<open>The match on \<^verbatim>\<open>peer.sets[set]\<close> that moves the counters by \<open>d\<close>.\<close>

definition adjust_slots :: "'p PeersState \<Rightarrow> nat \<Rightarrow> 'p \<Rightarrow> u32 \<Rightarrow> 'p SetInfo \<Rightarrow> 'p SetInfo pr" where
  "adjust_slots s sid p d info =
     (case nodes s p of
        None \<Rightarrow> Inr info
      | Some n \<Rightarrow>
          obind (vec_index (node_sets n) sid) (\<lambda>m.
          Inr (case m of
                 In \<Rightarrow> info\<lparr>num_in := num_in info + d\<rparr>
               | Out \<Rightarrow> info\<lparr>num_out := num_out info + d\<rparr>
               | _ \<Rightarrow> info)))"

definition add_no_slot_node :: "'p PeersState \<Rightarrow> nat \<Rightarrow> 'p \<Rightarrow> 'p PeersState pr" where
  "add_no_slot_node s sid p =
     obind (vec_index (ps_sets s) sid) (\<lambda>info.
     if p \<in> no_slot_nodes info then Inr s
     else
       obind (adjust_slots s sid p (- 1) (info\<lparr>no_slot_nodes := insert p (no_slot_nodes info)\<rparr>)) (\<lambda>info.
       Inr (s\<lparr>ps_sets := (ps_sets s)[sid := info]\<rparr>)))"

definition remove_no_slot_node :: "'p PeersState \<Rightarrow> nat \<Rightarrow> 'p \<Rightarrow> 'p PeersState pr" where
  "remove_no_slot_node s sid p =
     obind (vec_index (ps_sets s) sid) (\<lambda>info.
     if p \<notin> no_slot_nodes info then Inr s
     else
       obind (adjust_slots s sid p 1 (info\<lparr>no_slot_nodes := no_slot_nodes info - {p}\<rparr>)) (\<lambda>info.
       Inr (s\<lparr>ps_sets := (ps_sets s)[sid := info]\<rparr>)))"

text \<open>Writing one membership entry of a known node.\<close>

definition set_membership :: "'p PeersState \<Rightarrow> nat \<Rightarrow> 'p \<Rightarrow> MembershipState \<Rightarrow> 'p PeersState pr" where
  "set_membership s sid p m =
     (case nodes s p of
        None \<Rightarrow> Inr s
      | Some n \<Rightarrow>
          obind (vec_index (node_sets n) sid) (\<lambda>_.
          Inr (s\<lparr>nodes := (nodes s)(p \<mapsto> n\<lparr>node_sets := (node_sets n)[sid := m]\<rparr>)\<rparr>)))"

subsection \<open>A connected peer\<close>

definition disconnect :: "Instant \<Rightarrow> 'p PeersState \<Rightarrow> nat \<Rightarrow> 'p \<Rightarrow> 'p PeersState pr" where
  "disconnect now s sid p =
     obind (vec_index (ps_sets s) sid) (\<lambda>info.
     obind (if p \<in> no_slot_nodes info then Inr info else adjust_slots s sid p (- 1) info) (\<lambda>info.
     set_membership (s\<lparr>ps_sets := (ps_sets s)[sid := info]\<rparr>) sid p (NotConnected now)))"

definition add_reputation :: "'p PeersState \<Rightarrow> 'p \<Rightarrow> int \<Rightarrow> 'p PeersState" where
  "add_reputation s p modifier =
     (case nodes s p of
        None \<Rightarrow> s
      | Some n \<Rightarrow> s\<lparr>nodes := (nodes s)(p \<mapsto> n\<lparr>reputation := i32_saturate (reputation n + modifier)\<rparr>)\<rparr>)"

definition get_reputation :: "'p PeersState \<Rightarrow> 'p \<Rightarrow> int" where
  "get_reputation s p = (case nodes s p of None \<Rightarrow> 0 | Some n \<Rightarrow> reputation n)"

subsection \<open>A peer that is not connected\<close>

definition bump_last_connected_or_discovered :: "Instant \<Rightarrow> 'p PeersState \<Rightarrow> nat \<Rightarrow> 'p \<Rightarrow> 'p PeersState pr" where
  "bump_last_connected_or_discovered now s sid p =
     (case nodes s p of
        None \<Rightarrow> Inr s
      | Some n \<Rightarrow>
          obind (vec_index (node_sets n) sid) (\<lambda>m.
          case m of
            NotConnected _ \<Rightarrow> set_membership s sid p (NotConnected now)
          | _ \<Rightarrow> Inr s))"

definition last_connected_or_discovered :: "Instant \<Rightarrow> 'p PeersState \<Rightarrow> nat \<Rightarrow> 'p \<Rightarrow> Instant pr" where
  "last_connected_or_discovered now s sid p =
     (case nodes s p of
        None \<Rightarrow> Inr now
      | Some n \<Rightarrow>
          obind (vec_index (node_sets n) sid) (\<lambda>m.
          Inr (case m of NotConnected last_connected \<Rightarrow> last_connected | _ \<Rightarrow> now)))"

text \<open>\<open>None\<close> is \<^verbatim>\<open>Err(self)\<close>: no slot is free, the state is unchanged.\<close>

definition try_outgoing :: "'p PeersState \<Rightarrow> nat \<Rightarrow> 'p \<Rightarrow> 'p PeersState option pr" where
  "try_outgoing s sid p =
     obind (vec_index (ps_sets s) sid) (\<lambda>info.
     let is_no_slot_occupy = (p \<in> no_slot_nodes info)
     in if num_out info \<ge> max_out info \<and> \<not> is_no_slot_occupy then Inr None
        else if nodes s p = None then Inr (Some s)
        else
          obind (set_membership s sid p Out) (\<lambda>s.
          Inr (Some (s\<lparr>ps_sets := (ps_sets s)[sid := if is_no_slot_occupy then info
            else info\<lparr>num_out := num_out info + 1\<rparr>]\<rparr>))))"

definition try_accept_incoming :: "'p PeersState \<Rightarrow> nat \<Rightarrow> 'p \<Rightarrow> 'p PeersState option pr" where
  "try_accept_incoming s sid p =
     obind (vec_index (ps_sets s) sid) (\<lambda>info.
     let is_no_slot_occupy = (p \<in> no_slot_nodes info)
     in if num_in info \<ge> max_in info \<and> \<not> is_no_slot_occupy then Inr None
        else if nodes s p = None then Inr (Some s)
        else
          obind (set_membership s sid p In) (\<lambda>s.
          Inr (Some (s\<lparr>ps_sets := (ps_sets s)[sid := if is_no_slot_occupy then info
            else info\<lparr>num_in := num_in info + 1\<rparr>]\<rparr>))))"

text \<open>A node without reputation that is in no set is dropped from the list.\<close>

definition forgettable :: "PeerNode \<Rightarrow> bool" where
  "forgettable n \<longleftrightarrow> reputation n = 0 \<and> (\<forall>m \<in> set (node_sets n). m = NotMember)"

definition drop_if_forgettable :: "'p PeersState \<Rightarrow> 'p \<Rightarrow> 'p PeersState" where
  "drop_if_forgettable s p =
     (case nodes s p of
        None \<Rightarrow> s
      | Some n \<Rightarrow> if forgettable n then s\<lparr>nodes := (nodes s)(p := None)\<rparr> else s)"

definition forget_peer :: "'p PeersState \<Rightarrow> nat \<Rightarrow> 'p \<Rightarrow> 'p PeersState pr" where
  "forget_peer s sid p =
     obind (set_membership s sid p NotMember) (\<lambda>s. Inr (drop_if_forgettable s p))"

subsection \<open>An unknown peer and reputations\<close>

text \<open>\<^verbatim>\<open>entry(peer_id).or_insert_with(|| Node::new(sets_len))\<close>\<close>

definition ensure_node :: "'p PeersState \<Rightarrow> 'p \<Rightarrow> 'p PeersState" where
  "ensure_node s p =
     (case nodes s p of
        None \<Rightarrow> s\<lparr>nodes := (nodes s)(p \<mapsto> peer_node_new (length (ps_sets s)))\<rparr>
      | Some _ \<Rightarrow> s)"

definition discover :: "Instant \<Rightarrow> 'p PeersState \<Rightarrow> nat \<Rightarrow> 'p \<Rightarrow> 'p PeersState pr" where
  "discover now s sid p = set_membership (ensure_node s p) sid p (NotConnected now)"

text \<open>
  \<^verbatim>\<open>peer_reputation(p)\<close>, an update of the value and the drop of the \<^verbatim>\<open>Reputation\<close>, which
  removes a node it leaves forgettable.
\<close>

definition set_reputation :: "'p PeersState \<Rightarrow> 'p \<Rightarrow> int \<Rightarrow> 'p PeersState" where
  "set_reputation s p value =
     (case nodes s p of
        None \<Rightarrow> s
      | Some n \<Rightarrow> s\<lparr>nodes := (nodes s)(p \<mapsto> n\<lparr>reputation := value\<rparr>)\<rparr>)"


section \<open>Membership and slot counters\<close>

text \<open>The membership of a peer in a set; a peer without a node is no member.\<close>

definition membership :: "'p PeersState \<Rightarrow> nat \<Rightarrow> 'p \<Rightarrow> MembershipState" where
  "membership s i p = (case nodes s p of None \<Rightarrow> NotMember | Some n \<Rightarrow> node_sets n ! i)"

definition nodes_ok :: "'p PeersState \<Rightarrow> bool" where
  "nodes_ok s \<longleftrightarrow> finite (dom (nodes s)) \<and>
     (\<forall>p n. nodes s p = Some n \<longrightarrow> length (node_sets n) = num_sets s \<and>
        I32_MIN \<le> reputation n \<and> reputation n \<le> I32_MAX)"

text \<open>The number of peers with \<open>f\<close> outside \<open>S\<close>, as a counter of the code.\<close>

definition slot_count :: "('p \<Rightarrow> bool) \<Rightarrow> 'p set \<Rightarrow> u32" where
  "slot_count f S = of_nat (card {q. f q \<and> q \<notin> S})"

text \<open>The counters are the number of slot-occupying nodes that are \<open>In\<close> and \<open>Out\<close>.\<close>

definition slots_ok :: "'p PeersState \<Rightarrow> bool" where
  "slots_ok s \<longleftrightarrow> (\<forall>i < num_sets s.
     num_in (ps_sets s ! i) = slot_count (\<lambda>q. membership s i q = In) (no_slot_nodes (ps_sets s ! i)) \<and>
     num_out (ps_sets s ! i) = slot_count (\<lambda>q. membership s i q = Out) (no_slot_nodes (ps_sets s ! i)))"

definition peers_state_ok :: "'p PeersState \<Rightarrow> bool" where
  "peers_state_ok s \<longleftrightarrow> nodes_ok s \<and> slots_ok s"

text \<open>What the operations on one membership leave alone: limits and slot-free nodes.\<close>

definition limits :: "'p PeersState \<Rightarrow> (u32 \<times> u32 \<times> 'p set) list" where
  "limits s = map (\<lambda>x. (max_in x, max_out x, no_slot_nodes x)) (ps_sets s)"

lemma limits_num_sets: "limits s' = limits s \<Longrightarrow> num_sets s' = num_sets s"
  unfolding limits_def num_sets_def by (rule map_eq_imp_length_eq)

lemma limits_nth:
  assumes "limits s' = limits s" "i < num_sets s"
  shows "no_slot_nodes (ps_sets s' ! i) = no_slot_nodes (ps_sets s ! i)"
    "max_in (ps_sets s' ! i) = max_in (ps_sets s ! i)" "max_out (ps_sets s' ! i) = max_out (ps_sets s ! i)"
proof -
  have "limits s' ! i = limits s ! i" using assms(1) by simp
  moreover have "i < length (ps_sets s')" using assms limits_num_sets by (metis num_sets_def)
  ultimately show "no_slot_nodes (ps_sets s' ! i) = no_slot_nodes (ps_sets s ! i)"
    "max_in (ps_sets s' ! i) = max_in (ps_sets s ! i)" "max_out (ps_sets s' ! i) = max_out (ps_sets s ! i)"
    using assms(2) by (simp_all add: limits_def num_sets_def)
qed

lemma finite_membership: "nodes_ok s \<Longrightarrow> m \<noteq> NotMember \<Longrightarrow> finite {q. membership s i q = m}"
  by (rule finite_subset [of _ "dom (nodes s)"]) (auto simp: nodes_ok_def membership_def split: option.splits)

lemma card_if_insert: "finite A \<Longrightarrow> p \<notin> A \<Longrightarrow> card (if b then insert p A else A) = card A + of_bool b"
  by simp

lemma slot_count_upd:
  assumes "finite {q. f q}"
  shows "slot_count (f(p := b)) S = slot_count f S + (if p \<in> S then 0 else of_bool b - of_bool (f p))"
proof (cases "p \<in> S")
  case True
  then have "{q. (f(p := b)) q \<and> q \<notin> S} = {q. f q \<and> q \<notin> S}" by auto
  then show ?thesis using True by (simp add: slot_count_def)
next
  case False
  define A where "A = {q. f q \<and> q \<notin> S} - {p}"
  have fin: "finite A" "p \<notin> A" using assms by (simp_all add: A_def)
  have "{q. (f(p := b)) q \<and> q \<notin> S} = (if b then insert p A else A)" using False by (auto simp: A_def)
  then have 1: "card {q. (f(p := b)) q \<and> q \<notin> S} = card A + of_bool b"
    by (simp only: card_if_insert [OF fin])
  have "{q. f q \<and> q \<notin> S} = (if f p then insert p A else A)" using False by (auto simp: A_def)
  then have 2: "card {q. f q \<and> q \<notin> S} = card A + of_bool (f p)"
    by (simp only: card_if_insert [OF fin])
  show ?thesis using False unfolding slot_count_def 1 2 by (cases b; cases "f p") simp_all
qed

lemma slot_count_insert:
  assumes "finite {q. f q}" "p \<notin> S"
  shows "slot_count f (insert p S) = slot_count f S - of_bool (f p)"
proof -
  define A where "A = {q. f q \<and> q \<notin> insert p S}"
  have fin: "finite A" "p \<notin> A" using assms by (simp_all add: A_def)
  have "{q. f q \<and> q \<notin> S} = (if f p then insert p A else A)" using assms(2) by (auto simp: A_def)
  then have "card {q. f q \<and> q \<notin> S} = card A + of_bool (f p)"
    by (simp only: card_if_insert [OF fin])
  then show ?thesis unfolding slot_count_def A_def [symmetric] by (cases "f p") simp_all
qed

lemma slot_count_cong: "(\<And>q. f q \<longleftrightarrow> g q) \<Longrightarrow> slot_count f S = slot_count g S"
  by (simp add: slot_count_def)

lemma adjust_slots_eq:
  assumes "nodes_ok s" "i < num_sets s"
  shows "adjust_slots s i p d info =
    Inr (info\<lparr>num_in := num_in info + (if membership s i p = In then d else 0),
      num_out := num_out info + (if membership s i p = Out then d else 0)\<rparr>)"
  using assms
  by (auto simp: adjust_slots_def membership_def nodes_ok_def vec_index_def
      split: option.splits MembershipState.splits)

text \<open>One entry changes and the counters of its set follow: the invariant is kept.\<close>

lemma slots_ok_upd:
  assumes ok: "slots_ok s" "nodes_ok s" and i: "i < num_sets s"
    and sets: "ps_sets s' = (ps_sets s)[i := info]"
    and st: "\<And>j q. j < num_sets s \<Longrightarrow>
      membership s' j q = (if j = i \<and> q = p then m else membership s j q)"
    and ns: "no_slot_nodes info = no_slot_nodes (ps_sets s ! i)"
    and ni: "num_in info = num_in (ps_sets s ! i) +
      (if p \<in> no_slot_nodes info then 0 else of_bool (m = In) - of_bool (membership s i p = In))"
    and no: "num_out info = num_out (ps_sets s ! i) +
      (if p \<in> no_slot_nodes info then 0 else of_bool (m = Out) - of_bool (membership s i p = Out))"
  shows "slots_ok s'"
  unfolding slots_ok_def
proof (intro allI impI)
  fix j assume j: "j < num_sets s'"
  then have j': "j < num_sets s" using sets by (simp add: num_sets_def)
  have c: "slot_count (\<lambda>q. membership s' i q = k) S =
      slot_count (\<lambda>q. membership s i q = k) S +
        (if p \<in> S then 0 else of_bool (m = k) - of_bool (membership s i p = k))" if "k \<noteq> NotMember" for k S
    using slot_count_upd [OF finite_membership [OF ok(2) that], of i p "m = k" S] st [OF i]
    by (subst slot_count_cong [of _ "(\<lambda>q. membership s i q = k)(p := (m = k))"]) auto
  show "num_in (ps_sets s' ! j) = slot_count (\<lambda>q. membership s' j q = In) (no_slot_nodes (ps_sets s' ! j)) \<and>
    num_out (ps_sets s' ! j) = slot_count (\<lambda>q. membership s' j q = Out) (no_slot_nodes (ps_sets s' ! j))"
  proof (cases "j = i")
    case True
    have "ps_sets s' ! j = info" using True i sets by (simp add: num_sets_def)
    then show ?thesis using True ok(1) i ni no ns c [of In] c [of Out] by (simp add: slots_ok_def)
  next
    case False
    then have "ps_sets s' ! j = ps_sets s ! j" using sets by simp
    moreover have "slot_count (\<lambda>q. membership s' j q = k) S = slot_count (\<lambda>q. membership s j q = k) S" for k S
      using False st [OF j'] by (intro slot_count_cong) simp
    ultimately show ?thesis using ok(1) j' by (simp add: slots_ok_def)
  qed
qed

lemma set_membership_eq:
  assumes "nodes_ok s" "i < num_sets s" "nodes s p \<noteq> None"
  shows "\<exists>s'. set_membership s i p m = Inr s' \<and> nodes_ok s' \<and> ps_sets s' = ps_sets s \<and>
    dom (nodes s') = dom (nodes s) \<and> (\<forall>q. get_reputation s' q = get_reputation s q) \<and>
    (\<forall>j q. membership s' j q = (if j = i \<and> q = p then m else membership s j q))"
proof -
  obtain n where n: "nodes s p = Some n" using assms(3) by auto
  then have len: "length (node_sets n) = num_sets s" using assms(1) by (simp add: nodes_ok_def)
  let ?s = "s\<lparr>nodes := (nodes s)(p \<mapsto> n\<lparr>node_sets := (node_sets n)[i := m]\<rparr>)\<rparr>"
  have "set_membership s i p m = Inr ?s" using n len assms(2) by (simp add: set_membership_def vec_index_def)
  moreover have "nodes_ok ?s" using assms(1) n len by (auto simp: nodes_ok_def num_sets_def)
  moreover have "membership ?s j q = (if j = i \<and> q = p then m else membership s j q)" for j q
    using n len assms(2) by (auto simp: membership_def)
  moreover have "get_reputation ?s q = get_reputation s q" for q using n by (auto simp: get_reputation_def)
  moreover have "dom (nodes ?s) = dom (nodes s)" using n by auto
  ultimately show ?thesis by fastforce
qed


section \<open>The operations\<close>

text \<open>
  \<open>moved s i p m s'\<close>: peer \<open>p\<close> has become \<open>m\<close> in set \<open>i\<close>, nothing else has changed but
  the counters and the list of nodes, and the state is well formed.
\<close>

definition moved :: "'p PeersState \<Rightarrow> nat \<Rightarrow> 'p \<Rightarrow> MembershipState \<Rightarrow> 'p PeersState \<Rightarrow> bool" where
  "moved s i p m s' \<longleftrightarrow> peers_state_ok s' \<and> limits s' = limits s \<and>
     (\<forall>j < num_sets s. \<forall>q. membership s' j q = (if j = i \<and> q = p then m else membership s j q))"

lemma peers_state_okD: "peers_state_ok s \<Longrightarrow> nodes_ok s" "peers_state_ok s \<Longrightarrow> slots_ok s"
  by (simp_all add: peers_state_ok_def)

lemma member_node: "membership s i p \<noteq> NotMember \<Longrightarrow> nodes s p \<noteq> None"
  by (auto simp: membership_def split: option.splits)

lemma limits_upd:
  assumes "ps_sets s' = (ps_sets s)[i := info]" "i < num_sets s"
    "max_in info = max_in (ps_sets s ! i)" "max_out info = max_out (ps_sets s ! i)"
    "no_slot_nodes info = no_slot_nodes (ps_sets s ! i)"
  shows "limits s' = limits s"
  using assms by (auto simp: limits_def num_sets_def map_update intro!: list_update_same_conv [THEN iffD2])

lemma movedI:
  assumes ok: "peers_state_ok s" "nodes_ok s'" and i: "i < num_sets s"
    and sets: "ps_sets s' = (ps_sets s)[i := info]"
    and st: "\<And>j q. j < num_sets s \<Longrightarrow>
      membership s' j q = (if j = i \<and> q = p then m else membership s j q)"
    and lim: "max_in info = max_in (ps_sets s ! i)" "max_out info = max_out (ps_sets s ! i)"
      "no_slot_nodes info = no_slot_nodes (ps_sets s ! i)"
    and ni: "num_in info = num_in (ps_sets s ! i) +
      (if p \<in> no_slot_nodes info then 0 else of_bool (m = In) - of_bool (membership s i p = In))"
    and no: "num_out info = num_out (ps_sets s ! i) +
      (if p \<in> no_slot_nodes info then 0 else of_bool (m = Out) - of_bool (membership s i p = Out))"
  shows "moved s i p m s'"
  using slots_ok_upd [OF peers_state_okD(2,1) [OF ok(1)] i sets st lim(3) ni no]
    limits_upd [OF sets i lim] ok(2) st
  by (simp add: moved_def peers_state_ok_def)

lemma peer_eq:
  assumes "nodes_ok s" "i < num_sets s"
  shows "peer s i p = Inr (case membership s i p of
    NotMember \<Rightarrow> PUnknown | NotConnected _ \<Rightarrow> PNotConnected | _ \<Rightarrow> PConnected)"
  using assms
  by (auto simp: peer_def membership_def nodes_ok_def num_sets_def vec_index_def
      split: option.splits MembershipState.splits)

lemma disconnect_eq:
  assumes ok: "peers_state_ok s" and i: "i < num_sets s" and con: "is_connected (membership s i p)"
  shows "\<exists>s'. disconnect now s i p = Inr s' \<and> moved s i p (NotConnected now) s' \<and>
    (\<forall>q. get_reputation s' q = get_reputation s q)"
proof -
  let ?x = "ps_sets s ! i"
  let ?info = "if p \<in> no_slot_nodes ?x then ?x
    else ?x\<lparr>num_in := num_in ?x + (if membership s i p = In then - 1 else 0),
      num_out := num_out ?x + (if membership s i p = Out then - 1 else 0)\<rparr>"
  let ?t = "s\<lparr>ps_sets := (ps_sets s)[i := ?info]\<rparr>"
  note nok = peers_state_okD(1) [OF ok]
  have tok: "nodes_ok ?t" "i < num_sets ?t" using nok i by (simp_all add: nodes_ok_def num_sets_def)
  have known: "nodes ?t p \<noteq> None"
    using con member_node [of s i p] by (cases "membership s i p") auto
  obtain s' where s': "set_membership ?t i p (NotConnected now) = Inr s'" "nodes_ok s'"
    "ps_sets s' = (ps_sets s)[i := ?info]" "\<forall>q. get_reputation s' q = get_reputation s q"
    "\<forall>j q. membership s' j q = (if j = i \<and> q = p then NotConnected now else membership s j q)"
    using set_membership_eq [OF tok known, of "NotConnected now"]
    by (auto simp: get_reputation_def membership_def)
  have "(if p \<in> no_slot_nodes ?x then Inr ?x else adjust_slots s i p (- 1) ?x) = Inr ?info"
    by (simp add: adjust_slots_eq [OF nok i])
  then have "disconnect now s i p = Inr s'"
    unfolding disconnect_def using i s'(1) by (simp only: vec_index_ok num_sets_def obind.simps)
  moreover have "moved s i p (NotConnected now) s'"
    by (rule movedI [OF ok s'(2) i s'(3)]) (use s'(5) in auto)
  ultimately show ?thesis using s'(4) by blast
qed

lemma set_membership_moved:
  assumes ok: "peers_state_ok s" and i: "i < num_sets s" and "nodes s p \<noteq> None"
    and "\<not> is_connected (membership s i p)" "\<not> is_connected m"
  shows "\<exists>s'. set_membership s i p m = Inr s' \<and> moved s i p m s' \<and> dom (nodes s') = dom (nodes s) \<and>
    (\<forall>q. get_reputation s' q = get_reputation s q)"
proof -
  obtain s' where s': "set_membership s i p m = Inr s'" "nodes_ok s'" "ps_sets s' = ps_sets s"
    "dom (nodes s') = dom (nodes s)" "\<forall>q. get_reputation s' q = get_reputation s q"
    "\<forall>j q. membership s' j q = (if j = i \<and> q = p then m else membership s j q)"
    using set_membership_eq [OF peers_state_okD(1) [OF ok] i assms(3), of m] by blast
  have "moved s i p m s'"
    by (rule movedI [OF ok s'(2) i, of "ps_sets s ! i"]) (use s' assms(4,5) in auto)
  then show ?thesis using s' by blast
qed

lemma try_outgoing_eq:
  assumes ok: "peers_state_ok s" and i: "i < num_sets s" and m: "membership s i p = NotConnected t"
  shows "if num_out (ps_sets s ! i) \<ge> max_out (ps_sets s ! i) \<and> p \<notin> no_slot_nodes (ps_sets s ! i)
    then try_outgoing s i p = Inr None
    else \<exists>s'. try_outgoing s i p = Inr (Some s') \<and> moved s i p Out s' \<and>
      (\<forall>q. get_reputation s' q = get_reputation s q)"
proof -
  let ?x = "ps_sets s ! i"
  have known: "nodes s p \<noteq> None" using m member_node [of s i p] by auto
  obtain s1 where s1: "set_membership s i p Out = Inr s1" "nodes_ok s1" "ps_sets s1 = ps_sets s"
    "\<forall>q. get_reputation s1 q = get_reputation s q"
    "\<forall>j q. membership s1 j q = (if j = i \<and> q = p then Out else membership s j q)"
    using set_membership_eq [OF peers_state_okD(1) [OF ok] i known, of Out] by blast
  let ?info = "if p \<in> no_slot_nodes ?x then ?x else ?x\<lparr>num_out := num_out ?x + 1\<rparr>"
  let ?s = "s1\<lparr>ps_sets := (ps_sets s1)[i := ?info]\<rparr>"
  have nok: "nodes_ok ?s" using s1(2) by (simp add: nodes_ok_def num_sets_def)
  have mem: "membership ?s j q = membership s1 j q" "get_reputation ?s q = get_reputation s1 q" for j q
    by (simp_all add: membership_def get_reputation_def)
  have "moved s i p Out ?s"
    by (rule movedI [OF ok nok i, of ?info]) (use mem s1 m in auto)
  then show ?thesis
    using i known s1 mem by (auto simp: try_outgoing_def vec_index_def num_sets_def Let_def)
qed

lemma try_accept_incoming_eq:
  assumes ok: "peers_state_ok s" and i: "i < num_sets s" and m: "membership s i p = NotConnected t"
  shows "if num_in (ps_sets s ! i) \<ge> max_in (ps_sets s ! i) \<and> p \<notin> no_slot_nodes (ps_sets s ! i)
    then try_accept_incoming s i p = Inr None
    else \<exists>s'. try_accept_incoming s i p = Inr (Some s') \<and> moved s i p In s' \<and>
      (\<forall>q. get_reputation s' q = get_reputation s q)"
proof -
  let ?x = "ps_sets s ! i"
  have known: "nodes s p \<noteq> None" using m member_node [of s i p] by auto
  obtain s1 where s1: "set_membership s i p In = Inr s1" "nodes_ok s1" "ps_sets s1 = ps_sets s"
    "\<forall>q. get_reputation s1 q = get_reputation s q"
    "\<forall>j q. membership s1 j q = (if j = i \<and> q = p then In else membership s j q)"
    using set_membership_eq [OF peers_state_okD(1) [OF ok] i known, of In] by blast
  let ?info = "if p \<in> no_slot_nodes ?x then ?x else ?x\<lparr>num_in := num_in ?x + 1\<rparr>"
  let ?s = "s1\<lparr>ps_sets := (ps_sets s1)[i := ?info]\<rparr>"
  have nok: "nodes_ok ?s" using s1(2) by (simp add: nodes_ok_def num_sets_def)
  have mem: "membership ?s j q = membership s1 j q" "get_reputation ?s q = get_reputation s1 q" for j q
    by (simp_all add: membership_def get_reputation_def)
  have "moved s i p In ?s"
    by (rule movedI [OF ok nok i, of ?info]) (use mem s1 m in auto)
  then show ?thesis
    using i known s1 mem by (auto simp: try_accept_incoming_def vec_index_def num_sets_def Let_def)
qed


text \<open>Operations that change no membership.\<close>

definition unmoved :: "'p PeersState \<Rightarrow> 'p PeersState \<Rightarrow> bool" where
  "unmoved s s' \<longleftrightarrow> peers_state_ok s' \<and> ps_sets s' = ps_sets s \<and>
     (\<forall>j < num_sets s. \<forall>q. membership s' j q = membership s j q)"

lemma unmovedI:
  assumes "peers_state_ok s" "nodes_ok s'" "ps_sets s' = ps_sets s"
    "\<And>j q. j < num_sets s \<Longrightarrow> membership s' j q = membership s j q"
  shows "unmoved s s'"
proof -
  have "slot_count (\<lambda>q. membership s' j q = m) S = slot_count (\<lambda>q. membership s j q = m) S"
    if "j < num_sets s" for j m S
    using assms(4) [OF that] by (intro slot_count_cong) simp
  then have "slots_ok s'"
    using peers_state_okD(2) [OF assms(1)] assms(3) by (simp add: slots_ok_def num_sets_def)
  then show ?thesis using assms by (simp add: unmoved_def peers_state_ok_def)
qed

lemma unmoved_num_sets: "unmoved s s' \<Longrightarrow> num_sets s' = num_sets s"
  by (simp add: unmoved_def num_sets_def)

lemma unmoved_trans: "unmoved s s' \<Longrightarrow> unmoved s' s'' \<Longrightarrow> unmoved s s''"
  by (simp add: unmoved_def num_sets_def)

lemma unmoved_moved: "unmoved s s' \<Longrightarrow> moved s' i p m s'' \<Longrightarrow> moved s i p m s''"
  by (simp add: unmoved_def moved_def num_sets_def limits_def)

lemma moved_unmoved: "moved s i p m s' \<Longrightarrow> unmoved s' s'' \<Longrightarrow> moved s i p m s''"
  using limits_num_sets [of s' s] by (simp add: unmoved_def moved_def limits_def)

lemma set_reputation_eq:
  assumes ok: "peers_state_ok s" and v: "I32_MIN \<le> v" "v \<le> I32_MAX"
  shows "unmoved s (set_reputation s p v)"
proof (cases "nodes s p")
  case None
  then show ?thesis using ok by (simp add: set_reputation_def unmoved_def)
next
  case (Some n)
  let ?s = "s\<lparr>nodes := (nodes s)(p \<mapsto> n\<lparr>reputation := v\<rparr>)\<rparr>"
  have "unmoved s ?s"
    by (rule unmovedI [OF ok])
      (use Some v peers_state_okD(1) [OF ok] in \<open>auto simp: nodes_ok_def num_sets_def membership_def\<close>)
  then show ?thesis using Some by (simp add: set_reputation_def)
qed

lemma i32_saturate_bounds: "I32_MIN \<le> i32_saturate x" "i32_saturate x \<le> I32_MAX"
  by (auto simp: i32_saturate_def I32_MIN_def I32_MAX_def)

lemma add_reputation_eq:
  assumes "peers_state_ok s"
  shows "unmoved s (add_reputation s p d)"
proof -
  have "add_reputation s p d = set_reputation s p (i32_saturate (get_reputation s p + d))"
    by (simp add: add_reputation_def set_reputation_def get_reputation_def split: option.splits)
  then show ?thesis using set_reputation_eq [OF assms] i32_saturate_bounds by simp
qed

lemma ensure_node_eq:
  assumes ok: "peers_state_ok s"
  shows "unmoved s (ensure_node s p) \<and> nodes (ensure_node s p) p \<noteq> None"
proof (cases "nodes s p")
  case None
  let ?s = "s\<lparr>nodes := (nodes s)(p \<mapsto> peer_node_new (length (ps_sets s)))\<rparr>"
  have "unmoved s ?s"
    by (rule unmovedI [OF ok])
      (use None peers_state_okD(1) [OF ok] in
        \<open>auto simp: nodes_ok_def num_sets_def membership_def peer_node_new_def I32_MIN_def I32_MAX_def\<close>)
  then show ?thesis using None by (simp add: ensure_node_def)
next
  case (Some n)
  then show ?thesis using ok by (simp add: ensure_node_def unmoved_def)
qed

lemma drop_if_forgettable_eq:
  assumes ok: "peers_state_ok s"
  shows "unmoved s (drop_if_forgettable s p)"
proof (cases "\<exists>n. nodes s p = Some n \<and> forgettable n")
  case True
  then obtain n where n: "nodes s p = Some n" "forgettable n" by blast
  note nok = peers_state_okD(1) [OF ok]
  have "node_sets n ! j = NotMember" if "j < num_sets s" for j
    using n that nok by (auto simp: forgettable_def nodes_ok_def)
  then have "unmoved s (s\<lparr>nodes := (nodes s)(p := None)\<rparr>)"
    by (intro unmovedI [OF ok]) (use n nok in \<open>auto simp: nodes_ok_def num_sets_def membership_def\<close>)
  then show ?thesis using n by (simp add: drop_if_forgettable_def)
next
  case False
  then have "drop_if_forgettable s p = s" by (auto simp: drop_if_forgettable_def split: option.splits)
  then show ?thesis using ok by (simp add: unmoved_def)
qed

lemma discover_eq:
  assumes ok: "peers_state_ok s" and i: "i < num_sets s" and m: "\<not> is_connected (membership s i p)"
  shows "\<exists>s'. discover now s i p = Inr s' \<and> moved s i p (NotConnected now) s'"
proof -
  let ?t = "ensure_node s p"
  have t: "unmoved s ?t" "nodes ?t p \<noteq> None" using ensure_node_eq [OF ok] by auto
  have "peers_state_ok ?t" "i < num_sets ?t" "\<not> is_connected (membership ?t i p)"
    using t(1) i m unmoved_num_sets [OF t(1)] by (simp_all add: unmoved_def)
  then obtain s' where "set_membership ?t i p (NotConnected now) = Inr s'"
    "moved ?t i p (NotConnected now) s'"
    using set_membership_moved [of ?t i p "NotConnected now"] t(2) by auto
  then show ?thesis using unmoved_moved [OF t(1)] by (auto simp: discover_def)
qed

lemma forget_peer_eq:
  assumes ok: "peers_state_ok s" and i: "i < num_sets s" and m: "membership s i p = NotConnected t"
  shows "\<exists>s'. forget_peer s i p = Inr s' \<and> moved s i p NotMember s'"
proof -
  obtain s1 where s1: "set_membership s i p NotMember = Inr s1" "moved s i p NotMember s1"
    using set_membership_moved [OF ok i, of p NotMember] m member_node [of s i p] by auto
  have "unmoved s1 (drop_if_forgettable s1 p)"
    using s1(2) by (intro drop_if_forgettable_eq) (simp add: moved_def)
  then show ?thesis using s1 moved_unmoved by (auto simp: forget_peer_def)
qed

lemma bump_eq:
  assumes ok: "peers_state_ok s" and i: "i < num_sets s" and m: "membership s i p = NotConnected t"
  shows "\<exists>s'. bump_last_connected_or_discovered now s i p = Inr s' \<and>
    moved s i p (NotConnected now) s' \<and> (\<forall>q. get_reputation s' q = get_reputation s q)"
proof -
  obtain n where n: "nodes s p = Some n" "node_sets n ! i = NotConnected t" "i < length (node_sets n)"
    using m peers_state_okD(1) [OF ok] i by (auto simp: membership_def nodes_ok_def split: option.splits)
  then show ?thesis
    using set_membership_moved [OF ok i, of p "NotConnected now"] m
    by (auto simp: bump_last_connected_or_discovered_def vec_index_def)
qed

lemma last_connected_eq:
  assumes ok: "peers_state_ok s" and i: "i < num_sets s" and m: "membership s i p = NotConnected t"
  shows "last_connected_or_discovered now s i p = Inr t"
  using m peers_state_okD(1) [OF ok] i
  by (auto simp: membership_def nodes_ok_def last_connected_or_discovered_def vec_index_def
      split: option.splits)


text \<open>Marking and unmarking a node that occupies no slot.\<close>

lemma no_slot_upd:
  assumes ok: "peers_state_ok s" and i: "i < num_sets s"
    and info: "no_slot_nodes info = S" "max_in info = max_in (ps_sets s ! i)"
      "max_out info = max_out (ps_sets s ! i)"
      "num_in info = slot_count (\<lambda>q. membership s i q = In) S"
      "num_out info = slot_count (\<lambda>q. membership s i q = Out) S"
  defines "s' \<equiv> s\<lparr>ps_sets := (ps_sets s)[i := info]\<rparr>"
  shows "peers_state_ok s' \<and> nodes s' = nodes s \<and>
    limits s' = (limits s)[i := (max_in (ps_sets s ! i), max_out (ps_sets s ! i), S)]"
proof -
  have mem: "membership s' j q = membership s j q" for j q by (simp add: s'_def membership_def)
  have "nodes_ok s'" using peers_state_okD(1) [OF ok] by (simp add: s'_def nodes_ok_def num_sets_def)
  moreover have "slots_ok s'"
    using peers_state_okD(2) [OF ok] i info
    by (auto simp: slots_ok_def mem) (auto simp: s'_def num_sets_def nth_list_update)
  ultimately show ?thesis
    using i info by (simp add: peers_state_ok_def s'_def limits_def map_update)
qed

lemma add_no_slot_node_eq:
  assumes ok: "peers_state_ok s" and i: "i < num_sets s"
  shows "\<exists>s'. add_no_slot_node s i p = Inr s' \<and> peers_state_ok s' \<and> nodes s' = nodes s \<and>
    limits s' = (limits s)[i := (max_in (ps_sets s ! i), max_out (ps_sets s ! i),
      insert p (no_slot_nodes (ps_sets s ! i)))]"
proof (cases "p \<in> no_slot_nodes (ps_sets s ! i)")
  case True
  have "limits s ! i = (max_in (ps_sets s ! i), max_out (ps_sets s ! i), no_slot_nodes (ps_sets s ! i))"
    using i by (simp add: limits_def num_sets_def)
  then have "limits s = (limits s)[i := (max_in (ps_sets s ! i), max_out (ps_sets s ! i),
      insert p (no_slot_nodes (ps_sets s ! i)))]"
    using True by (metis insert_absorb list_update_id)
  then show ?thesis using True ok i by (simp add: add_no_slot_node_def num_sets_def vec_index_def)
next
  case False
  let ?x = "ps_sets s ! i"
  let ?S = "insert p (no_slot_nodes ?x)"
  let ?info = "?x\<lparr>no_slot_nodes := ?S, num_in := num_in ?x + (if membership s i p = In then - 1 else 0),
    num_out := num_out ?x + (if membership s i p = Out then - 1 else 0)\<rparr>"
  note nok = peers_state_okD(1) [OF ok]
  have run: "add_no_slot_node s i p = Inr (s\<lparr>ps_sets := (ps_sets s)[i := ?info]\<rparr>)"
    using False i adjust_slots_eq [OF nok i, of p "- 1" "?x\<lparr>no_slot_nodes := ?S\<rparr>"]
    by (simp add: add_no_slot_node_def num_sets_def vec_index_def)
  have c: "slot_count (\<lambda>q. membership s i q = m) ?S =
      slot_count (\<lambda>q. membership s i q = m) (no_slot_nodes ?x) - of_bool (membership s i p = m)"
    if "m \<noteq> NotMember" for m
    by (rule slot_count_insert [OF finite_membership [OF nok that] False])
  show ?thesis
    unfolding run using no_slot_upd [OF ok i, of ?info ?S] c [of In] c [of Out]
      peers_state_okD(2) [OF ok] i
    by (cases "membership s i p = In"; cases "membership s i p = Out") (simp_all add: slots_ok_def)
qed

lemma remove_no_slot_node_eq:
  assumes ok: "peers_state_ok s" and i: "i < num_sets s"
  shows "\<exists>s'. remove_no_slot_node s i p = Inr s' \<and> peers_state_ok s' \<and> nodes s' = nodes s \<and>
    limits s' = (limits s)[i := (max_in (ps_sets s ! i), max_out (ps_sets s ! i),
      no_slot_nodes (ps_sets s ! i) - {p})]"
proof (cases "p \<in> no_slot_nodes (ps_sets s ! i)")
  case False
  have "limits s ! i = (max_in (ps_sets s ! i), max_out (ps_sets s ! i), no_slot_nodes (ps_sets s ! i))"
    using i by (simp add: limits_def num_sets_def)
  then have "limits s = (limits s)[i := (max_in (ps_sets s ! i), max_out (ps_sets s ! i),
      no_slot_nodes (ps_sets s ! i) - {p})]"
    using False by (metis Diff_empty Diff_insert0 list_update_id)
  then show ?thesis using False ok i by (simp add: remove_no_slot_node_def num_sets_def vec_index_def)
next
  case True
  let ?x = "ps_sets s ! i"
  let ?S = "no_slot_nodes ?x - {p}"
  let ?info = "?x\<lparr>no_slot_nodes := ?S, num_in := num_in ?x + (if membership s i p = In then 1 else 0),
    num_out := num_out ?x + (if membership s i p = Out then 1 else 0)\<rparr>"
  note nok = peers_state_okD(1) [OF ok]
  have run: "remove_no_slot_node s i p = Inr (s\<lparr>ps_sets := (ps_sets s)[i := ?info]\<rparr>)"
    using True i adjust_slots_eq [OF nok i, of p 1 "?x\<lparr>no_slot_nodes := ?S\<rparr>"]
    by (simp add: remove_no_slot_node_def num_sets_def vec_index_def)
  have ins: "insert p ?S = no_slot_nodes ?x" using True by auto
  have c: "slot_count (\<lambda>q. membership s i q = m) (no_slot_nodes ?x) =
      slot_count (\<lambda>q. membership s i q = m) ?S - of_bool (membership s i p = m)"
    if "m \<noteq> NotMember" for m
    using slot_count_insert [OF finite_membership [OF nok that], of p ?S i] unfolding ins by simp
  show ?thesis
    unfolding run using no_slot_upd [OF ok i, of ?info ?S] c [of In] c [of Out]
      peers_state_okD(2) [OF ok] i by (simp add: slots_ok_def of_bool_def)
qed

text \<open>Enumerations visit every node once, in some order.\<close>

definition iteration_ok :: "('p, 'n) iteration \<Rightarrow> bool" where
  "iteration_ok E \<longleftrightarrow>
     (\<forall>m. finite (dom m) \<longrightarrow> distinct (map_keys E m) \<and> set (map_keys E m) = dom m) \<and>
     (\<forall>S. finite S \<longrightarrow> distinct (set_elems E S) \<and> set (set_elems E S) = S)"

lemma filter_nodes_eq:
  assumes "iteration_ok E" "nodes_ok s" "i < num_sets s"
  shows "filter_nodes E s i Q = Inr (filter (\<lambda>p. Q (membership s i p)) (map_keys E (nodes s)))"
proof -
  let ?ks = "map_keys E (nodes s)"
  have ks: "set ?ks = dom (nodes s)" using assms(1,2) by (simp add: iteration_ok_def nodes_ok_def)
  have "omap (\<lambda>p. obind (vec_index (node_sets (the (nodes s p))) i) (\<lambda>m. Inr (p, m))) ?ks =
      (Inr (map (\<lambda>p. (p, membership s i p)) ?ks) :: _ pr)"
    using ks assms(2,3)
    by (intro omap_Inr) (auto simp: membership_def nodes_ok_def vec_index_def dest: equalityD1)
  moreover have "map fst (filter (\<lambda>(_, m). Q m) (map (\<lambda>p. (p, membership s i p)) ks)) =
      filter (\<lambda>p. Q (membership s i p)) ks" for ks
    by (induction ks) auto
  ultimately show ?thesis by (simp add: filter_nodes_def)
qed

lemma connected_peers_eq:
  assumes "iteration_ok E" "nodes_ok s" "i < num_sets s"
  shows "\<exists>ps. connected_peers E s i = Inr ps \<and> distinct ps \<and>
    set ps = {p. is_connected (membership s i p)}"
proof -
  have "set (map_keys E (nodes s)) = dom (nodes s)" "distinct (map_keys E (nodes s))"
    using assms(1,2) by (simp_all add: iteration_ok_def nodes_ok_def)
  moreover have "p \<in> dom (nodes s)" if "is_connected (membership s i p)" for p
    using that member_node [of s i p] by (cases "membership s i p") auto
  ultimately show ?thesis
    using assms filter_nodes_eq [OF assms, of is_connected]
    by (auto simp: connected_peers_def num_sets_def)
qed

lemma fold_better:
  "fold (better s) ps (Some c) = Some q \<Longrightarrow>
    (q = c \<or> q \<in> set ps) \<and> reputation (the (nodes s c)) \<le> reputation (the (nodes s q)) \<and>
    (\<forall>p \<in> set ps. reputation (the (nodes s p)) \<le> reputation (the (nodes s q)))"
proof (induction ps arbitrary: c)
  case (Cons p ps)
  show ?case
  proof (cases "reputation (the (nodes s p)) \<le> reputation (the (nodes s c))")
    case True
    then show ?thesis using Cons.IH [of c] Cons.prems by (auto simp: better_def)
  next
    case False
    then show ?thesis using Cons.IH [of p] Cons.prems by (auto simp: better_def)
  qed
qed simp

lemma fold_better_Some: "\<exists>q. fold (better s) ps (Some c) = Some q"
  by (induction ps arbitrary: c) (auto simp: better_def)

lemma highest_not_connected_peer_eq:
  assumes "iteration_ok E" "nodes_ok s" "i < num_sets s"
  shows "\<exists>r. highest_not_connected_peer E s i = Inr r \<and>
    (r = None \<longrightarrow> (\<forall>p t. membership s i p \<noteq> NotConnected t)) \<and>
    (\<forall>q. r = Some q \<longrightarrow> (\<exists>t. membership s i q = NotConnected t) \<and>
      (\<forall>p t. membership s i p = NotConnected t \<longrightarrow> get_reputation s p \<le> get_reputation s q))"
proof -
  let ?Q = "\<lambda>m. case m of NotConnected _ \<Rightarrow> True | _ \<Rightarrow> False"
  let ?ps = "filter (\<lambda>p. ?Q (membership s i p)) (map_keys E (nodes s))"
  have Q: "?Q m \<longleftrightarrow> (\<exists>t. m = NotConnected t)" for m by (cases m) auto
  have ks: "set (map_keys E (nodes s)) = dom (nodes s)" using assms by (simp add: iteration_ok_def nodes_ok_def)
  have known: "p \<in> dom (nodes s)" if "membership s i p = NotConnected t" for p t
    using that member_node [of s i p] by auto
  have set_ps: "set ?ps = {p. \<exists>t. membership s i p = NotConnected t}"
    using known by (auto simp: ks Q)
  have run: "highest_not_connected_peer E s i = Inr (fold (better s) ?ps None)"
    using assms filter_nodes_eq [OF assms, of ?Q] by (simp add: highest_not_connected_peer_def num_sets_def)
  show ?thesis
  proof (cases ?ps)
    case Nil
    then show ?thesis using run set_ps by auto
  next
    case (Cons c ps)
    obtain q where q: "fold (better s) ps (Some c) = Some q"
      using fold_better_Some [of s ps c] by auto
    have best: "q \<in> set ?ps" "p \<in> set ?ps \<Longrightarrow> reputation (the (nodes s p)) \<le> reputation (the (nodes s q))" for p
      using fold_better [OF q] unfolding Cons by auto
    have rep: "get_reputation s p = reputation (the (nodes s p))" if "p \<in> set ?ps" for p
      using that ks by (auto simp: get_reputation_def)
    have "get_reputation s p \<le> get_reputation s q" if "p \<in> set ?ps" for p
      using best rep that by simp
    moreover have "highest_not_connected_peer E s i = Inr (Some q)"
      using run q unfolding Cons by (simp add: better_def)
    ultimately show ?thesis using best(1) unfolding set_ps by auto
  qed
qed

end
