(* ===== verification/Peerset.thy ===== *)
theory Peerset
  imports Peers_State
begin

text \<open>
  The peer set manager, \<^verbatim>\<open>network-p2p/peerset/src/lib.rs\<close>, over the state of \<open>Peers_State\<close>:
  reserved nodes, reputation decay, slot filling, the handlers of the actions sent through a
  handle, and the stream of messages to the network. The action channel is a queue, the
  answers to reputation queries are collected in \<open>replies\<close>; logging is left out.
\<close>

section \<open>Definitions\<close>

definition BANNED_THRESHOLD :: int where
  "BANNED_THRESHOLD = 82 * tdiv I32_MIN 100"

definition DISCONNECT_REPUTATION_CHANGE :: int where
  "DISCONNECT_REPUTATION_CHANGE = - 256"

definition NANOS_PER_SEC :: nat where
  "NANOS_PER_SEC = 1000000000"

definition FORGET_AFTER :: Instant where
  "FORGET_AFTER = 3600 * NANOS_PER_SEC"

datatype 'p Action =
    AddReservedPeer nat 'p
  | RemoveReservedPeer nat 'p
  | SetReservedPeers nat "'p set"
  | SetReservedOnly nat bool
  | ReportPeer 'p int
  | AddToPeersSet nat 'p
  | RemoveFromPeersSet nat 'p
  | PeerReputations int

type_synonym IncomingIndex = u64

datatype 'p Message = Connect nat 'p | Drop nat 'p | Accept IncomingIndex | Reject IncomingIndex

datatype DropReason = UnknownReason | Refused

record 'p SetConfig =
  in_peers :: u32
  out_peers :: u32
  bootnodes :: "'p list"
  cfg_reserved_nodes :: "'p set"
  reserved_only :: bool

record 'p Peerset =
  data :: "'p PeersState"
  reserved_nodes :: "('p set \<times> bool) list"
  rx :: "'p Action list"
  message_queue :: "'p Message list"
  created :: Instant
  latest_time_update :: Instant
  replies :: "('p \<times> int) list list"

type_synonym 'p order = "('p, PeerNode) iteration"

definition push_message :: "'p Message \<Rightarrow> 'p Peerset \<Rightarrow> 'p Peerset" where
  "push_message m ps = ps\<lparr>message_queue := message_queue ps @ [m]\<rparr>"

subsection \<open>Time\<close>

definition reput_tick :: "int \<Rightarrow> int" where
  "reput_tick reput =
     (let diff = tdiv reput 50;
          diff = (if diff = 0 \<and> reput < 0 then - 1 else if diff = 0 \<and> reput > 0 then 1 else diff)
      in i32_saturate (reput - diff))"

definition forget_idle :: "Instant \<Rightarrow> 'p \<Rightarrow> nat \<Rightarrow> 'p PeersState \<Rightarrow> 'p PeersState pr" where
  "forget_idle now p i s =
     obind (peer s i p) (\<lambda>k.
     case k of
       PConnected \<Rightarrow> Inr s
     | PNotConnected \<Rightarrow>
         obind (last_connected_or_discovered now s i p) (\<lambda>t.
         if t + FORGET_AFTER < now then forget_peer s i p else Inr s)
     | PUnknown \<Rightarrow> Inr s)"

definition tick_peer :: "Instant \<Rightarrow> 'p \<Rightarrow> 'p PeersState \<Rightarrow> 'p PeersState pr" where
  "tick_peer now p s =
     (let s = ensure_node s p;
          after = reput_tick (get_reputation s p);
          s = drop_if_forgettable (set_reputation s p after) p
      in if after \<noteq> 0 then Inr s
         else ofold (forget_idle now p) [0..<num_sets s] s)"

fun tick_seconds :: "'p order \<Rightarrow> Instant \<Rightarrow> nat \<Rightarrow> 'p PeersState \<Rightarrow> 'p PeersState pr" where
  "tick_seconds E now 0 s = Inr s"
| "tick_seconds E now (Suc n) s = obind (ofold (tick_peer now) (peers E s) s) (tick_seconds E now n)"

definition instant_secs :: "Instant \<Rightarrow> Instant \<Rightarrow> u64 pr" where
  "instant_secs t t0 =
     obind (assert_that (t0 \<le> t)) (\<lambda>_. Inr (of_nat ((t - t0) div NANOS_PER_SEC)))"

definition update_time :: "'p order \<Rightarrow> Instant \<Rightarrow> 'p Peerset \<Rightarrow> 'p Peerset pr" where
  "update_time E now ps =
     obind (instant_secs (latest_time_update ps) (created ps)) (\<lambda>elapsed_latest.
     obind (instant_secs now (created ps)) (\<lambda>elapsed_now.
     let secs_diff = elapsed_now - elapsed_latest
     in obind (tick_seconds E now (unat secs_diff) (data ps)) (\<lambda>s.
        Inr (ps\<lparr>latest_time_update := now, data := s\<rparr>))))"

subsection \<open>Slots\<close>

definition connect_reserved :: "Instant \<Rightarrow> nat \<Rightarrow> 'p \<Rightarrow> 'p Peerset \<Rightarrow> 'p Peerset pr" where
  "connect_reserved now i p ps =
     obind (peer (data ps) i p) (\<lambda>k.
     case k of
       PConnected \<Rightarrow> Inr ps
     | _ \<Rightarrow>
         obind (if k = PUnknown then discover now (data ps) i p else Inr (data ps)) (\<lambda>s.
         obind (try_outgoing s i p) (\<lambda>r.
         case r of
           Some s \<Rightarrow> Inr (push_message (Connect i p) (ps\<lparr>data := s\<rparr>))
         | None \<Rightarrow> Inr (ps\<lparr>data := s\<rparr>))))"

definition connect_reserved_set :: "'p order \<Rightarrow> Instant \<Rightarrow> nat \<Rightarrow> 'p Peerset \<Rightarrow> 'p Peerset pr" where
  "connect_reserved_set E now i ps =
     obind (vec_index (reserved_nodes ps) i) (\<lambda>r.
     ofold (connect_reserved now i) (set_elems E (fst r)) ps)"

text \<open>The \<^verbatim>\<open>while let\<close> loop, with at most \<open>n\<close> rounds.\<close>

fun fill_loop :: "'p order \<Rightarrow> nat \<Rightarrow> nat \<Rightarrow> 'p Peerset \<Rightarrow> 'p Peerset pr" where
  "fill_loop E i 0 ps = Inl (Err OutOfFuel)"
| "fill_loop E i (Suc n) ps =
     obind (highest_not_connected_peer E (data ps) i) (\<lambda>next.
     case next of
       None \<Rightarrow> Inr ps
     | Some p \<Rightarrow>
         if get_reputation (data ps) p < BANNED_THRESHOLD then Inr ps
         else
           obind (try_outgoing (data ps) i p) (\<lambda>r.
           case r of
             Some s \<Rightarrow> fill_loop E i n (push_message (Connect i p) (ps\<lparr>data := s\<rparr>))
           | None \<Rightarrow> Inr ps))"

definition fill_set :: "'p order \<Rightarrow> nat \<Rightarrow> 'p Peerset \<Rightarrow> 'p Peerset pr" where
  "fill_set E i ps =
     obind (vec_index (reserved_nodes ps) i) (\<lambda>r.
     if snd r then Inr ps
     else fill_loop E i (Suc (length (peers E (data ps)))) ps)"

definition alloc_slots :: "'p order \<Rightarrow> Instant \<Rightarrow> 'p Peerset \<Rightarrow> 'p Peerset pr" where
  "alloc_slots E now ps =
     obind (update_time E now ps) (\<lambda>ps.
     obind (ofold (connect_reserved_set E now) [0..<num_sets (data ps)] ps) (\<lambda>ps.
     ofold (fill_set E) [0..<num_sets (data ps)] ps))"

subsection \<open>Handlers\<close>

definition drop_connection :: "Instant \<Rightarrow> nat \<Rightarrow> 'p \<Rightarrow> 'p Peerset \<Rightarrow> 'p Peerset pr" where
  "drop_connection now i p ps =
     obind (disconnect now (data ps) i p) (\<lambda>s. Inr (push_message (Drop i p) (ps\<lparr>data := s\<rparr>)))"

definition on_add_reserved_peer :: "'p order \<Rightarrow> Instant \<Rightarrow> nat \<Rightarrow> 'p \<Rightarrow> 'p Peerset \<Rightarrow> 'p Peerset pr" where
  "on_add_reserved_peer E now i p ps =
     obind (vec_index (reserved_nodes ps) i) (\<lambda>(R, only).
     if p \<in> R then Inr ps
     else
       obind (add_no_slot_node (data ps) i p) (\<lambda>s.
       alloc_slots E now (ps\<lparr>reserved_nodes := (reserved_nodes ps)[i := (insert p R, only)], data := s\<rparr>)))"

definition on_remove_reserved_peer :: "Instant \<Rightarrow> nat \<Rightarrow> 'p \<Rightarrow> 'p Peerset \<Rightarrow> 'p Peerset pr" where
  "on_remove_reserved_peer now i p ps =
     obind (vec_index (reserved_nodes ps) i) (\<lambda>(R, only).
     if p \<notin> R then Inr ps
     else
       obind (remove_no_slot_node (data ps) i p) (\<lambda>s.
       let ps = ps\<lparr>reserved_nodes := (reserved_nodes ps)[i := (R - {p}, only)], data := s\<rparr>
       in if \<not> only then Inr ps
          else obind (peer (data ps) i p) (\<lambda>k.
            if k = PConnected then drop_connection now i p ps else Inr ps)))"

definition on_set_reserved_peers ::
  "'p order \<Rightarrow> Instant \<Rightarrow> nat \<Rightarrow> 'p set \<Rightarrow> 'p Peerset \<Rightarrow> 'p Peerset pr" where
  "on_set_reserved_peers E now i peer_ids ps =
     obind (vec_index (reserved_nodes ps) i) (\<lambda>(R, _).
     let to_insert = set_elems E (peer_ids - R);
         to_remove = set_elems E (R - peer_ids)
     in obind (ofold (on_add_reserved_peer E now i) to_insert ps) (\<lambda>ps.
        ofold (on_remove_reserved_peer now i) to_remove ps))"

definition drop_unless_reserved :: "Instant \<Rightarrow> nat \<Rightarrow> 'p \<Rightarrow> 'p Peerset \<Rightarrow> 'p Peerset pr" where
  "drop_unless_reserved now i p ps =
     obind (vec_index (reserved_nodes ps) i) (\<lambda>(R, _).
     if p \<in> R then Inr ps
     else
       obind (peer (data ps) i p) (\<lambda>k.
       obind (assert_that (k = PConnected)) (\<lambda>_. drop_connection now i p ps)))"

definition on_set_reserved_only :: "'p order \<Rightarrow> Instant \<Rightarrow> nat \<Rightarrow> bool \<Rightarrow> 'p Peerset \<Rightarrow> 'p Peerset pr" where
  "on_set_reserved_only E now i only ps =
     obind (vec_index (reserved_nodes ps) i) (\<lambda>(R, _).
     let ps = ps\<lparr>reserved_nodes := (reserved_nodes ps)[i := (R, only)]\<rparr>
     in if only then
          obind (connected_peers E (data ps) i) (\<lambda>cs.
          ofold (drop_unless_reserved now i) cs ps)
        else alloc_slots E now ps)"

definition add_to_peers_set :: "'p order \<Rightarrow> Instant \<Rightarrow> nat \<Rightarrow> 'p \<Rightarrow> 'p Peerset \<Rightarrow> 'p Peerset pr" where
  "add_to_peers_set E now i p ps =
     obind (peer (data ps) i p) (\<lambda>k.
     if k = PUnknown then
       obind (discover now (data ps) i p) (\<lambda>s. alloc_slots E now (ps\<lparr>data := s\<rparr>))
     else Inr ps)"

definition on_remove_from_peers_set :: "Instant \<Rightarrow> nat \<Rightarrow> 'p \<Rightarrow> 'p Peerset \<Rightarrow> 'p Peerset pr" where
  "on_remove_from_peers_set now i p ps =
     obind (vec_index (reserved_nodes ps) i) (\<lambda>(R, _).
     if p \<in> R then Inr ps
     else
       obind (peer (data ps) i p) (\<lambda>k.
       case k of
         PConnected \<Rightarrow>
           obind (disconnect now (data ps) i p) (\<lambda>s.
           obind (forget_peer s i p) (\<lambda>s.
           Inr (push_message (Drop i p) (ps\<lparr>data := s\<rparr>))))
       | PNotConnected \<Rightarrow>
           obind (forget_peer (data ps) i p) (\<lambda>s. Inr (ps\<lparr>data := s\<rparr>))
       | PUnknown \<Rightarrow> Inr ps))"

definition drop_if_connected :: "Instant \<Rightarrow> 'p \<Rightarrow> nat \<Rightarrow> 'p Peerset \<Rightarrow> 'p Peerset pr" where
  "drop_if_connected now p i ps =
     obind (peer (data ps) i p) (\<lambda>k. if k = PConnected then drop_connection now i p ps else Inr ps)"

definition on_report_peer :: "'p order \<Rightarrow> Instant \<Rightarrow> 'p \<Rightarrow> int \<Rightarrow> 'p Peerset \<Rightarrow> 'p Peerset pr" where
  "on_report_peer E now p change ps =
     obind (update_time E now ps) (\<lambda>ps.
     let s = add_reputation (ensure_node (data ps) p) p change;
         value = get_reputation s p;
         ps = ps\<lparr>data := drop_if_forgettable s p\<rparr>
     in if value \<ge> BANNED_THRESHOLD then Inr ps
        else ofold (drop_if_connected now p) [0..<num_sets (data ps)] ps)"

definition incoming :: "'p order \<Rightarrow> Instant \<Rightarrow> nat \<Rightarrow> 'p \<Rightarrow> IncomingIndex \<Rightarrow> 'p Peerset \<Rightarrow> 'p Peerset pr" where
  "incoming E now i p index ps =
     obind (update_time E now ps) (\<lambda>ps.
     obind (vec_index (reserved_nodes ps) i) (\<lambda>(R, only).
     if only \<and> p \<notin> R then Inr (push_message (Reject index) ps)
     else
       obind (peer (data ps) i p) (\<lambda>k.
       case k of
         PConnected \<Rightarrow> Inr ps
       | _ \<Rightarrow>
           obind (if k = PUnknown then discover now (data ps) i p
                  else bump_last_connected_or_discovered now (data ps) i p) (\<lambda>s.
           let ps = ps\<lparr>data := s\<rparr>
           in if get_reputation s p < BANNED_THRESHOLD then Inr (push_message (Reject index) ps)
              else
                obind (try_accept_incoming s i p) (\<lambda>r.
                case r of
                  Some s \<Rightarrow> Inr (push_message (Accept index) (ps\<lparr>data := s\<rparr>))
                | None \<Rightarrow> Inr (push_message (Reject index) ps))))))"

definition dropped :: "'p order \<Rightarrow> Instant \<Rightarrow> nat \<Rightarrow> 'p \<Rightarrow> DropReason \<Rightarrow> 'p Peerset \<Rightarrow> 'p Peerset pr" where
  "dropped E now i p reason ps =
     obind (update_time E now ps) (\<lambda>ps.
     obind (peer (data ps) i p) (\<lambda>k.
     obind (if k = PConnected then
              obind (disconnect now (add_reputation (data ps) p DISCONNECT_REPUTATION_CHANGE) i p) (\<lambda>s.
              Inr (ps\<lparr>data := s\<rparr>))
            else Inr ps) (\<lambda>ps.
     obind (if reason = Refused then on_remove_from_peers_set now i p ps else Inr ps) (\<lambda>ps.
     alloc_slots E now ps))))"

definition effective_peer_list :: "'p order \<Rightarrow> int \<Rightarrow> 'p Peerset \<Rightarrow> ('p \<times> int) list" where
  "effective_peer_list E threshold ps = filter (\<lambda>(_, r). r \<ge> threshold) (peer_reputations E (data ps))"

definition num_discovered_peers :: "'p order \<Rightarrow> 'p Peerset \<Rightarrow> nat" where
  "num_discovered_peers E ps = length (peers E (data ps))"

definition send_action :: "'p Action \<Rightarrow> 'p Peerset \<Rightarrow> 'p Peerset" where
  "send_action a ps = ps\<lparr>rx := rx ps @ [a]\<rparr>"

fun on_action :: "'p order \<Rightarrow> Instant \<Rightarrow> 'p Action \<Rightarrow> 'p Peerset \<Rightarrow> 'p Peerset pr" where
  "on_action E now (AddReservedPeer i p) ps = on_add_reserved_peer E now i p ps"
| "on_action E now (RemoveReservedPeer i p) ps = on_remove_reserved_peer now i p ps"
| "on_action E now (SetReservedPeers i ids) ps = on_set_reserved_peers E now i ids ps"
| "on_action E now (SetReservedOnly i only) ps = on_set_reserved_only E now i only ps"
| "on_action E now (ReportPeer p diff) ps = on_report_peer E now p diff ps"
| "on_action E now (AddToPeersSet i p) ps = add_to_peers_set E now i p ps"
| "on_action E now (RemoveFromPeersSet i p) ps = on_remove_from_peers_set now i p ps"
| "on_action E now (PeerReputations threshold) ps =
     Inr (ps\<lparr>replies := replies ps @ [effective_peer_list E threshold ps]\<rparr>)"

text \<open>The loop of \<^verbatim>\<open>poll_next\<close>; its first argument is what is left in the action channel.\<close>

fun poll_loop :: "'p order \<Rightarrow> Instant \<Rightarrow> 'p Action list \<Rightarrow> 'p Peerset \<Rightarrow> ('p Message option \<times> 'p Peerset) pr" where
  "poll_loop E now actions ps =
     (case message_queue ps of
        m # ms \<Rightarrow> Inr (Some m, ps\<lparr>message_queue := ms, rx := actions\<rparr>)
      | [] \<Rightarrow>
          (case actions of
             [] \<Rightarrow> Inr (None, ps\<lparr>rx := []\<rparr>)
           | a # actions' \<Rightarrow> obind (on_action E now a ps) (poll_loop E now actions')))"

definition poll_next :: "'p order \<Rightarrow> Instant \<Rightarrow> 'p Peerset \<Rightarrow> ('p Message option \<times> 'p Peerset) pr" where
  "poll_next E now ps = poll_loop E now (rx ps) ps"

declare poll_loop.simps [simp del]

subsection \<open>Configuration\<close>

definition add_bootnode :: "Instant \<Rightarrow> nat \<Rightarrow> 'p \<Rightarrow> 'p PeersState \<Rightarrow> 'p PeersState pr" where
  "add_bootnode now i p s =
     obind (peer s i p) (\<lambda>k. if k = PUnknown then discover now s i p else Inr s)"

definition add_set :: "'p order \<Rightarrow> Instant \<Rightarrow> nat \<times> 'p SetConfig \<Rightarrow> 'p PeersState \<Rightarrow> 'p PeersState pr" where
  "add_set E now ic s =
     obind (ofold (\<lambda>p s. add_no_slot_node s (fst ic) p) (set_elems E (cfg_reserved_nodes (snd ic))) s)
       (ofold (add_bootnode now (fst ic)) (bootnodes (snd ic)))"

definition from_config :: "'p order \<Rightarrow> Instant \<Rightarrow> 'p SetConfig list \<Rightarrow> 'p Peerset pr" where
  "from_config E now configs =
     (let s = peers_state_new (map (\<lambda>c. \<lparr>sc_in_peers = in_peers c, sc_out_peers = out_peers c\<rparr>) configs);
          ps = \<lparr>data = s, reserved_nodes = map (\<lambda>c. (cfg_reserved_nodes c, reserved_only c)) configs,
                rx = [], message_queue = [], created = now, latest_time_update = now, replies = []\<rparr>
      in obind (ofold (add_set E now) (enumerate 0 configs) s) (\<lambda>s.
         alloc_slots E now (ps\<lparr>data := s\<rparr>)))"


section \<open>The passing of time\<close>

text \<open>
  What time does: connections stay, a peer that is not connected may be forgotten.
\<close>

definition decayed :: "'p PeersState \<Rightarrow> 'p PeersState \<Rightarrow> bool" where
  "decayed s s' \<longleftrightarrow> peers_state_ok s' \<and> limits s' = limits s \<and>
     (\<forall>j < num_sets s. \<forall>q. membership s' j q = membership s j q \<or>
        (\<exists>t. membership s j q = NotConnected t) \<and> membership s' j q = NotMember)"

lemma decayed_refl: "peers_state_ok s \<Longrightarrow> decayed s s"
  by (simp add: decayed_def)

lemma decayed_trans: "decayed s s' \<Longrightarrow> decayed s' s'' \<Longrightarrow> decayed s s''"
  using limits_num_sets [of s' s] unfolding decayed_def by (metis MembershipState.distinct(5))

lemma unmoved_decayed: "unmoved s s' \<Longrightarrow> decayed s s'"
  by (simp add: unmoved_def decayed_def limits_def)

lemma forgotten_decayed:
  assumes "moved s i p NotMember s'" "membership s i p = NotConnected t"
  shows "decayed s s'"
  using assms by (auto simp: moved_def decayed_def)

lemma decayed_connected:
  "decayed s s' \<Longrightarrow> j < num_sets s \<Longrightarrow> is_connected (membership s' j q) \<longleftrightarrow> is_connected (membership s j q)"
  unfolding decayed_def by (metis is_connected.simps(1,4))

lemma decayed_num_sets: "decayed s s' \<Longrightarrow> num_sets s' = num_sets s"
  using limits_num_sets [of s' s] by (simp add: decayed_def)

lemma forget_idle_eq:
  assumes ok: "peers_state_ok s" and i: "i < num_sets s"
  shows "\<exists>s'. forget_idle now p i s = Inr s' \<and> decayed s s'"
proof (cases "membership s i p")
  case (NotConnected t)
  then show ?thesis
    using peer_eq [OF peers_state_okD(1) [OF ok] i, of p] last_connected_eq [OF ok i NotConnected, of now]
      forget_peer_eq [OF ok i NotConnected] forgotten_decayed [OF _ NotConnected] decayed_refl [OF ok]
    by (auto simp: forget_idle_def)
qed (use peer_eq [OF peers_state_okD(1) [OF ok] i, of p] decayed_refl [OF ok] in
    \<open>auto simp: forget_idle_def\<close>)

text \<open>A second moves the reputation towards zero, and by at least one.\<close>

lemma tdiv_50: "tdiv r 50 = (if r \<ge> 0 then r div 50 else - ((- r) div 50))"
  by (auto simp: tdiv_def sgn_if)

lemma reput_tick_cases:
  assumes "I32_MIN \<le> r" "r \<le> I32_MAX"
  shows "(r = 0 \<longrightarrow> reput_tick r = 0) \<and> (0 < r \<longrightarrow> 0 \<le> reput_tick r \<and> reput_tick r < r) \<and>
    (r < 0 \<longrightarrow> r < reput_tick r \<and> reput_tick r \<le> 0)"
proof -
  have pos: "0 \<le> x div 50 \<and> x div 50 \<le> x \<and> (x div 50 = 0 \<or> 1 \<le> x div 50)" if "0 \<le> x" for x :: int
    using that zdiv_mono2 [of x 1 50] by (auto simp: pos_imp_zdiv_nonneg_iff)
  show ?thesis
  proof (cases r "0 :: int" rule: linorder_cases)
    case less
    have "0 \<le> (- r) div 50" "(- r) div 50 \<le> - r" using pos [of "- r"] less by auto
    then show ?thesis
      using less assms by (auto simp: reput_tick_def tdiv_50 i32_saturate_def I32_MIN_def I32_MAX_def Let_def)
  next
    case equal
    then show ?thesis by (simp add: reput_tick_def tdiv_50 i32_saturate_def I32_MIN_def I32_MAX_def)
  next
    case greater
    have "0 \<le> r div 50" "r div 50 \<le> r" using pos [of r] greater by auto
    then show ?thesis
      using greater assms by (auto simp: reput_tick_def tdiv_50 i32_saturate_def I32_MIN_def I32_MAX_def Let_def)
  qed
qed

lemma reput_tick_bounds: "I32_MIN \<le> reput_tick r" "reput_tick r \<le> I32_MAX"
  using i32_saturate_bounds by (simp_all add: reput_tick_def Let_def)

lemma tick_peer_eq:
  assumes ok: "peers_state_ok s"
  shows "\<exists>s'. tick_peer now p s = Inr s' \<and> decayed s s'"
proof -
  let ?s1 = "ensure_node s p"
  let ?a = "reput_tick (get_reputation ?s1 p)"
  let ?s2 = "set_reputation ?s1 p ?a"
  let ?s3 = "drop_if_forgettable ?s2 p"
  have 1: "unmoved s ?s1" using ensure_node_eq [OF ok] by blast
  have 2: "unmoved ?s1 ?s2"
    using 1 reput_tick_bounds by (intro set_reputation_eq) (auto simp: unmoved_def)
  have 3: "unmoved ?s2 ?s3" using 2 by (intro drop_if_forgettable_eq) (simp add: unmoved_def)
  have d: "decayed s ?s3" using unmoved_trans [OF 1 unmoved_trans [OF 2 3]] by (rule unmoved_decayed)
  have n: "num_sets ?s3 = num_sets s" using decayed_num_sets [OF d] .
  have "\<exists>s'. ofold (forget_idle now p) [0..<num_sets ?s3] ?s3 = Inr s' \<and> decayed s s'"
  proof (rule ofold_inv [where I = "decayed s"])
    fix i t assume "i \<in> set [0..<num_sets ?s3]" and t: "decayed s t"
    then have "i < num_sets t" using n decayed_num_sets [OF t] by simp
    then show "\<exists>s'. forget_idle now p i t = Inr s' \<and> decayed s s'"
      using forget_idle_eq [of t i now p] t decayed_trans [OF t] by (auto simp: decayed_def [of s t])
  qed (rule d)
  then show ?thesis using d unfolding tick_peer_def Let_def by (cases "?a = 0") simp_all
qed

lemma tick_seconds_eq:
  assumes "peers_state_ok s"
  shows "\<exists>s'. tick_seconds E now n s = Inr s' \<and> decayed s s'"
  using assms
proof (induction n arbitrary: s)
  case 0
  then show ?case by (simp add: decayed_refl)
next
  case (Suc n)
  have "\<exists>s'. ofold (tick_peer now) (peers E s) s = Inr s' \<and> decayed s s'"
  proof (rule ofold_inv [where I = "decayed s"])
    fix p t assume t: "decayed s t"
    then have "peers_state_ok t" by (simp add: decayed_def)
    then show "\<exists>s'. tick_peer now p t = Inr s' \<and> decayed s s'"
      using tick_peer_eq [of t now p] decayed_trans [OF t] by blast
  qed (rule decayed_refl [OF Suc.prems])
  then obtain t where t: "ofold (tick_peer now) (peers E s) s = Inr t" "decayed s t" by blast
  then have "peers_state_ok t" by (simp add: decayed_def)
  then show ?case using Suc.IH [of t] t decayed_trans [OF t(2)] by auto
qed


section \<open>The invariant\<close>

abbreviation connected :: "'p Peerset \<Rightarrow> nat \<Rightarrow> 'p \<Rightarrow> bool" where
  "connected ps i p \<equiv> is_connected (membership (data ps) i p)"

abbreviation reserved :: "'p Peerset \<Rightarrow> nat \<Rightarrow> 'p set" where
  "reserved ps i \<equiv> fst (reserved_nodes ps ! i)"

abbreviation only_reserved :: "'p Peerset \<Rightarrow> nat \<Rightarrow> bool" where
  "only_reserved ps i \<equiv> snd (reserved_nodes ps ! i)"

text \<open>
  The slot counters are right, the reserved nodes are the nodes that occupy no slot, and a
  set in reserved-only mode has no connection to a node that is not reserved.
\<close>

definition peerset_ok :: "'p Peerset \<Rightarrow> bool" where
  "peerset_ok ps \<longleftrightarrow> peers_state_ok (data ps) \<and> length (reserved_nodes ps) = num_sets (data ps) \<and>
     created ps \<le> latest_time_update ps \<and>
     (\<forall>i < num_sets (data ps). finite (reserved ps i) \<and>
        no_slot_nodes (ps_sets (data ps) ! i) = reserved ps i \<and>
        (only_reserved ps i \<longrightarrow> (\<forall>p. connected ps i p \<longrightarrow> p \<in> reserved ps i)))"

text \<open>What the handlers keep besides the invariant, for a reading \<open>now\<close> of the clock.\<close>

definition kept :: "Instant \<Rightarrow> 'p Peerset \<Rightarrow> 'p Peerset \<Rightarrow> bool" where
  "kept now ps ps' \<longleftrightarrow> peerset_ok ps' \<and> reserved_nodes ps' = reserved_nodes ps \<and>
     limits (data ps') = limits (data ps) \<and> latest_time_update ps' \<le> now \<and> rx ps' = rx ps"

lemma kept_trans: "kept now ps ps' \<Longrightarrow> kept now ps' ps'' \<Longrightarrow> kept now ps ps''"
  by (simp add: kept_def)

lemma kept_num_sets: "kept now ps ps' \<Longrightarrow> num_sets (data ps') = num_sets (data ps)"
  using limits_num_sets [of "data ps'" "data ps"] by (simp add: kept_def)

lemma peerset_okD:
  assumes "peerset_ok ps"
  shows "peers_state_ok (data ps)" "nodes_ok (data ps)" "length (reserved_nodes ps) = num_sets (data ps)"
    and "i < num_sets (data ps) \<Longrightarrow> no_slot_nodes (ps_sets (data ps) ! i) = reserved ps i"
    and "i < num_sets (data ps) \<Longrightarrow> finite (reserved ps i)"
    and "i < num_sets (data ps) \<Longrightarrow> only_reserved ps i \<Longrightarrow> connected ps i p \<Longrightarrow> p \<in> reserved ps i"
  using assms by (auto simp: peerset_ok_def peers_state_ok_def)

lemma data_kept:
  assumes ps: "peerset_ok ps" "latest_time_update ps \<le> now"
    and s: "peers_state_ok s" "limits s = limits (data ps)"
    and con: "\<And>i p. i < num_sets (data ps) \<Longrightarrow> only_reserved ps i \<Longrightarrow>
      is_connected (membership s i p) \<Longrightarrow> connected ps i p \<or> p \<in> reserved ps i"
  shows "kept now ps (ps\<lparr>data := s\<rparr>)"
proof -
  have n: "num_sets s = num_sets (data ps)" using limits_num_sets [OF s(2)] .
  have "p \<in> reserved ps i" if "i < num_sets (data ps)" "only_reserved ps i"
      "is_connected (membership s i p)" for i p
    using con [OF that] peerset_okD(6) [OF ps(1) that(1,2)] by blast
  then show ?thesis
    using ps s limits_nth(1) [OF s(2)] by (auto simp: kept_def peerset_ok_def n)
qed

lemma push_message_simps [simp]:
  "data (push_message m ps) = data ps" "reserved_nodes (push_message m ps) = reserved_nodes ps"
  "rx (push_message m ps) = rx ps" "created (push_message m ps) = created ps"
  "latest_time_update (push_message m ps) = latest_time_update ps"
  "message_queue (push_message m ps) = message_queue ps @ [m]"
  by (simp_all add: push_message_def)

lemma peerset_ok_push [simp]: "peerset_ok (push_message m ps) \<longleftrightarrow> peerset_ok ps"
  by (simp add: peerset_ok_def)

lemma kept_push: "kept now ps ps' \<Longrightarrow> kept now ps (push_message m ps')"
  by (simp add: kept_def)

lemma kept_refl: "peerset_ok ps \<Longrightarrow> latest_time_update ps \<le> now \<Longrightarrow> kept now ps ps"
  by (simp add: kept_def)

lemma keptD: "kept now ps ps' \<Longrightarrow> peerset_ok ps'" "kept now ps ps' \<Longrightarrow> latest_time_update ps' \<le> now"
  by (simp_all add: kept_def)

lemma moved_kept:
  assumes "peerset_ok ps" "latest_time_update ps \<le> now" "moved (data ps) i p m s"
    "is_connected m \<Longrightarrow> only_reserved ps i \<Longrightarrow> p \<in> reserved ps i"
  shows "kept now ps (ps\<lparr>data := s\<rparr>)"
  using assms by (intro data_kept) (auto simp: moved_def split: if_splits)

lemma decayed_kept:
  assumes "peerset_ok ps" "latest_time_update ps \<le> now" "decayed (data ps) s"
  shows "kept now ps (ps\<lparr>data := s\<rparr>)"
  using assms decayed_connected [OF assms(3)] by (intro data_kept) (auto simp: decayed_def)

lemma update_time_eq:
  assumes ps: "peerset_ok ps" "latest_time_update ps \<le> now"
  shows "\<exists>ps'. update_time E now ps = Inr ps' \<and> kept now ps ps' \<and> decayed (data ps) (data ps') \<and>
    message_queue ps' = message_queue ps"
proof -
  have c: "created ps \<le> latest_time_update ps" using ps(1) by (simp add: peerset_ok_def)
  let ?d = "unat (of_nat ((now - created ps) div NANOS_PER_SEC) -
    of_nat ((latest_time_update ps - created ps) div NANOS_PER_SEC) :: u64)"
  obtain s where s: "tick_seconds E now ?d (data ps) = Inr s" "decayed (data ps) s"
    using tick_seconds_eq [OF peerset_okD(1) [OF ps(1)]] by blast
  have "update_time E now ps = Inr (ps\<lparr>latest_time_update := now, data := s\<rparr>)"
    using c ps(2) s(1) by (simp add: update_time_def instant_secs_def)
  moreover have "kept now ps (ps\<lparr>latest_time_update := now, data := s\<rparr>)"
    using decayed_kept [OF ps s(2)] c ps(2) by (simp add: kept_def peerset_ok_def)
  ultimately show ?thesis using s(2) by auto
qed

section \<open>Filling slots\<close>

lemma connect_reserved_eq:
  assumes ps: "peerset_ok ps" "latest_time_update ps \<le> now" and i: "i < num_sets (data ps)"
    and p: "p \<in> reserved ps i"
  shows "\<exists>ps'. connect_reserved now i p ps = Inr ps' \<and> kept now ps ps' \<and> connected ps' i p \<and>
    (\<forall>j < num_sets (data ps). \<forall>q. connected ps j q \<longrightarrow> connected ps' j q)"
proof (cases "connected ps i p")
  case True
  then have "peer (data ps) i p = Inr PConnected"
    using peer_eq [OF peerset_okD(2) [OF ps(1)] i, of p] by (cases "membership (data ps) i p") auto
  then show ?thesis using True kept_refl [OF ps] by (simp add: connect_reserved_def)
next
  case False
  let ?s = "data ps"
  let ?k = "case membership ?s i p of NotMember \<Rightarrow> PUnknown | _ \<Rightarrow> PNotConnected"
  have k: "peer ?s i p = Inr ?k"
    using peer_eq [OF peerset_okD(2) [OF ps(1)] i, of p] False by (cases "membership ?s i p") auto
  note ok = peerset_okD(1) [OF ps(1)]
  obtain s1 t where s1: "(if ?k = PUnknown then discover now ?s i p else Inr ?s) = Inr s1"
    "moved ?s i p (NotConnected t) s1"
  proof (cases "membership ?s i p")
    case (NotConnected t)
    then have "moved ?s i p (NotConnected t) ?s" using ok by (auto simp: moved_def)
    then show ?thesis using that [of ?s t] NotConnected by simp
  qed (use False discover_eq [OF ok i, of p now] that in auto)
  have m1: "peers_state_ok s1" "i < num_sets s1" "membership s1 i p = NotConnected t" "limits s1 = limits ?s"
    using s1(2) i limits_num_sets [of s1 ?s] by (auto simp: moved_def)
  have slot: "p \<in> no_slot_nodes (ps_sets s1 ! i)"
    using limits_nth(1) [OF m1(4) i] peerset_okD(4) [OF ps(1) i] p by simp
  obtain s2 where s2: "try_outgoing s1 i p = Inr (Some s2)" "moved s1 i p Out s2"
    using try_outgoing_eq [OF m1(1,2,3)] slot by auto
  have mv: "moved ?s i p Out s2" using s1(2) s2(2) limits_num_sets [OF m1(4)] by (auto simp: moved_def)
  have "connect_reserved now i p ps = Inr (push_message (Connect i p) (ps\<lparr>data := s2\<rparr>))"
    using k s1(1) s2(1) by (cases "membership ?s i p") (auto simp: connect_reserved_def)
  moreover have "kept now ps (push_message (Connect i p) (ps\<lparr>data := s2\<rparr>))"
    using moved_kept [OF ps mv] p by (simp add: kept_push)
  ultimately show ?thesis using mv i by (auto simp: moved_def)
qed


lemma connect_reserved_set_eq:
  assumes E: "iteration_ok E" and ps: "peerset_ok ps" "latest_time_update ps \<le> now"
    and i: "i < num_sets (data ps)"
  shows "\<exists>ps'. connect_reserved_set E now i ps = Inr ps' \<and> kept now ps ps' \<and>
    (\<forall>p \<in> reserved ps i. connected ps' i p) \<and>
    (\<forall>j < num_sets (data ps). \<forall>q. connected ps j q \<longrightarrow> connected ps' j q)"
proof -
  have R: "set (set_elems E (reserved ps i)) = reserved ps i"
    using E peerset_okD(5) [OF ps(1) i] by (simp add: iteration_ok_def)
  let ?I = "\<lambda>A ps'. kept now ps ps' \<and> (\<forall>p \<in> A. connected ps' i p) \<and>
    (\<forall>j < num_sets (data ps). \<forall>q. connected ps j q \<longrightarrow> connected ps' j q)"
  have "\<exists>ps'. ofold (connect_reserved now i) (set_elems E (reserved ps i)) ps = Inr ps' \<and>
      ?I (set (set_elems E (reserved ps i))) ps'"
  proof (rule ofold_done [where I = ?I])
    show "?I {} ps" using kept_refl [OF ps] by simp
  next
    fix p ps1 A
    assume p: "p \<in> set (set_elems E (reserved ps i))" and I: "?I A ps1"
    have n: "num_sets (data ps1) = num_sets (data ps)" using I kept_num_sets by blast
    have "p \<in> reserved ps1 i" using p R I by (simp add: kept_def)
    then obtain ps2 where ps2: "connect_reserved now i p ps1 = Inr ps2" "kept now ps1 ps2"
      "connected ps2 i p" "\<forall>j < num_sets (data ps1). \<forall>q. connected ps1 j q \<longrightarrow> connected ps2 j q"
      using connect_reserved_eq [of ps1 now i p] I i n by (auto simp: kept_def)
    have "kept now ps ps2" using kept_trans I ps2(2) by blast
    then show "\<exists>ps2. connect_reserved now i p ps1 = Inr ps2 \<and> ?I (insert p A) ps2"
      using ps2 I i n by auto
  qed
  then show ?thesis
    using R i peerset_okD(3) [OF ps(1)] by (simp add: connect_reserved_set_def vec_index_def)
qed

text \<open>
  A set is filled when its outgoing slots are used up or every peer it could still connect
  to is banned.
\<close>

definition filled :: "'p Peerset \<Rightarrow> nat \<Rightarrow> bool" where
  "filled ps i \<longleftrightarrow> num_out (ps_sets (data ps) ! i) \<ge> max_out (ps_sets (data ps) ! i) \<or>
     (\<forall>p t. membership (data ps) i p = NotConnected t \<longrightarrow> get_reputation (data ps) p < BANNED_THRESHOLD)"

definition waiting :: "'p PeersState \<Rightarrow> nat \<Rightarrow> 'p set" where
  "waiting s i = {p. \<exists>t. membership s i p = NotConnected t}"

lemma waiting_subset: "waiting s i \<subseteq> dom (nodes s)"
  using member_node [of s i] by (auto simp: waiting_def)

lemma filled_cong:
  assumes "peerset_ok ps" "peerset_ok ps'" "limits (data ps') = limits (data ps)" "i < num_sets (data ps)"
    "\<And>q. membership (data ps') i q = membership (data ps) i q"
    "\<And>q. get_reputation (data ps') q = get_reputation (data ps) q"
  shows "filled ps' i \<longleftrightarrow> filled ps i"
proof -
  have n: "i < num_sets (data ps')" using assms(3,4) limits_num_sets [of "data ps'" "data ps"] by simp
  have "num_out (ps_sets (data ps') ! i) = num_out (ps_sets (data ps) ! i)"
    using peers_state_okD(2) [OF peerset_okD(1) [OF assms(1)]]
      peers_state_okD(2) [OF peerset_okD(1) [OF assms(2)]] n assms(4)
      limits_nth(1) [OF assms(3,4)] by (simp add: slots_ok_def assms(5))
  then show ?thesis using limits_nth(3) [OF assms(3,4)] assms(5,6) by (simp add: filled_def)
qed

text \<open>What filling set \<open>i\<close> keeps of the other sets.\<close>

definition only_in :: "nat \<Rightarrow> 'p Peerset \<Rightarrow> 'p Peerset \<Rightarrow> bool" where
  "only_in i ps ps' \<longleftrightarrow>
     (\<forall>q. get_reputation (data ps') q = get_reputation (data ps) q) \<and>
     (\<forall>j < num_sets (data ps). \<forall>q. connected ps j q \<longrightarrow> connected ps' j q) \<and>
     (\<forall>j < num_sets (data ps). \<forall>q. j \<noteq> i \<longrightarrow> membership (data ps') j q = membership (data ps) j q)"

lemma fill_loop_eq:
  assumes E: "iteration_ok E" and ps: "peerset_ok ps" "latest_time_update ps \<le> now"
    and i: "i < num_sets (data ps)" and free: "\<not> only_reserved ps i"
    and n: "card (waiting (data ps) i) < n"
  shows "\<exists>ps'. fill_loop E i n ps = Inr ps' \<and> kept now ps ps' \<and> filled ps' i \<and> only_in i ps ps'"
  using ps i free n
proof (induction n arbitrary: ps)
  case (Suc n)
  note ok = peerset_okD(1) [OF Suc.prems(1)] and nok = peerset_okD(2) [OF Suc.prems(1)]
  let ?s = "data ps"
  obtain r where r: "highest_not_connected_peer E ?s i = Inr r"
    "r = None \<longrightarrow> (\<forall>p t. membership ?s i p \<noteq> NotConnected t)"
    "\<forall>q. r = Some q \<longrightarrow> (\<exists>t. membership ?s i q = NotConnected t) \<and>
      (\<forall>p t. membership ?s i p = NotConnected t \<longrightarrow> get_reputation ?s p \<le> get_reputation ?s q)"
    using highest_not_connected_peer_eq [OF E nok Suc.prems(3)] by blast
  have stop: "kept now ps ps" "only_in i ps ps" using kept_refl [OF Suc.prems(1,2)] by (simp_all add: only_in_def)
  show ?case
  proof (cases r)
    case None
    then have "filled ps i" using r(2) by (simp add: filled_def)
    then show ?thesis using None r(1) stop by auto
  next
    case (Some q)
    then obtain t where q: "membership ?s i q = NotConnected t" and
      best: "\<And>p t. membership ?s i p = NotConnected t \<Longrightarrow> get_reputation ?s p \<le> get_reputation ?s q"
      using r(3) by blast
    show ?thesis
    proof (cases "get_reputation ?s q < BANNED_THRESHOLD")
      case True
      then have "filled ps i" using best by (fastforce simp: filled_def)
      then show ?thesis using Some True r(1) stop by auto
    next
      case False
      show ?thesis
      proof (cases "num_out (ps_sets ?s ! i) \<ge> max_out (ps_sets ?s ! i) \<and> q \<notin> no_slot_nodes (ps_sets ?s ! i)")
        case True
        then have "try_outgoing ?s i q = Inr None" "filled ps i"
          using try_outgoing_eq [OF ok Suc.prems(3) q] by (simp_all add: filled_def)
        then show ?thesis using Some False r(1) stop by auto
      next
        case slot: False
        obtain s' where s': "try_outgoing ?s i q = Inr (Some s')" "moved ?s i q Out s'"
          "\<forall>p. get_reputation s' p = get_reputation ?s p"
          using try_outgoing_eq [OF ok Suc.prems(3) q] slot by auto
        let ?ps = "push_message (Connect i q) (ps\<lparr>data := s'\<rparr>)"
        have k: "kept now ps ?ps" using moved_kept [OF Suc.prems(1,2) s'(2)] Suc.prems(4) by (simp add: kept_push)
        have fr: "only_in i ps ?ps" using s'(2,3) by (auto simp: only_in_def moved_def)
        have "waiting s' i = waiting ?s i - {q}"
          using s'(2) Suc.prems(3) by (auto simp: waiting_def moved_def)
        moreover have "finite (waiting ?s i)"
          using waiting_subset [of ?s i] nok by (auto simp: nodes_ok_def intro: finite_subset)
        moreover have "q \<in> waiting ?s i" using q by (auto simp: waiting_def)
        ultimately have "card (waiting s' i) < n"
          using Suc.prems(5) card_Diff1_less [of "waiting ?s i" q] by simp
        then obtain ps' where ps': "fill_loop E i n ?ps = Inr ps'" "kept now ?ps ps'" "filled ps' i"
          "only_in i ?ps ps'"
          using Suc.IH [of ?ps] k Suc.prems(3,4) kept_num_sets [OF k] by (auto simp: kept_def)
        have "only_in i ps ps'" using fr ps'(4) kept_num_sets [OF k] by (auto simp: only_in_def)
        then show ?thesis using Some False r(1) s'(1) ps' kept_trans [OF k] by auto
      qed
    qed
  qed
qed simp

lemma fill_set_eq:
  assumes E: "iteration_ok E" and ps: "peerset_ok ps" "latest_time_update ps \<le> now"
    and i: "i < num_sets (data ps)"
  shows "\<exists>ps'. fill_set E i ps = Inr ps' \<and> kept now ps ps' \<and> (\<not> only_reserved ps i \<longrightarrow> filled ps' i) \<and>
    only_in i ps ps'"
proof (cases "only_reserved ps i")
  case True
  then show ?thesis
    using kept_refl [OF ps] i peerset_okD(3) [OF ps(1)] by (simp add: fill_set_def vec_index_def only_in_def)
next
  case False
  note nok = peerset_okD(2) [OF ps(1)]
  have "length (peers E (data ps)) = card (dom (nodes (data ps)))"
    using E nok distinct_card [of "map_keys E (nodes (data ps))"]
    by (simp add: peers_def iteration_ok_def nodes_ok_def)
  moreover have "card (waiting (data ps) i) \<le> card (dom (nodes (data ps)))"
    using nok by (intro card_mono waiting_subset) (simp add: nodes_ok_def)
  ultimately show ?thesis
    using fill_loop_eq [OF E ps i False, of "Suc (length (peers E (data ps)))"] False i
      peerset_okD(3) [OF ps(1)] by (simp add: fill_set_def vec_index_def)
qed


lemma alloc_slots_eq:
  assumes E: "iteration_ok E" and ps: "peerset_ok ps" "latest_time_update ps \<le> now"
  shows "\<exists>ps'. alloc_slots E now ps = Inr ps' \<and> kept now ps ps' \<and>
    (\<forall>i < num_sets (data ps). (\<forall>p \<in> reserved ps i. connected ps' i p) \<and>
      (only_reserved ps i \<or> filled ps' i))"
proof -
  obtain ps1 where ps1: "update_time E now ps = Inr ps1" "kept now ps ps1"
    using update_time_eq [OF ps] by blast
  note n1 = kept_num_sets [OF ps1(2)]
  let ?I = "\<lambda>A ps'. kept now ps ps' \<and> (\<forall>i \<in> A. i < num_sets (data ps) \<longrightarrow> (\<forall>p \<in> reserved ps i. connected ps' i p))"
  have "\<exists>ps2. ofold (connect_reserved_set E now) [0..<num_sets (data ps1)] ps1 = Inr ps2 \<and>
      ?I (set [0..<num_sets (data ps1)]) ps2"
  proof (rule ofold_done [where I = ?I])
    fix i ps' A assume i: "i \<in> set [0..<num_sets (data ps1)]" and I: "?I A ps'"
    then have k: "kept now ps ps'" and n: "num_sets (data ps') = num_sets (data ps)"
      using kept_num_sets by auto
    obtain ps2 where ps2: "connect_reserved_set E now i ps' = Inr ps2" "kept now ps' ps2"
      "\<forall>p \<in> reserved ps' i. connected ps2 i p"
      "\<forall>j < num_sets (data ps'). \<forall>q. connected ps' j q \<longrightarrow> connected ps2 j q"
      using connect_reserved_set_eq [OF E keptD [OF k], of i] i n n1 by auto
    have "kept now ps ps2" "reserved_nodes ps' = reserved_nodes ps"
      using kept_trans [OF k ps2(2)] k by (simp_all add: kept_def)
    then show "\<exists>ps2. connect_reserved_set E now i ps' = Inr ps2 \<and> ?I (insert i A) ps2"
      using ps2 I n by auto
  qed (simp add: ps1(2))
  then obtain ps2 where ps2: "ofold (connect_reserved_set E now) [0..<num_sets (data ps1)] ps1 = Inr ps2"
    "kept now ps ps2" "\<And>i p. i < num_sets (data ps) \<Longrightarrow> p \<in> reserved ps i \<Longrightarrow> connected ps2 i p"
    using n1 by auto
  note n2 = kept_num_sets [OF ps2(2)]
  let ?K = "\<lambda>A ps'. kept now ps ps' \<and>
    (\<forall>i < num_sets (data ps). \<forall>p \<in> reserved ps i. connected ps' i p) \<and>
    (\<forall>i \<in> A. i < num_sets (data ps) \<longrightarrow> only_reserved ps i \<or> filled ps' i)"
  have "\<exists>ps3. ofold (fill_set E) [0..<num_sets (data ps2)] ps2 = Inr ps3 \<and>
      ?K (set [0..<num_sets (data ps2)]) ps3"
  proof (rule ofold_done [where I = ?K])
    fix i ps' A assume i: "i \<in> set [0..<num_sets (data ps2)]" and K: "?K A ps'"
    then have k: "kept now ps ps'" and n: "num_sets (data ps') = num_sets (data ps)"
      using kept_num_sets by auto
    obtain ps3 where ps3: "fill_set E i ps' = Inr ps3" "kept now ps' ps3"
      "\<not> only_reserved ps' i \<longrightarrow> filled ps3 i" "only_in i ps' ps3"
      using fill_set_eq [OF E keptD [OF k], of i] i n n2 by auto
    have k3: "kept now ps ps3" "reserved_nodes ps' = reserved_nodes ps"
      using kept_trans [OF k ps3(2)] k by (simp_all add: kept_def)
    have "filled ps3 j \<longleftrightarrow> filled ps' j" if "j < num_sets (data ps)" "j \<noteq> i" for j
      using that n ps3(2,4) keptD(1) [OF k]
      by (intro filled_cong) (auto simp: kept_def only_in_def)
    then have "\<forall>j \<in> insert i A. j < num_sets (data ps) \<longrightarrow> only_reserved ps j \<or> filled ps3 j"
      using K ps3(3) k3(2) by auto
    then show "\<exists>ps3. fill_set E i ps' = Inr ps3 \<and> ?K (insert i A) ps3"
      using ps3 k3 K n by (auto simp: only_in_def)
  qed (simp add: ps2)
  then obtain ps3 where ps3: "ofold (fill_set E) [0..<num_sets (data ps2)] ps2 = Inr ps3"
    "?K (set [0..<num_sets (data ps2)]) ps3" by blast
  have "alloc_slots E now ps = Inr ps3" using ps1(1) ps2(1) ps3(1) by (simp add: alloc_slots_def)
  then show ?thesis using ps3(2) n2 by auto
qed

section \<open>The handlers keep the invariant\<close>

lemma drop_connection_eq:
  assumes ps: "peerset_ok ps" "latest_time_update ps \<le> now" and i: "i < num_sets (data ps)"
    and c: "connected ps i p"
  shows "\<exists>ps'. drop_connection now i p ps = Inr ps' \<and> kept now ps ps' \<and>
    moved (data ps) i p (NotConnected now) (data ps') \<and> message_queue ps' = message_queue ps @ [Drop i p]"
proof -
  obtain s where s: "disconnect now (data ps) i p = Inr s" "moved (data ps) i p (NotConnected now) s"
    using disconnect_eq [OF peerset_okD(1) [OF ps(1)] i c] by blast
  then show ?thesis
    using moved_kept [OF ps s(2)] by (auto simp: drop_connection_def kept_push)
qed

lemma peer_connected:
  "peerset_ok ps \<Longrightarrow> i < num_sets (data ps) \<Longrightarrow>
    \<exists>k. peer (data ps) i p = Inr k \<and> (k = PConnected \<longleftrightarrow> connected ps i p) \<and>
      (k = PUnknown \<longleftrightarrow> membership (data ps) i p = NotMember) \<and>
      (k = PNotConnected \<longleftrightarrow> (\<exists>t. membership (data ps) i p = NotConnected t))"
  using peer_eq [of "data ps" i p] by (cases "membership (data ps) i p") (auto simp: peerset_okD(2))

text \<open>The invariant after the reserved nodes of one set have changed.\<close>

lemma reserved_upd:
  assumes ps: "peerset_ok ps" "latest_time_update ps \<le> now" and i: "i < num_sets (data ps)"
    and s: "peers_state_ok s" "nodes s = nodes (data ps)"
      "limits s = (limits (data ps))[i := (max_in (ps_sets (data ps) ! i), max_out (ps_sets (data ps) ! i), R)]"
    and R: "finite R" "only \<Longrightarrow> (\<And>p. connected ps i p \<Longrightarrow> p \<in> R)"
  shows "peerset_ok (ps\<lparr>reserved_nodes := (reserved_nodes ps)[i := (R, only)], data := s\<rparr>)"
proof -
  have n: "num_sets s = num_sets (data ps)"
    using arg_cong [OF s(3), of length] by (simp add: limits_def num_sets_def)
  have mem: "membership s j q = membership (data ps) j q" for j q by (simp add: membership_def s(2))
  have ns: "no_slot_nodes (ps_sets s ! j) = (if j = i then R else reserved ps j)"
    if "j < num_sets (data ps)" for j
  proof -
    have "limits s ! j = (limits (data ps))[i := (max_in (ps_sets (data ps) ! i), max_out (ps_sets (data ps) ! i), R)] ! j"
      using s(3) by simp
    then show ?thesis
      using that n i peerset_okD(4) [OF ps(1) that]
      by (auto simp: limits_def num_sets_def nth_list_update split: if_splits)
  qed
  show ?thesis
    using ps i s(1) R ns mem
    by (auto simp: peerset_ok_def n nth_list_update)
qed


definition steady :: "Instant \<Rightarrow> 'p Peerset \<Rightarrow> 'p Peerset \<Rightarrow> bool" where
  "steady now ps ps' \<longleftrightarrow> peerset_ok ps' \<and> num_sets (data ps') = num_sets (data ps) \<and>
     latest_time_update ps' \<le> now \<and> rx ps' = rx ps"

lemma kept_steady: "kept now ps ps' \<Longrightarrow> steady now ps ps'"
  using kept_num_sets [of now ps ps'] by (simp add: kept_def steady_def)

lemma steady_trans: "steady now ps ps' \<Longrightarrow> steady now ps' ps'' \<Longrightarrow> steady now ps ps''"
  by (simp add: steady_def)

lemma steadyD:
  "steady now ps ps' \<Longrightarrow> peerset_ok ps'" "steady now ps ps' \<Longrightarrow> latest_time_update ps' \<le> now"
  "steady now ps ps' \<Longrightarrow> num_sets (data ps') = num_sets (data ps)"
  by (simp_all add: steady_def)

lemma steady_refl: "peerset_ok ps \<Longrightarrow> latest_time_update ps \<le> now \<Longrightarrow> steady now ps ps"
  by (simp add: steady_def)

lemma on_add_reserved_peer_eq:
  assumes E: "iteration_ok E" and ps: "peerset_ok ps" "latest_time_update ps \<le> now"
    and i: "i < num_sets (data ps)"
  shows "\<exists>ps'. on_add_reserved_peer E now i p ps = Inr ps' \<and> steady now ps ps' \<and>
    reserved_nodes ps' = (reserved_nodes ps)[i := (insert p (reserved ps i), only_reserved ps i)] \<and>
    (p \<notin> reserved ps i \<longrightarrow> connected ps' i p)"
proof (cases "p \<in> reserved ps i")
  case True
  then have "(reserved_nodes ps)[i := (insert p (reserved ps i), only_reserved ps i)] = reserved_nodes ps"
    by (simp add: insert_absorb)
  then show ?thesis
    using True steady_refl [OF ps] i peerset_okD(3) [OF ps(1)]
    by (simp add: on_add_reserved_peer_def vec_index_def case_prod_unfold)
next
  case False
  obtain s where s: "add_no_slot_node (data ps) i p = Inr s" "peers_state_ok s" "nodes s = nodes (data ps)"
    "limits s = (limits (data ps))[i := (max_in (ps_sets (data ps) ! i), max_out (ps_sets (data ps) ! i),
      insert p (no_slot_nodes (ps_sets (data ps) ! i)))]"
    using add_no_slot_node_eq [OF peerset_okD(1) [OF ps(1)] i] by blast
  let ?ps = "ps\<lparr>reserved_nodes := (reserved_nodes ps)[i := (insert p (reserved ps i), only_reserved ps i)], data := s\<rparr>"
  have lim: "limits s = (limits (data ps))[i := (max_in (ps_sets (data ps) ! i), max_out (ps_sets (data ps) ! i),
      insert p (reserved ps i))]"
    using s(4) peerset_okD(4) [OF ps(1) i] by simp
  have ok: "peerset_ok ?ps"
    using reserved_upd [OF ps i s(2,3) lim, of "only_reserved ps i"] peerset_okD(5,6) [OF ps(1) i] by auto
  have n: "num_sets s = num_sets (data ps)"
    using arg_cong [OF lim, of length] by (simp add: limits_def num_sets_def)
  have "latest_time_update ?ps \<le> now" using ps(2) by simp
  then obtain ps' where ps': "alloc_slots E now ?ps = Inr ps'" "kept now ?ps ps'"
    "\<forall>j < num_sets (data ?ps). \<forall>q \<in> reserved ?ps j. connected ps' j q"
    using alloc_slots_eq [OF E ok] by blast
  moreover have "connected ps' i p" using ps'(3) i n peerset_okD(3) [OF ps(1)] by simp
  moreover have "steady now ps ps'" using kept_steady [OF ps'(2)] n by (simp add: steady_def)
  moreover have "reserved_nodes ps' = reserved_nodes ?ps" using ps'(2) by (simp add: kept_def)
  moreover have "on_add_reserved_peer E now i p ps = Inr ps'"
    using False i peerset_okD(3) [OF ps(1)] s(1) ps'(1)
    by (simp add: on_add_reserved_peer_def vec_index_def case_prod_unfold)
  ultimately show ?thesis by simp
qed

lemma on_remove_reserved_peer_eq:
  assumes ps: "peerset_ok ps" "latest_time_update ps \<le> now" and i: "i < num_sets (data ps)"
  shows "\<exists>ps'. on_remove_reserved_peer now i p ps = Inr ps' \<and> steady now ps ps' \<and>
    reserved_nodes ps' = (reserved_nodes ps)[i := (reserved ps i - {p}, only_reserved ps i)]"
proof (cases "p \<in> reserved ps i")
  case False
  then have "(reserved_nodes ps)[i := (reserved ps i - {p}, only_reserved ps i)] = reserved_nodes ps"
    by simp
  then show ?thesis
    using False steady_refl [OF ps] i peerset_okD(3) [OF ps(1)]
    by (simp add: on_remove_reserved_peer_def vec_index_def case_prod_unfold)
next
  case True
  let ?R = "reserved ps i - {p}"
  obtain s where s: "remove_no_slot_node (data ps) i p = Inr s" "peers_state_ok s" "nodes s = nodes (data ps)"
    "limits s = (limits (data ps))[i := (max_in (ps_sets (data ps) ! i), max_out (ps_sets (data ps) ! i), ?R)]"
    using remove_no_slot_node_eq [OF peerset_okD(1) [OF ps(1)] i, of p] peerset_okD(4) [OF ps(1) i] by auto
  have mem: "membership s j q = membership (data ps) j q" for j q by (simp add: membership_def s(3))
  let ?ps = "ps\<lparr>reserved_nodes := (reserved_nodes ps)[i := (?R, only_reserved ps i)], data := s\<rparr>"
  have len: "length (reserved_nodes ps) = num_sets (data ps)" using peerset_okD(3) [OF ps(1)] .
  have n: "num_sets s = num_sets (data ps)"
    using arg_cong [OF s(4), of length] by (simp add: limits_def num_sets_def)
  have run: "on_remove_reserved_peer now i p ps =
      (if \<not> only_reserved ps i then Inr ?ps
       else obind (peer s i p) (\<lambda>k. if k = PConnected then drop_connection now i p ?ps else Inr ?ps))"
    using True i len s(1) by (simp add: on_remove_reserved_peer_def vec_index_def case_prod_unfold Let_def)
  note fin = peerset_okD(5) [OF ps(1) i] and con = peerset_okD(6) [OF ps(1) i]
  show ?thesis
  proof (cases "only_reserved ps i \<and> connected ps i p")
    case False
    have "peerset_ok ?ps"
      using reserved_upd [OF ps i s(2,3,4), of "only_reserved ps i"] fin con False by fastforce
    then show ?thesis
      using run False ps(2) n i mem peer_eq [OF peers_state_okD(1) [OF s(2)], of i p]
      by (cases "membership (data ps) i p") (auto simp: steady_def)
  next
    case drop: True
    have pk: "peer s i p = Inr PConnected"
      using drop n i mem peer_eq [OF peers_state_okD(1) [OF s(2)], of i p]
      by (cases "membership (data ps) i p") auto
    obtain s' where s': "disconnect now s i p = Inr s'" "moved s i p (NotConnected now) s'"
      using disconnect_eq [OF s(2), of i p now] n i drop mem by auto
    let ?ps' = "push_message (Drop i p) (?ps\<lparr>data := s'\<rparr>)"
    have ok: "peerset_ok (ps\<lparr>reserved_nodes := (reserved_nodes ps)[i := (?R, False)], data := s\<rparr>)"
      using reserved_upd [OF ps i s(2,3,4), of False] fin by simp
    have n': "num_sets s' = num_sets s" using s'(2) limits_num_sets [of s' s] by (simp add: moved_def)
    have ns: "no_slot_nodes (ps_sets s' ! j) = no_slot_nodes (ps_sets s ! j)" if "j < num_sets s" for j
      using limits_nth(1) [of s' s j] s'(2) that by (simp add: moved_def)
    have "peerset_ok ?ps'"
      using ok s'(2) ns con n n' mem i len unfolding peerset_ok_def
      by (auto simp: moved_def nth_list_update split: if_splits)
    then show ?thesis
      using run drop pk s'(1) ps(2) n n' by (auto simp: steady_def drop_connection_def)
  qed
qed


lemma on_set_reserved_peers_eq:
  assumes E: "iteration_ok E" and ps: "peerset_ok ps" "latest_time_update ps \<le> now"
    and i: "i < num_sets (data ps)" and fin: "finite ids"
  shows "\<exists>ps'. on_set_reserved_peers E now i ids ps = Inr ps' \<and> steady now ps ps' \<and>
    reserved_nodes ps' = (reserved_nodes ps)[i := (ids, only_reserved ps i)]"
proof -
  let ?X = "\<lambda>R. (reserved_nodes ps)[i := (R, only_reserved ps i)]"
  let ?R = "reserved ps i"
  have len: "i < length (reserved_nodes ps)" using i peerset_okD(3) [OF ps(1)] by simp
  have elems: "set (set_elems E (ids - ?R)) = ids - ?R" "set (set_elems E (?R - ids)) = ?R - ids"
    using E fin peerset_okD(5) [OF ps(1) i] by (simp_all add: iteration_ok_def)
  let ?I = "\<lambda>A ps1. steady now ps ps1 \<and> reserved_nodes ps1 = ?X (?R \<union> A)"
  have "\<exists>ps1. ofold (on_add_reserved_peer E now i) (set_elems E (ids - ?R)) ps = Inr ps1 \<and>
      ?I (set (set_elems E (ids - ?R))) ps1"
  proof (rule ofold_done [where I = ?I])
    fix p ps1 A assume "?I A ps1"
    then show "\<exists>ps2. on_add_reserved_peer E now i p ps1 = Inr ps2 \<and> ?I (insert p A) ps2"
      using on_add_reserved_peer_eq [OF E steadyD(1,2) [of now ps ps1], of i p] i len
        steadyD(3) [of now ps ps1] steady_trans [of now ps ps1] by fastforce
  qed (use steady_refl [OF ps] in simp)
  then obtain ps1 where ps1: "ofold (on_add_reserved_peer E now i) (set_elems E (ids - ?R)) ps = Inr ps1"
    "steady now ps ps1" "reserved_nodes ps1 = ?X (?R \<union> ids)" by (auto simp: elems)
  let ?J = "\<lambda>A ps2. steady now ps ps2 \<and> reserved_nodes ps2 = ?X (?R \<union> ids - A)"
  have "\<exists>ps2. ofold (on_remove_reserved_peer now i) (set_elems E (?R - ids)) ps1 = Inr ps2 \<and>
      ?J (set (set_elems E (?R - ids))) ps2"
  proof (rule ofold_done [where I = ?J])
    fix p ps2 A assume J: "?J A ps2"
    have e: "?R \<union> ids - A - {p} = ?R \<union> ids - insert p A" by blast
    show "\<exists>ps3. on_remove_reserved_peer now i p ps2 = Inr ps3 \<and> ?J (insert p A) ps3"
      using on_remove_reserved_peer_eq [OF steadyD(1,2) [of now ps ps2], of i p] i len J
        steadyD(3) [of now ps ps2] steady_trans [of now ps ps2] by (fastforce simp: e)
  qed (use ps1 in simp)
  moreover have "?R \<union> ids - (?R - ids) = ids" by blast
  ultimately show ?thesis
    using ps1(1) len by (auto simp: on_set_reserved_peers_def vec_index_def case_prod_unfold Let_def elems)
qed

lemma reserved_only_on:
  assumes off: "peerset_ok (ps\<lparr>reserved_nodes := X[i := (R, False)]\<rparr>)"
    and on: "reserved_nodes ps = X[i := (R, True)]" "i < length X" "\<And>p. connected ps i p \<Longrightarrow> p \<in> R"
  shows "peerset_ok ps"
  unfolding peerset_ok_def
proof (intro conjI allI impI)
  fix j assume j: "j < num_sets (data ps)"
  have o: "finite (fst (X[i := (R, False)] ! j))"
    "no_slot_nodes (ps_sets (data ps) ! j) = fst (X[i := (R, False)] ! j)"
    using peerset_okD(4,5) [OF off, of j] j by simp_all
  have same: "reserved ps j = fst (X[i := (R, False)] ! j)" using on(1,2) by (cases "j = i") simp_all
  show "finite (reserved ps j)" "no_slot_nodes (ps_sets (data ps) ! j) = reserved ps j"
    unfolding same by (fact o)+
  fix p assume p: "only_reserved ps j" "connected ps j p"
  show "p \<in> reserved ps j"
  proof (cases "j = i")
    case True
    then show ?thesis using p(2) on by simp
  next
    case False
    then show ?thesis using peerset_okD(6) [OF off, of j p] p j on(1) by simp
  qed
qed (use peerset_okD(1,3) [OF off] off on(1) in \<open>simp_all add: peerset_ok_def\<close>)

lemma on_set_reserved_only_eq:
  assumes E: "iteration_ok E" and ps: "peerset_ok ps" "latest_time_update ps \<le> now"
    and i: "i < num_sets (data ps)"
  shows "\<exists>ps'. on_set_reserved_only E now i only ps = Inr ps' \<and> steady now ps ps' \<and>
    reserved_nodes ps' = (reserved_nodes ps)[i := (reserved ps i, only)]"
proof -
  have len: "length (reserved_nodes ps) = num_sets (data ps)" using peerset_okD(3) [OF ps(1)] .
  let ?ps = "\<lambda>o'. ps\<lparr>reserved_nodes := (reserved_nodes ps)[i := (reserved ps i, o')]\<rparr>"
  have off: "peerset_ok (?ps False)"
    using ps(1) i len by (auto simp: peerset_ok_def nth_list_update)
  show ?thesis
  proof (cases only)
    case False
    have "latest_time_update (?ps False) \<le> now" using ps(2) by simp
    then obtain ps' where "alloc_slots E now (?ps False) = Inr ps'" "kept now (?ps False) ps'"
      using alloc_slots_eq [OF E off] by blast
    then show ?thesis
      using False i len kept_steady [of now "?ps False" ps']
      by (auto simp: on_set_reserved_only_def vec_index_def case_prod_unfold Let_def steady_def kept_def)
  next
    case True
    obtain cs where cs: "connected_peers E (data ps) i = Inr cs" "distinct cs"
      "set cs = {p. connected ps i p}"
      using connected_peers_eq [OF E peerset_okD(2) [OF ps(1)] i] by blast
    define J where "J = (\<lambda>qs ps'. peerset_ok (ps'\<lparr>reserved_nodes := (reserved_nodes ps)[i := (reserved ps i, False)]\<rparr>) \<and>
      reserved_nodes ps' = reserved_nodes (?ps True) \<and> latest_time_update ps' \<le> now \<and> rx ps' = rx ps \<and>
      num_sets (data ps') = num_sets (data ps) \<and> (\<forall>p \<in> set qs. connected ps' i p) \<and>
      (\<forall>p. connected ps' i p \<longrightarrow> p \<in> set qs \<or> p \<in> reserved ps i))"
    have loop: "\<exists>ps''. ofold (drop_unless_reserved now i) qs ps' = Inr ps'' \<and> J [] ps''"
      if "J qs ps'" "distinct qs" for qs ps'
      using that
    proof (induction qs arbitrary: ps')
      case (Cons p qs)
      let ?off = "ps'\<lparr>reserved_nodes := (reserved_nodes ps)[i := (reserved ps i, False)]\<rparr>"
      have ok: "peers_state_ok (data ps')" "i < num_sets (data ps')"
        using Cons.prems(1) i by (auto simp: J_def peerset_ok_def)
      show ?case
      proof (cases "p \<in> reserved ps i")
        case True
        then have "drop_unless_reserved now i p ps' = Inr ps'"
          using Cons.prems(1) i len by (simp add: J_def drop_unless_reserved_def vec_index_def)
        moreover have "J qs ps'" using Cons.prems(1) True by (auto simp: J_def)
        ultimately show ?thesis using Cons.IH [of ps'] Cons.prems(2) by auto
      next
        case False
        have c: "connected ps' i p" using Cons.prems(1) by (simp add: J_def)
        obtain s' where s': "disconnect now (data ps') i p = Inr s'" "moved (data ps') i p (NotConnected now) s'"
          using disconnect_eq [OF ok c] by blast
        let ?n = "push_message (Drop i p) (ps'\<lparr>data := s'\<rparr>)"
        have "peer (data ps') i p = Inr PConnected"
          using peer_eq [OF peers_state_okD(1) [OF ok(1)] ok(2), of p] c by (cases "membership (data ps') i p") auto
        then have run: "drop_unless_reserved now i p ps' = Inr ?n"
          using Cons.prems(1) i len False s'(1)
          by (simp add: J_def drop_unless_reserved_def vec_index_def drop_connection_def)
        have "kept now ?off (?off\<lparr>data := s'\<rparr>)"
          using moved_kept [of ?off now i p "NotConnected now" s'] Cons.prems(1) s'(2) by (simp add: J_def)
        then have "peerset_ok (?n\<lparr>reserved_nodes := (reserved_nodes ps)[i := (reserved ps i, False)]\<rparr>)"
          by (simp add: kept_def push_message_def peerset_ok_def)
        moreover have "num_sets s' = num_sets (data ps)"
          using s'(2) Cons.prems(1) limits_num_sets [of s' "data ps'"] by (simp add: J_def moved_def)
        ultimately have "J qs ?n"
          using Cons.prems s'(2) ok(2) by (auto simp: J_def moved_def split: if_splits)
        then show ?thesis using Cons.IH [of ?n] Cons.prems(2) run by auto
      qed
    qed simp
    have "J cs (?ps True)" using off ps(2) cs(3) by (auto simp: J_def)
    then obtain ps' where ps': "ofold (drop_unless_reserved now i) cs (?ps True) = Inr ps'" "J [] ps'"
      using loop cs(2) by blast
    have "peerset_ok ps'"
      by (rule reserved_only_on [where X = "reserved_nodes ps" and i = i and R = "reserved ps i"])
        (use ps'(2) i len in \<open>simp_all add: J_def\<close>)
    then have "steady now ps ps'" "reserved_nodes ps' = reserved_nodes (?ps True)"
      using ps'(2) by (simp_all add: J_def steady_def)
    then show ?thesis
      using True i len cs(1) ps'(1) by (auto simp: on_set_reserved_only_def vec_index_def case_prod_unfold Let_def)
  qed
qed


lemma add_to_peers_set_eq:
  assumes E: "iteration_ok E" and ps: "peerset_ok ps" "latest_time_update ps \<le> now"
    and i: "i < num_sets (data ps)"
  shows "\<exists>ps'. add_to_peers_set E now i p ps = Inr ps' \<and> steady now ps ps'"
proof -
  obtain k where k: "peer (data ps) i p = Inr k" "k = PUnknown \<longleftrightarrow> membership (data ps) i p = NotMember"
    using peer_connected [OF ps(1) i, of p] by blast
  show ?thesis
  proof (cases "k = PUnknown")
    case True
    then obtain s where s: "discover now (data ps) i p = Inr s" "moved (data ps) i p (NotConnected now) s"
      using discover_eq [OF peerset_okD(1) [OF ps(1)] i, of p now] k(2) by auto
    have kp: "kept now ps (ps\<lparr>data := s\<rparr>)" using moved_kept [OF ps s(2)] by simp
    obtain ps' where "alloc_slots E now (ps\<lparr>data := s\<rparr>) = Inr ps'" "kept now (ps\<lparr>data := s\<rparr>) ps'"
      using alloc_slots_eq [OF E keptD [OF kp]] by blast
    then show ?thesis
      using True k(1) s(1) kept_steady [OF kept_trans [OF kp]] by (auto simp: add_to_peers_set_def)
  qed (use k(1) steady_refl [OF ps] in \<open>simp add: add_to_peers_set_def\<close>)
qed

lemma on_remove_from_peers_set_eq:
  assumes ps: "peerset_ok ps" "latest_time_update ps \<le> now" and i: "i < num_sets (data ps)"
  shows "\<exists>ps'. on_remove_from_peers_set now i p ps = Inr ps' \<and> kept now ps ps' \<and>
    (p \<notin> reserved ps i \<longrightarrow> membership (data ps') i p = NotMember)"
proof (cases "p \<in> reserved ps i")
  case True
  then show ?thesis
    using kept_refl [OF ps] i peerset_okD(3) [OF ps(1)]
    by (simp add: on_remove_from_peers_set_def vec_index_def case_prod_unfold)
next
  case False
  note ok = peerset_okD(1) [OF ps(1)]
  have run: "on_remove_from_peers_set now i p ps =
      obind (peer (data ps) i p) (\<lambda>k. case k of
        PConnected \<Rightarrow> obind (disconnect now (data ps) i p) (\<lambda>s. obind (forget_peer s i p) (\<lambda>s.
          Inr (push_message (Drop i p) (ps\<lparr>data := s\<rparr>))))
      | PNotConnected \<Rightarrow> obind (forget_peer (data ps) i p) (\<lambda>s. Inr (ps\<lparr>data := s\<rparr>))
      | PUnknown \<Rightarrow> Inr ps)"
    using False i peerset_okD(3) [OF ps(1)]
    by (simp add: on_remove_from_peers_set_def vec_index_def case_prod_unfold)
  have con: "\<exists>ps'. on_remove_from_peers_set now i p ps = Inr ps' \<and> kept now ps ps' \<and>
      membership (data ps') i p = NotMember" if c: "connected ps i p"
  proof -
    have pk: "peer (data ps) i p = Inr PConnected" using peer_connected [OF ps(1) i, of p] c by auto
    obtain s1 where s1: "disconnect now (data ps) i p = Inr s1" "moved (data ps) i p (NotConnected now) s1"
      using disconnect_eq [OF ok i c] by blast
    then have m1: "peers_state_ok s1" "i < num_sets s1" "membership s1 i p = NotConnected now"
      using i limits_num_sets [of s1 "data ps"] by (auto simp: moved_def)
    obtain s2 where s2: "forget_peer s1 i p = Inr s2" "moved s1 i p NotMember s2"
      using forget_peer_eq [OF m1] by blast
    have mv: "moved (data ps) i p NotMember s2"
      using s1(2) s2(2) limits_num_sets [of s1 "data ps"] by (auto simp: moved_def)
    show ?thesis
      using run pk s1(1) s2(1) moved_kept [OF ps mv] mv i by (auto simp: kept_push moved_def)
  qed
  show ?thesis
  proof (cases "membership (data ps) i p")
    case (NotConnected t)
    then have pk: "peer (data ps) i p = Inr PNotConnected" using peer_connected [OF ps(1) i, of p] by auto
    obtain s where s: "forget_peer (data ps) i p = Inr s" "moved (data ps) i p NotMember s"
      using forget_peer_eq [OF ok i NotConnected] by blast
    then show ?thesis using run pk moved_kept [OF ps s(2)] i by (auto simp: moved_def)
  next
    case NotMember
    then have "peer (data ps) i p = Inr PUnknown" using peer_connected [OF ps(1) i, of p] by auto
    then show ?thesis using run kept_refl [OF ps] NotMember by simp
  qed (use con in auto)
qed

lemma drop_if_connected_all:
  assumes ps: "peerset_ok ps" "latest_time_update ps \<le> now" and sids: "distinct sids" "\<forall>i \<in> set sids. i < num_sets (data ps)"
  shows "\<exists>ps'. ofold (drop_if_connected now p) sids ps = Inr ps' \<and> kept now ps ps' \<and>
    (\<forall>j < num_sets (data ps). \<forall>q. membership (data ps') j q =
      (if j \<in> set sids \<and> q = p \<and> connected ps j p then NotConnected now else membership (data ps) j q)) \<and>
    (\<forall>q. get_reputation (data ps') q = get_reputation (data ps) q) \<and>
    ps' = ps\<lparr>data := data ps', message_queue := message_queue ps @
      map (\<lambda>i. Drop i p) (filter (\<lambda>i. connected ps i p) sids)\<rparr>"
  using ps sids
proof (induction sids arbitrary: ps)
  case Nil
  then show ?case using kept_refl by auto
next
  case (Cons i sids)
  have i: "i < num_sets (data ps)" using Cons.prems(4) by simp
  obtain k where k: "peer (data ps) i p = Inr k" "k = PConnected \<longleftrightarrow> connected ps i p"
    using peer_connected [OF Cons.prems(1) i, of p] by blast
  obtain ps1 where ps1: "drop_if_connected now p i ps = Inr ps1" "kept now ps ps1"
    "\<forall>j < num_sets (data ps). \<forall>q. membership (data ps1) j q =
      (if j = i \<and> q = p \<and> connected ps j p then NotConnected now else membership (data ps) j q)"
    "\<forall>q. get_reputation (data ps1) q = get_reputation (data ps) q"
    "ps1 = ps\<lparr>data := data ps1, message_queue := message_queue ps @ (if connected ps i p then [Drop i p] else [])\<rparr>"
  proof (cases "connected ps i p")
    case True
    obtain s where s: "disconnect now (data ps) i p = Inr s" "moved (data ps) i p (NotConnected now) s"
      "\<forall>q. get_reputation s q = get_reputation (data ps) q"
      using disconnect_eq [OF peerset_okD(1) [OF Cons.prems(1)] i True] by blast
    have "kept now ps (push_message (Drop i p) (ps\<lparr>data := s\<rparr>))"
      using moved_kept [OF Cons.prems(1,2) s(2)] by (simp add: kept_push)
    then show ?thesis
      using that [of "push_message (Drop i p) (ps\<lparr>data := s\<rparr>)"] k True s i
      by (auto simp: drop_if_connected_def drop_connection_def moved_def push_message_def)
  qed (use that [of ps] k kept_refl [OF Cons.prems(1,2)] in \<open>auto simp: drop_if_connected_def\<close>)
  note n1 = kept_num_sets [OF ps1(2)]
  have con: "connected ps1 j p \<longleftrightarrow> connected ps j p" if "j < num_sets (data ps)" "j \<noteq> i" for j
    using ps1(3) that by simp
  have f: "filter (\<lambda>j. connected ps1 j p) sids = filter (\<lambda>j. connected ps j p) sids"
    using con Cons.prems(3,4) by (intro filter_cong refl) auto
  obtain ps2 where ps2: "ofold (drop_if_connected now p) sids ps1 = Inr ps2" "kept now ps1 ps2"
    "\<forall>j < num_sets (data ps1). \<forall>q. membership (data ps2) j q =
      (if j \<in> set sids \<and> q = p \<and> connected ps1 j p then NotConnected now else membership (data ps1) j q)"
    "\<forall>q. get_reputation (data ps2) q = get_reputation (data ps1) q"
    "ps2 = ps1\<lparr>data := data ps2, message_queue := message_queue ps1 @
      map (\<lambda>i. Drop i p) (filter (\<lambda>i. connected ps1 i p) sids)\<rparr>"
    using Cons.IH [OF keptD [OF ps1(2)]] Cons.prems(3,4) n1 by auto
  have q1: "message_queue ps1 = message_queue ps @ (if connected ps i p then [Drop i p] else [])"
    by (subst ps1(5)) simp
  have "ps2 = ps\<lparr>data := data ps2, message_queue := message_queue ps @
      map (\<lambda>i. Drop i p) (filter (\<lambda>i. connected ps i p) (i # sids))\<rparr>"
    by (subst ps2(5), subst ps1(5)) (simp add: q1 f)
  moreover have "\<forall>j < num_sets (data ps). \<forall>q. membership (data ps2) j q =
      (if j \<in> set (i # sids) \<and> q = p \<and> connected ps j p then NotConnected now else membership (data ps) j q)"
    using ps1(3) ps2(3) n1 con Cons.prems(3) by (auto split: if_splits)
  ultimately show ?case using ps1(1,2,4) ps2(1,2,4) kept_trans [OF ps1(2) ps2(2)] by auto
qed

text \<open>
  A report against the state \<open>ps1\<close> that the passing of time leads to: nothing but the reputation
  of the peer changes, and its connections when it is banned.
\<close>

lemma on_report_peer_eq:
  assumes ps: "peerset_ok ps" "latest_time_update ps \<le> now" and ps1: "update_time E now ps = Inr ps1"
  shows "\<exists>ps'. on_report_peer E now p change ps = Inr ps' \<and> kept now ps ps' \<and>
    (\<forall>q. get_reputation (data ps') q =
      (if q = p then i32_saturate (get_reputation (data ps1) p + change) else get_reputation (data ps1) q)) \<and>
    (\<forall>j < num_sets (data ps). \<forall>q. membership (data ps') j q =
      (if get_reputation (data ps') p < BANNED_THRESHOLD \<and> q = p \<and> connected ps j p then NotConnected now
       else membership (data ps1) j q)) \<and>
    ps' = ps1\<lparr>data := data ps', message_queue := message_queue ps @
      (if get_reputation (data ps') p < BANNED_THRESHOLD
       then map (\<lambda>i. Drop i p) (filter (\<lambda>i. connected ps i p) [0..<num_sets (data ps)]) else [])\<rparr>"
proof -
  have k1: "kept now ps ps1" and d1: "decayed (data ps) (data ps1)" and q1: "message_queue ps1 = message_queue ps"
    using update_time_eq [OF ps, of E] ps1 by auto
  let ?s1 = "data ps1"
  let ?s2 = "add_reputation (ensure_node ?s1 p) p change"
  let ?s3 = "drop_if_forgettable ?s2 p"
  let ?v = "get_reputation ?s2 p"
  let ?ps = "ps1\<lparr>data := ?s3\<rparr>"
  have 1: "unmoved ?s1 (ensure_node ?s1 p)"
    using ensure_node_eq [OF peerset_okD(1) [OF keptD(1) [OF k1]], of p] by simp
  have 2: "unmoved (ensure_node ?s1 p) ?s2" using 1 by (intro add_reputation_eq) (simp add: unmoved_def)
  have 3: "unmoved ?s2 ?s3" using 2 by (intro drop_if_forgettable_eq) (simp add: unmoved_def)
  note um = unmoved_trans [OF 1 unmoved_trans [OF 2 3]]
  have u: "decayed ?s1 ?s3" using um by (rule unmoved_decayed)
  have k: "kept now ps ?ps"
    using kept_trans [OF k1 decayed_kept [OF keptD [OF k1] u]] .
  have v: "get_reputation ?s3 p = ?v"
    by (auto simp: drop_if_forgettable_def get_reputation_def forgettable_def split: option.splits)
  have w: "?v = i32_saturate (get_reputation ?s1 p + change)"
    by (auto simp: get_reputation_def add_reputation_def ensure_node_def peer_node_new_def split: option.splits)
  have r: "get_reputation ?s3 q = get_reputation ?s1 q" if "q \<noteq> p" for q
    using that by (auto simp: get_reputation_def drop_if_forgettable_def add_reputation_def ensure_node_def
        split: option.splits)
  note n = kept_num_sets [OF k]
  have m: "membership ?s3 j q = membership ?s1 j q" if "j < num_sets (data ps)" for j q
    using um that kept_num_sets [OF k1] by (simp add: unmoved_def)
  have con: "connected ?ps i q \<longleftrightarrow> connected ps i q" if "i < num_sets (data ps)" for i q
    using decayed_connected [OF decayed_trans [OF d1 u] that] by simp
  have f: "filter (\<lambda>i. connected ?ps i p) [0..<num_sets (data ps)] =
      filter (\<lambda>i. connected ps i p) [0..<num_sets (data ps)]"
    using con by (intro filter_cong) auto
  show ?thesis
  proof (cases "?v \<ge> BANNED_THRESHOLD")
    case True
    then have "on_report_peer E now p change ps = Inr ?ps" using ps1 by (simp add: on_report_peer_def Let_def)
    then show ?thesis using k v w r m True q1 by auto
  next
    case False
    obtain ps' where ps': "ofold (drop_if_connected now p) [0..<num_sets (data ?ps)] ?ps = Inr ps'"
      "kept now ?ps ps'"
      "\<forall>j < num_sets (data ?ps). \<forall>q. membership (data ps') j q =
        (if j \<in> set [0..<num_sets (data ?ps)] \<and> q = p \<and> connected ?ps j p then NotConnected now
         else membership (data ?ps) j q)"
      "\<forall>q. get_reputation (data ps') q = get_reputation (data ?ps) q"
      "ps' = ?ps\<lparr>data := data ps', message_queue := message_queue ?ps @
        map (\<lambda>i. Drop i p) (filter (\<lambda>i. connected ?ps i p) [0..<num_sets (data ?ps)])\<rparr>"
      using drop_if_connected_all [OF keptD [OF k], of "[0..<num_sets (data ?ps)]" p] by auto
    have run: "on_report_peer E now p change ps = Inr ps'"
      using False ps1 ps'(1) by (simp add: on_report_peer_def Let_def)
    have rep: "get_reputation (data ps') q = (if q = p then ?v else get_reputation ?s1 q)" for q
      using ps'(4) v r by simp
    have mem: "membership (data ps') j q =
        (if q = p \<and> connected ps j p then NotConnected now else membership ?s1 j q)"
      if "j < num_sets (data ps)" for j q
      using ps'(3) that n m con by simp
    have q: "ps' = ps1\<lparr>data := data ps', message_queue := message_queue ps @
        map (\<lambda>i. Drop i p) (filter (\<lambda>i. connected ps i p) [0..<num_sets (data ps)])\<rparr>"
      by (subst ps'(5)) (use f n q1 in simp)
    show ?thesis
      by (rule exI [of _ ps'], intro conjI) (use run rep mem q w False kept_trans [OF k ps'(2)] in auto)
  qed
qed

lemma set_membership_frame:
  assumes "set_membership s i p m = Inr s'"
  shows "ps_sets s' = ps_sets s \<and> (\<forall>q. get_reputation s' q = get_reputation s q)"
  using assms by (auto simp: set_membership_def get_reputation_def split: option.splits if_splits)

lemma discover_frame:
  assumes "discover now s i p = Inr s'"
  shows "ps_sets s' = ps_sets s \<and> (\<forall>q. get_reputation s' q = get_reputation s q)"
  using set_membership_frame [OF assms [unfolded discover_def]]
  by (auto simp: ensure_node_def get_reputation_def peer_node_new_def split: option.splits)

lemma bump_frame:
  assumes "bump_last_connected_or_discovered now s i p = Inr s'"
  shows "ps_sets s' = ps_sets s \<and> (\<forall>q. get_reputation s' q = get_reputation s q)"
  using assms set_membership_frame [of s i p _ s']
  by (auto simp: bump_last_connected_or_discovered_def obind_eq_Inr split: option.splits MembershipState.splits)

text \<open>
  The answer to an incoming connection: none if the peer is connected, otherwise exactly one
  \<open>Accept\<close> or \<open>Reject\<close>, and after an \<open>Accept\<close> the peer is connected.
\<close>

lemma incoming_eq:
  assumes ps: "peerset_ok ps" "latest_time_update ps \<le> now" and i: "i < num_sets (data ps)"
    and up: "update_time E now ps = Inr ps1"
  shows "\<exists>ps'. incoming E now i p index ps = Inr ps' \<and> kept now ps ps' \<and>
    (if only_reserved ps i \<and> p \<notin> reserved ps i then message_queue ps' = message_queue ps @ [Reject index]
     else if connected ps i p then message_queue ps' = message_queue ps
     else if get_reputation (data ps1) p \<ge> BANNED_THRESHOLD \<and>
       (num_in (ps_sets (data ps1) ! i) < max_in (ps_sets (data ps1) ! i) \<or> p \<in> reserved ps i)
     then message_queue ps' = message_queue ps @ [Accept index] \<and> membership (data ps') i p = In
     else message_queue ps' = message_queue ps @ [Reject index] \<and> \<not> connected ps' i p)"
proof -
  have ps1: "update_time E now ps = Inr ps1" "kept now ps ps1" "decayed (data ps) (data ps1)"
    "message_queue ps1 = message_queue ps"
    using update_time_eq [OF ps, of E] up by auto
  note ok1 = keptD [OF ps1(2)] and n1 = kept_num_sets [OF ps1(2)]
  have i1: "i < num_sets (data ps1)" using i n1 by simp
  have r1: "reserved_nodes ps1 = reserved_nodes ps" using ps1(2) by (simp add: kept_def)
  have con: "connected ps1 i p \<longleftrightarrow> connected ps i p" using decayed_connected [OF ps1(3) i] .
  have vi: "vec_index (reserved_nodes ps1) i = Inr (reserved ps i, only_reserved ps i)"
    using peerset_okD(3) [OF ok1(1)] i1 r1 by (simp add: vec_index_def)
  show ?thesis
  proof (cases "only_reserved ps i \<and> p \<notin> reserved ps i")
    case True
    then have "incoming E now i p index ps = Inr (push_message (Reject index) ps1)"
      using ps1(1) vi by (simp add: incoming_def case_prod_unfold)
    then show ?thesis using True ps1(2,4) by (auto simp: kept_push)
  next
    case allowed: False
    obtain k where k: "peer (data ps1) i p = Inr k" "k = PConnected \<longleftrightarrow> connected ps1 i p"
      "k = PUnknown \<longleftrightarrow> membership (data ps1) i p = NotMember"
      "k = PNotConnected \<longleftrightarrow> (\<exists>t. membership (data ps1) i p = NotConnected t)"
      using peer_connected [OF ok1(1) i1, of p] by blast
    show ?thesis
    proof (cases "connected ps i p")
      case True
      then have "incoming E now i p index ps = Inr ps1"
        using ps1(1) vi k con allowed by (auto simp: incoming_def case_prod_unfold)
      then show ?thesis using True allowed ps1(2,4) by auto
    next
      case False
      obtain s2 where s2: "(if k = PUnknown then discover now (data ps1) i p
          else bump_last_connected_or_discovered now (data ps1) i p) = Inr s2"
        "moved (data ps1) i p (NotConnected now) s2"
      proof (cases "membership (data ps1) i p")
        case (NotConnected t)
        then show ?thesis
          using bump_eq [OF peerset_okD(1) [OF ok1(1)] i1 NotConnected, of now] k(3) that by auto
      qed (use discover_eq [OF peerset_okD(1) [OF ok1(1)] i1, of p now] k(3) con False that in auto)
      have fr: "ps_sets s2 = ps_sets (data ps1)" "get_reputation s2 p = get_reputation (data ps1) p"
        using s2(1) discover_frame [of now "data ps1" i p s2] bump_frame [of now "data ps1" i p s2]
        by (cases "k = PUnknown"; simp)+
      have slot: "no_slot_nodes (ps_sets s2 ! i) = reserved ps i"
        using peerset_okD(4) [OF ok1(1) i1] fr(1) r1 by simp
      let ?ps2 = "ps1\<lparr>data := s2\<rparr>"
      have k2: "kept now ps ?ps2" using kept_trans [OF ps1(2) moved_kept [OF ok1 s2(2)]] by simp
      have m2: "peers_state_ok s2" "i < num_sets s2" "membership s2 i p = NotConnected now"
        using s2(2) i1 limits_num_sets [of s2 "data ps1"] by (auto simp: moved_def)
      have kn: "k \<noteq> PConnected" using k(2) con False by simp
      have run: "incoming E now i p index ps =
          (if get_reputation s2 p < BANNED_THRESHOLD then Inr (push_message (Reject index) ?ps2)
           else obind (try_accept_incoming s2 i p) (\<lambda>r. case r of
                Some s \<Rightarrow> Inr (push_message (Accept index) (?ps2\<lparr>data := s\<rparr>))
              | None \<Rightarrow> Inr (push_message (Reject index) ?ps2)))"
        unfolding incoming_def ps1(1) obind.simps vi prod.case k(1) s2(1) Let_def
        using kn allowed by (cases k) auto
      have rej: "kept now ps (push_message (Reject index) ?ps2) \<and>
          message_queue (push_message (Reject index) ?ps2) = message_queue ps @ [Reject index] \<and>
          \<not> connected (push_message (Reject index) ?ps2) i p"
        using k2 ps1(4) m2(3) by (simp add: kept_push)
      show ?thesis
      proof (cases "get_reputation s2 p < BANNED_THRESHOLD \<or> num_in (ps_sets s2 ! i) \<ge> max_in (ps_sets s2 ! i) \<and>
          p \<notin> no_slot_nodes (ps_sets s2 ! i)")
        case True
        then have "incoming E now i p index ps = Inr (push_message (Reject index) ?ps2)"
          using run try_accept_incoming_eq [OF m2] by auto
        then show ?thesis using rej allowed False True fr slot by auto
      next
        case acc: False
        then obtain s3 where s3: "try_accept_incoming s2 i p = Inr (Some s3)" "moved s2 i p In s3"
          using try_accept_incoming_eq [OF m2] by auto
        have mv: "moved (data ps1) i p In s3"
          using s2(2) s3(2) limits_num_sets [of s2 "data ps1"] by (auto simp: moved_def)
        have k3: "kept now ps (ps1\<lparr>data := s3\<rparr>)"
          using kept_trans [OF ps1(2) moved_kept [OF ok1 mv]] allowed r1 by auto
        have "incoming E now i p index ps = Inr (push_message (Accept index) (ps1\<lparr>data := s3\<rparr>))"
          using run acc s3(1) by simp
        moreover have "membership s3 i p = In" using mv i1 by (simp add: moved_def)
        ultimately show ?thesis using k3 allowed False ps1(4) acc fr slot by (auto simp: kept_push)
      qed
    qed
  qed
qed

lemma dropped_eq:
  assumes E: "iteration_ok E" and ps: "peerset_ok ps" "latest_time_update ps \<le> now"
    and i: "i < num_sets (data ps)"
  shows "\<exists>ps'. dropped E now i p reason ps = Inr ps' \<and> kept now ps ps'"
proof -
  obtain ps1 where ps1: "update_time E now ps = Inr ps1" "kept now ps ps1"
    using update_time_eq [OF ps] by blast
  note ok1 = keptD [OF ps1(2)]
  have i1: "i < num_sets (data ps1)" using i kept_num_sets [OF ps1(2)] by simp
  obtain k where k: "peer (data ps1) i p = Inr k" "k = PConnected \<longleftrightarrow> connected ps1 i p"
    using peer_connected [OF ok1(1) i1, of p] by blast
  obtain ps2 where ps2: "(if k = PConnected then
      obind (disconnect now (add_reputation (data ps1) p DISCONNECT_REPUTATION_CHANGE) i p) (\<lambda>s.
      Inr (ps1\<lparr>data := s\<rparr>)) else Inr ps1) = Inr ps2" "kept now ps ps2"
  proof (cases "connected ps1 i p")
    case True
    let ?s = "add_reputation (data ps1) p DISCONNECT_REPUTATION_CHANGE"
    have u: "unmoved (data ps1) ?s" by (rule add_reputation_eq [OF peerset_okD(1) [OF ok1(1)]])
    have sok: "peers_state_ok ?s" "i < num_sets ?s" "is_connected (membership ?s i p)"
      using u i1 True unmoved_num_sets [OF u] by (simp_all add: unmoved_def)
    obtain s where s: "disconnect now ?s i p = Inr s" "moved ?s i p (NotConnected now) s"
      using disconnect_eq [OF sok] by blast
    have "kept now ps (ps1\<lparr>data := s\<rparr>)"
      using kept_trans [OF ps1(2) moved_kept [OF ok1 unmoved_moved [OF u s(2)]]] by simp
    then show ?thesis using that k True s(1) by simp
  qed (use that k ps1(2) in simp)
  have i2: "i < num_sets (data ps2)" using i kept_num_sets [OF ps2(2)] by simp
  obtain ps3 where ps3: "(if reason = Refused then on_remove_from_peers_set now i p ps2 else Inr ps2) = Inr ps3"
    "kept now ps ps3"
    using on_remove_from_peers_set_eq [OF keptD [OF ps2(2)] i2, of p] kept_trans [OF ps2(2)] ps2(2)
    by (cases "reason = Refused") auto
  obtain ps4 where ps4: "alloc_slots E now ps3 = Inr ps4" "kept now ps3 ps4"
    using alloc_slots_eq [OF E keptD [OF ps3(2)]] by blast
  have "dropped E now i p reason ps = Inr ps4"
    unfolding dropped_def ps1(1) obind.simps k(1) ps2(1) ps3(1) ps4(1) ..
  then show ?thesis using kept_trans [OF ps3(2) ps4(2)] by blast
qed

end
