(* ===== verification/Peerset_Theorems.thy ===== *)
theory Peerset_Theorems
  imports Peerset
begin

text \<open>
  The life of a peerset: its configuration, the events it handles, the states it can reach,
  and the properties of the component. The network calls \<^verbatim>\<open>incoming\<close>, \<^verbatim>\<open>dropped\<close>,
  \<^verbatim>\<open>add_to_peers_set\<close> and \<^verbatim>\<open>poll_next\<close> on the \<^verbatim>\<open>Peerset\<close>; everyone else sends actions.
\<close>

section \<open>Events\<close>

datatype 'p Event =
    IncomingEvent nat 'p IncomingIndex
  | DroppedEvent nat 'p DropReason
  | AddEvent nat 'p
  | SendEvent "'p Action"
  | PollEvent

fun handle :: "'p order \<Rightarrow> Instant \<Rightarrow> 'p Event \<Rightarrow> 'p Peerset \<Rightarrow> ('p Message option \<times> 'p Peerset) pr" where
  "handle E now (IncomingEvent i p index) ps = obind (incoming E now i p index ps) (\<lambda>ps. Inr (None, ps))"
| "handle E now (DroppedEvent i p reason) ps = obind (dropped E now i p reason ps) (\<lambda>ps. Inr (None, ps))"
| "handle E now (AddEvent i p) ps = obind (add_to_peers_set E now i p ps) (\<lambda>ps. Inr (None, ps))"
| "handle E now (SendEvent a) ps = Inr (None, send_action a ps)"
| "handle E now PollEvent ps = poll_next E now ps"

text \<open>The set identifiers of actions and events are those of configured sets.\<close>

fun action_ok :: "nat \<Rightarrow> 'p Action \<Rightarrow> bool" where
  "action_ok n (AddReservedPeer i _) \<longleftrightarrow> i < n"
| "action_ok n (RemoveReservedPeer i _) \<longleftrightarrow> i < n"
| "action_ok n (SetReservedPeers i ids) \<longleftrightarrow> i < n \<and> finite ids"
| "action_ok n (SetReservedOnly i _) \<longleftrightarrow> i < n"
| "action_ok n (ReportPeer _ _) \<longleftrightarrow> True"
| "action_ok n (AddToPeersSet i _) \<longleftrightarrow> i < n"
| "action_ok n (RemoveFromPeersSet i _) \<longleftrightarrow> i < n"
| "action_ok n (PeerReputations _) \<longleftrightarrow> True"

fun event_ok :: "nat \<Rightarrow> 'p Event \<Rightarrow> bool" where
  "event_ok n (IncomingEvent i _ _) \<longleftrightarrow> i < n"
| "event_ok n (DroppedEvent i _ _) \<longleftrightarrow> i < n"
| "event_ok n (AddEvent i _) \<longleftrightarrow> i < n"
| "event_ok n (SendEvent a) \<longleftrightarrow> action_ok n a"
| "event_ok n PollEvent \<longleftrightarrow> True"

text \<open>The states after any sequence of events; the clock does not go back.\<close>

inductive reachable :: "'p order \<Rightarrow> 'p SetConfig list \<Rightarrow> Instant \<Rightarrow> 'p Peerset \<Rightarrow> bool"
  for E :: "'p order" and configs :: "'p SetConfig list" where
  start: "from_config E now configs = Inr ps \<Longrightarrow> reachable E configs now ps"
| step: "reachable E configs t ps \<Longrightarrow> t \<le> now \<Longrightarrow> event_ok (length configs) e \<Longrightarrow>
    handle E now e ps = Inr (m, ps') \<Longrightarrow> reachable E configs now ps'"


section \<open>Handling events\<close>

lemma update_time_frame:
  assumes "update_time E now ps = Inr ps1"
  shows "ps1 = ps\<lparr>latest_time_update := now, data := data ps1\<rparr>"
  using assms by (auto simp: update_time_def Let_def)

lemma on_action_eq:
  assumes E: "iteration_ok E" and ps: "peerset_ok ps" "latest_time_update ps \<le> now"
    and a: "action_ok (num_sets (data ps)) a"
  shows "\<exists>ps'. on_action E now a ps = Inr ps' \<and> steady now ps ps'"
proof (cases a)
  case (ReportPeer p change)
  obtain ps1 where "update_time E now ps = Inr ps1" using update_time_eq [OF ps, of E] by blast
  then show ?thesis
    using on_report_peer_eq [OF ps, of E ps1 p change] kept_steady ReportPeer by fastforce
next
  case (RemoveFromPeersSet i p)
  then show ?thesis using on_remove_from_peers_set_eq [OF ps, of i p] kept_steady a by fastforce
next
  case (PeerReputations r)
  then show ?thesis using ps by (simp add: steady_def peerset_ok_def)
qed (use a on_add_reserved_peer_eq [OF E ps] on_remove_reserved_peer_eq [OF ps] on_set_reserved_peers_eq [OF E ps]
    on_set_reserved_only_eq [OF E ps] add_to_peers_set_eq [OF E ps] in fastforce)+

text \<open>
  Polling handles the first \<open>n\<close> actions of the channel in order, each of them while no message
  is queued, and stops at the first message or at the end of the channel.
\<close>

lemma poll_loop_eq:
  assumes E: "iteration_ok E" and ps: "peerset_ok ps" "latest_time_update ps \<le> now"
    and as: "\<forall>a \<in> set as. action_ok (num_sets (data ps)) a"
  shows "\<exists>n ps2. n \<le> length as \<and> ofold (on_action E now) (take n as) ps = Inr ps2 \<and> steady now ps ps2 \<and>
    (\<forall>k < n. \<exists>psk. ofold (on_action E now) (take k as) ps = Inr psk \<and> message_queue psk = []) \<and>
    (message_queue ps2 = [] \<longrightarrow> n = length as) \<and>
    poll_loop E now as ps = Inr (case message_queue ps2 of
      [] \<Rightarrow> (None, ps2\<lparr>rx := []\<rparr>) | m # ms \<Rightarrow> (Some m, ps2\<lparr>message_queue := ms, rx := drop n as\<rparr>))"
  using ps as
proof (induction as arbitrary: ps)
  case Nil
  then show ?case
    using steady_refl [OF Nil.prems(1,2)] poll_loop.simps [of E now "[]" ps] by (simp split: list.splits)
next
  case (Cons a as)
  show ?case
  proof (cases "message_queue ps")
    case (Cons m ms)
    then show ?thesis
      using steady_refl [OF Cons.prems(1,2)] poll_loop.simps [of E now "a # as" ps]
      by (intro exI [of _ 0] exI [of _ ps]) simp
  next
    case Nil
    obtain ps1 where ps1: "on_action E now a ps = Inr ps1" "steady now ps ps1"
      using on_action_eq [OF E Cons.prems(1,2)] Cons.prems(3) by auto
    then obtain n ps2 where run: "n \<le> length as" "ofold (on_action E now) (take n as) ps1 = Inr ps2" "steady now ps1 ps2"
      "\<forall>k < n. \<exists>psk. ofold (on_action E now) (take k as) ps1 = Inr psk \<and> message_queue psk = []"
      "message_queue ps2 = [] \<longrightarrow> n = length as"
      "poll_loop E now as ps1 = Inr (case message_queue ps2 of
        [] \<Rightarrow> (None, ps2\<lparr>rx := []\<rparr>) | m # ms \<Rightarrow> (Some m, ps2\<lparr>message_queue := ms, rx := drop n as\<rparr>))"
      using Cons.IH [OF steadyD(1,2) [OF ps1(2)]] Cons.prems(3) steadyD(3) [OF ps1(2)] by auto
    have "\<forall>k < Suc n. \<exists>psk. ofold (on_action E now) (take k (a # as)) ps = Inr psk \<and> message_queue psk = []"
      using run(4) ps1(1) Nil by (auto simp: take_Cons' less_Suc_eq_0_disj)
    moreover have "poll_loop E now (a # as) ps = poll_loop E now as ps1"
      using Nil ps1(1) by (simp add: poll_loop.simps [of E now "a # as"])
    ultimately show ?thesis
      using run ps1 steady_trans [OF ps1(2) run(3)]
      by (intro exI [of _ "Suc n"] exI [of _ ps2]) (simp cong: list.case_cong)
  qed
qed

text \<open>What is kept along a run of a peerset with \<open>n\<close> sets.\<close>

definition live :: "nat \<Rightarrow> Instant \<Rightarrow> 'p Peerset \<Rightarrow> bool" where
  "live n t ps \<longleftrightarrow> peerset_ok ps \<and> num_sets (data ps) = n \<and> latest_time_update ps \<le> t \<and>
     (\<forall>a \<in> set (rx ps). action_ok n a)"

lemma steady_live: "live n t ps \<Longrightarrow> steady now ps ps' \<Longrightarrow> live n now ps'"
  by (simp add: live_def steady_def)

lemma handle_eq:
  assumes E: "iteration_ok E" and ps: "live n t ps" and now: "t \<le> now" and e: "event_ok n e"
  shows "\<exists>m ps'. handle E now e ps = Inr (m, ps') \<and> live n now ps'"
proof -
  have ok: "peerset_ok ps" "latest_time_update ps \<le> now" and n: "num_sets (data ps) = n"
    using ps now by (auto simp: live_def)
  show ?thesis
  proof (cases e)
    case (IncomingEvent i p index)
    obtain ps1 where "update_time E now ps = Inr ps1" using update_time_eq [OF ok, of E] by blast
    then show ?thesis
      using incoming_eq [OF ok, of i E ps1 p index] steady_live [OF ps kept_steady] IncomingEvent e n by fastforce
  next
    case (DroppedEvent i p reason)
    then show ?thesis
      using dropped_eq [OF E ok, of i p reason] steady_live [OF ps kept_steady] e n by fastforce
  next
    case (AddEvent i p)
    then show ?thesis using add_to_peers_set_eq [OF E ok, of i p] steady_live [OF ps] e n by fastforce
  next
    case (SendEvent a)
    then show ?thesis using ps now e by (auto simp: live_def send_action_def peerset_ok_def)
  next
    case PollEvent
    obtain k ps2 where ps2: "steady now ps ps2" "poll_loop E now (rx ps) ps = Inr (case message_queue ps2 of
        [] \<Rightarrow> (None, ps2\<lparr>rx := []\<rparr>) | m # ms \<Rightarrow> (Some m, ps2\<lparr>message_queue := ms, rx := drop k (rx ps)\<rparr>))"
      using poll_loop_eq [OF E ok, of "rx ps"] ps n by (auto simp: live_def)
    have "live n now (ps2\<lparr>message_queue := q, rx := drop k (rx ps)\<rparr>)" "live n now (ps2\<lparr>rx := []\<rparr>)" for q k
      using ps ps2(1) n by (auto simp: live_def steady_def peerset_ok_def dest: in_set_dropD)
    then show ?thesis using PollEvent ps2(2) by (auto simp: poll_next_def split: list.splits)
  qed
qed

section \<open>Configuration\<close>

definition idle :: "'p PeersState \<Rightarrow> bool" where
  "idle s \<longleftrightarrow> peers_state_ok s \<and> (\<forall>j < num_sets s. \<forall>q. \<not> is_connected (membership s j q))"

lemma peers_state_new_eq:
  "idle (peers_state_new cs)" "num_sets (peers_state_new cs) = length cs"
  "j < length cs \<Longrightarrow> no_slot_nodes (ps_sets (peers_state_new cs) ! j) = {}"
  by (auto simp: idle_def peers_state_ok_def nodes_ok_def slots_ok_def slot_count_def num_sets_def membership_def
    peers_state_new_def)

lemma add_bootnode_eq:
  assumes s: "idle s" and i: "i < num_sets s"
  shows "\<exists>s'. add_bootnode now i p s = Inr s' \<and> idle s' \<and> limits s' = limits s"
proof -
  have ok: "peers_state_ok s" and c: "\<not> is_connected (membership s i p)" using s i by (simp_all add: idle_def)
  obtain s' where s': "discover now s i p = Inr s'" "moved s i p (NotConnected now) s'"
    using discover_eq [OF ok i c] by blast
  have "idle s'" "limits s' = limits s"
    using s s'(2) limits_num_sets [of s' s] by (auto simp: idle_def moved_def)
  then show ?thesis
    using peer_eq [OF peers_state_okD(1) [OF ok] i, of p] s s'(1)
    by (cases "membership s i p") (auto simp: add_bootnode_def)
qed

lemma limits_list_update_nth:
  assumes "limits s' = (limits s)[i := (a, b, N)]" "i < num_sets s"
  shows "num_sets s' = num_sets s"
    "j < num_sets s \<Longrightarrow> no_slot_nodes (ps_sets s' ! j) = (if j = i then N else no_slot_nodes (ps_sets s ! j))"
proof -
  show n: "num_sets s' = num_sets s" using arg_cong [OF assms(1), of length] by (simp add: limits_def num_sets_def)
  assume j: "j < num_sets s"
  have "limits s' ! j = (limits s)[i := (a, b, N)] ! j" using assms(1) by simp
  then show "no_slot_nodes (ps_sets s' ! j) = (if j = i then N else no_slot_nodes (ps_sets s ! j))"
    using j n assms(2) by (auto simp: limits_def num_sets_def nth_list_update)
qed

lemma add_set_eq:
  assumes E: "iteration_ok E" and s: "idle s" and i: "i < num_sets s"
    and c: "finite (cfg_reserved_nodes c)" "no_slot_nodes (ps_sets s ! i) = {}"
  shows "\<exists>s'. add_set E now (i, c) s = Inr s' \<and> idle s' \<and> num_sets s' = num_sets s \<and>
    (\<forall>j < num_sets s. no_slot_nodes (ps_sets s' ! j) =
       (if j = i then cfg_reserved_nodes c else no_slot_nodes (ps_sets s ! j)))"
proof -
  have R: "set (set_elems E (cfg_reserved_nodes c)) = cfg_reserved_nodes c"
    using E c(1) by (simp add: iteration_ok_def)
  let ?I = "\<lambda>A s'. idle s' \<and> num_sets s' = num_sets s \<and> (\<forall>j < num_sets s. no_slot_nodes (ps_sets s' ! j) =
       (if j = i then A else no_slot_nodes (ps_sets s ! j)))"
  have "\<exists>s1. ofold (\<lambda>p s. add_no_slot_node s i p) (set_elems E (cfg_reserved_nodes c)) s = Inr s1 \<and>
      ?I (set (set_elems E (cfg_reserved_nodes c))) s1"
  proof (rule ofold_done [where I = ?I])
    fix p s1 A assume I: "?I A s1"
    then have ok: "peers_state_ok s1" and i1: "i < num_sets s1" using i by (simp_all add: idle_def)
    obtain s2 where s2: "add_no_slot_node s1 i p = Inr s2" "peers_state_ok s2" "nodes s2 = nodes s1"
      "limits s2 = (limits s1)[i := (max_in (ps_sets s1 ! i), max_out (ps_sets s1 ! i),
        insert p (no_slot_nodes (ps_sets s1 ! i)))]"
      using add_no_slot_node_eq [OF ok i1] by blast
    have "idle s2"
      using I s2(2,3) limits_list_update_nth(1) [OF s2(4) i1] by (simp add: idle_def membership_def)
    then show "\<exists>s2. add_no_slot_node s1 i p = Inr s2 \<and> ?I (insert p A) s2"
      using I s2(1) limits_list_update_nth [OF s2(4) i1] i by auto
  qed (use s c(2) in auto)
  then obtain s1 where s1: "ofold (\<lambda>p s. add_no_slot_node s i p) (set_elems E (cfg_reserved_nodes c)) s = Inr s1"
    "?I (cfg_reserved_nodes c) s1" by (auto simp: R)
  have "\<exists>s2. ofold (add_bootnode now i) (bootnodes c) s1 = Inr s2 \<and> (idle s2 \<and> limits s2 = limits s1)"
  proof (rule ofold_inv [where I = "\<lambda>s2. idle s2 \<and> limits s2 = limits s1"])
    fix p s2 assume s2: "idle s2 \<and> limits s2 = limits s1"
    then have "i < num_sets s2" using i s1(2) limits_num_sets [of s2 s1] by simp
    then show "\<exists>s3. add_bootnode now i p s2 = Inr s3 \<and> (idle s3 \<and> limits s3 = limits s1)"
      using add_bootnode_eq [of s2 i now p] s2 by auto
  qed (use s1(2) in simp)
  then obtain s2 where s2: "ofold (add_bootnode now i) (bootnodes c) s1 = Inr s2" "idle s2" "limits s2 = limits s1"
    by blast
  have "no_slot_nodes (ps_sets s2 ! j) = no_slot_nodes (ps_sets s1 ! j)" if "j < num_sets s" for j
    using limits_nth(1) [OF s2(3), of j] that s1(2) by simp
  then show ?thesis using s1 s2 limits_num_sets [OF s2(3)] by (simp add: add_set_def)
qed

lemma add_sets_eq:
  assumes E: "iteration_ok E" and s: "idle s" and k: "k + length cs = num_sets s"
    and c: "\<forall>c \<in> set cs. finite (cfg_reserved_nodes c)" "\<forall>j < num_sets s. k \<le> j \<longrightarrow> no_slot_nodes (ps_sets s ! j) = {}"
  shows "\<exists>s'. ofold (add_set E now) (enumerate k cs) s = Inr s' \<and> idle s' \<and> num_sets s' = num_sets s \<and>
    (\<forall>j < num_sets s. no_slot_nodes (ps_sets s' ! j) =
       (if k \<le> j then cfg_reserved_nodes (cs ! (j - k)) else no_slot_nodes (ps_sets s ! j)))"
  using s k c
proof (induction cs arbitrary: k s)
  case (Cons c cs)
  obtain s1 where s1: "add_set E now (k, c) s = Inr s1" "idle s1" "num_sets s1 = num_sets s"
    "\<forall>j < num_sets s. no_slot_nodes (ps_sets s1 ! j) =
       (if j = k then cfg_reserved_nodes c else no_slot_nodes (ps_sets s ! j))"
    using add_set_eq [OF E Cons.prems(1), of k c now] Cons.prems(2-4) by auto
  obtain s2 where s2: "ofold (add_set E now) (enumerate (Suc k) cs) s1 = Inr s2" "idle s2" "num_sets s2 = num_sets s1"
    "\<forall>j < num_sets s1. no_slot_nodes (ps_sets s2 ! j) =
       (if Suc k \<le> j then cfg_reserved_nodes (cs ! (j - Suc k)) else no_slot_nodes (ps_sets s1 ! j))"
    using Cons.IH [OF s1(2), of "Suc k"] Cons.prems(2-4) s1(3,4) by auto
  have "no_slot_nodes (ps_sets s2 ! j) =
      (if k \<le> j then cfg_reserved_nodes ((c # cs) ! (j - k)) else no_slot_nodes (ps_sets s ! j))"
    if j: "j < num_sets s" for j
  proof (cases "Suc k \<le> j")
    case True
    then have "j - k = Suc (j - Suc k)" by simp
    then show ?thesis using True j s1(3) s2(4) by simp
  qed (use j s1 s2(4) in \<open>auto simp: not_less_eq_eq le_antisym\<close>)
  then show ?case using s1(1,3) s2(1-3) by simp
qed simp

lemma from_config_eq:
  assumes E: "iteration_ok E" and c: "\<forall>c \<in> set configs. finite (cfg_reserved_nodes c)"
  shows "\<exists>ps. from_config E now configs = Inr ps \<and> live (length configs) now ps \<and>
    reserved_nodes ps = map (\<lambda>c. (cfg_reserved_nodes c, reserved_only c)) configs \<and>
    (\<forall>i < length configs. (\<forall>p \<in> reserved ps i. connected ps i p) \<and> (only_reserved ps i \<or> filled ps i))"
proof -
  let ?s0 = "peers_state_new (map (\<lambda>c. \<lparr>sc_in_peers = in_peers c, sc_out_peers = out_peers c\<rparr>) configs) :: 'a PeersState"
  obtain s where s: "ofold (add_set E now) (enumerate 0 configs) ?s0 = Inr s" "idle s" "num_sets s = length configs"
    "\<forall>j < length configs. no_slot_nodes (ps_sets s ! j) = cfg_reserved_nodes (configs ! j)"
    using add_sets_eq [OF E, of ?s0 0 configs now] c by (auto simp: peers_state_new_eq)
  let ?ps = "\<lparr>data = s, reserved_nodes = map (\<lambda>c. (cfg_reserved_nodes c, reserved_only c)) configs,
    rx = [], message_queue = [], created = now, latest_time_update = now, replies = []\<rparr>"
  have ok: "peerset_ok ?ps" using s(2-4) c by (auto simp: peerset_ok_def idle_def)
  obtain ps where ps: "alloc_slots E now ?ps = Inr ps" "kept now ?ps ps"
    "\<forall>i < num_sets s. (\<forall>p \<in> reserved ?ps i. connected ps i p) \<and> (only_reserved ?ps i \<or> filled ps i)"
    using alloc_slots_eq [OF E ok, of now] by auto
  have "from_config E now configs = Inr ps" using s(1) ps(1) by (simp add: from_config_def)
  moreover have "live (length configs) now ps"
    using ps(2) kept_num_sets [OF ps(2)] s(3) by (simp add: live_def kept_def)
  moreover have "reserved_nodes ps = reserved_nodes ?ps" using ps(2) by (simp add: kept_def)
  ultimately show ?thesis using ps(3) s(3) by auto
qed

lemma reachable_live:
  assumes E: "iteration_ok E" and c: "\<forall>c \<in> set configs. finite (cfg_reserved_nodes c)"
    and r: "reachable E configs t ps"
  shows "live (length configs) t ps"
  using r
proof (induction rule: reachable.induct)
  case (start now ps)
  then show ?case using from_config_eq [OF E c, of now] by auto
next
  case (step t ps now e m ps')
  then show ?case using handle_eq [OF E step.IH step.hyps(2,3)] by auto
qed

section \<open>Decay\<close>

lemma reput_tick_pos:
  assumes "0 \<le> r" "r \<le> I32_MAX"
  shows "reput_tick r = max 0 (r - max 1 (r div 50))"
proof -
  have d: "0 \<le> r div 50" "r div 50 \<le> r" using assms(1) zdiv_mono2 [of r 1 50] by auto
  show ?thesis
  proof (cases "r = 0")
    case False
    then show ?thesis
      using assms d by (auto simp: reput_tick_def tdiv_50 i32_saturate_def I32_MIN_def I32_MAX_def Let_def)
  qed (simp add: reput_tick_def tdiv_50 i32_saturate_def I32_MIN_def I32_MAX_def)
qed

lemma reput_tick_neg:
  assumes "0 < r" "r \<le> - I32_MIN"
  shows "reput_tick (- r) = - (max 0 (r - max 1 (r div 50)))"
proof -
  have d: "0 \<le> r div 50" "r div 50 \<le> r" using assms(1) zdiv_mono2 [of r 1 50] by auto
  then show ?thesis
    using assms by (auto simp: reput_tick_def tdiv_50 i32_saturate_def I32_MIN_def I32_MAX_def Let_def)
qed

text \<open>The decay of an absolute value, and that it is monotone.\<close>

definition fade :: "int \<Rightarrow> int" where
  "fade r = max 0 (r - max 1 (r div 50))"

lemma fade_mono: "a \<le> b \<Longrightarrow> fade a \<le> fade b"
proof -
  assume "a \<le> b"
  moreover have "b div 50 - a div 50 \<le> b - a" using calculation by linarith
  moreover have "a div 50 \<le> b div 50" using calculation by (simp add: zdiv_mono1)
  ultimately show ?thesis unfolding fade_def by linarith
qed

lemma fade_funpow_mono: "a \<le> b \<Longrightarrow> (fade ^^ n) a \<le> (fade ^^ n) b"
  by (induction n) (simp_all add: fade_mono)

lemma fade_nonneg: "0 \<le> fade r"
  by (simp add: fade_def)

lemma fade_le: "0 \<le> r \<Longrightarrow> fade r \<le> r"
  unfolding fade_def by linarith

lemma reput_tick_abs:
  assumes "I32_MIN \<le> r" "r \<le> I32_MAX"
  shows "\<bar>reput_tick r\<bar> = fade \<bar>r\<bar>" "I32_MIN \<le> reput_tick r" "reput_tick r \<le> I32_MAX"
proof -
  show "\<bar>reput_tick r\<bar> = fade \<bar>r\<bar>"
  proof (cases "0 \<le> r")
    case False
    then show ?thesis using reput_tick_neg [of "- r"] assms by (simp add: fade_def)
  qed (use reput_tick_pos assms in \<open>simp add: fade_def\<close>)
qed (fact reput_tick_bounds)+

lemma reput_tick_funpow:
  assumes "I32_MIN \<le> r" "r \<le> I32_MAX"
  shows "\<bar>(reput_tick ^^ n) r\<bar> = (fade ^^ n) \<bar>r\<bar> \<and> I32_MIN \<le> (reput_tick ^^ n) r \<and> (reput_tick ^^ n) r \<le> I32_MAX"
  using assms by (induction n) (simp_all add: reput_tick_abs)

lemma fade_numeral: "fade (numeral k) = max 0 (numeral k - max 1 (numeral k div 50))" "fade 1 = 0" "fade 0 = 0"
  by (simp_all add: fade_def)

lemma fade_funpow_numeral: "(fade ^^ numeral k) r = (fade ^^ pred_numeral k) (fade r)"
  by (simp add: numeral_eq_Suc funpow_swap1)

lemma fade_chunks:
  "(fade ^^ 79) 2147483648 = 435301202"
  "(fade ^^ 79) 435301202 = 88236839"
  "(fade ^^ 79) 88236839 = 17885882"
  "(fade ^^ 79) 17885882 = 3625539"
  "(fade ^^ 79) 3625539 = 734929"
  "(fade ^^ 79) 734929 = 148992"
  "(fade ^^ 79) 148992 = 30222"
  "(fade ^^ 79) 30222 = 6147"
  "(fade ^^ 79) 6147 = 1268"
  "(fade ^^ 79) 1268 = 276"
  "(fade ^^ 79) 276 = 79"
  "(fade ^^ 79) 79 = 0"
  by (simp_all add: fade_funpow_numeral fade_numeral)

lemma fade_zero: "(fade ^^ 948) 2147483648 = 0"
proof -
  define F where "F = fade ^^ 79"
  have "(fade ^^ (79 * 12)) 2147483648 = (F ^^ 12) 2147483648" by (simp only: funpow_mult F_def)
  also have "\<dots> = 0" by (simp add: eval_nat_numeral fade_chunks [folded F_def])
  finally show ?thesis by simp
qed


section \<open>Properties\<close>

text \<open>
  C9: In every state a peerset can reach from its configuration, each slot counter is the
  number of incoming (outgoing) connections to nodes that are not reserved, the nodes that
  occupy no slot are the reserved ones, a set in reserved-only mode is connected to reserved
  nodes only, and reputations stay in the range of \<open>i32\<close>.
\<close>

theorem peerset_invariant:
  assumes "iteration_ok E" "\<forall>c \<in> set configs. finite (cfg_reserved_nodes c)"
    and "reachable E configs t ps" and "i < length configs"
  shows "num_in (ps_sets (data ps) ! i) = of_nat (card {p. membership (data ps) i p = In \<and> p \<notin> reserved ps i}) \<and>
    num_out (ps_sets (data ps) ! i) = of_nat (card {p. membership (data ps) i p = Out \<and> p \<notin> reserved ps i}) \<and>
    no_slot_nodes (ps_sets (data ps) ! i) = reserved ps i \<and>
    (only_reserved ps i \<longrightarrow> {p. connected ps i p} \<subseteq> reserved ps i) \<and>
    (\<forall>p. I32_MIN \<le> get_reputation (data ps) p \<and> get_reputation (data ps) p \<le> I32_MAX)"
proof -
  have ok: "peerset_ok ps" and i: "i < num_sets (data ps)"
    using reachable_live [OF assms(1-3)] assms(4) by (simp_all add: live_def)
  have "slots_ok (data ps)" "nodes_ok (data ps)" using peerset_okD(1) [OF ok] by (simp_all add: peers_state_ok_def)
  then show ?thesis
    using peerset_okD(4,6) [OF ok i] i
    by (auto simp: slots_ok_def slot_count_def nodes_ok_def get_reputation_def I32_MIN_def I32_MAX_def split: option.splits)
qed

text \<open>
  C10: No sequence of events makes the peerset panic or run forever: construction returns, and
  in every reachable state every event on a configured set, at any later time, returns.
\<close>

theorem peerset_never_fails:
  assumes "iteration_ok E" "\<forall>c \<in> set configs. finite (cfg_reserved_nodes c)"
  shows "(\<exists>ps. from_config E t configs = Inr ps) \<and>
    (\<forall>ps now e. reachable E configs t ps \<longrightarrow> t \<le> now \<longrightarrow> event_ok (length configs) e \<longrightarrow>
      (\<exists>r. handle E now e ps = Inr r))"
  using from_config_eq [OF assms, of t] handle_eq [OF assms(1) reachable_live [OF assms]] by blast

text \<open>
  C20: A report first lets the time pass, which keeps every connection and every queued message,
  and then moves the reputation of the reported peer by the reported amount, saturating. If that
  takes the peer below the ban threshold it is disconnected from every set it was connected in,
  with one \<open>Drop\<close> message for each of them in the order of the sets. Nothing else changes:
  no other reputation, no other peer's membership of any set, no reserved node, slot limit,
  pending action or reply.
\<close>

theorem report_peer_bans:
  assumes "iteration_ok E" "\<forall>c \<in> set configs. finite (cfg_reserved_nodes c)"
    and "reachable E configs t ps" and "t \<le> now"
  shows "\<exists>ps1 ps'. update_time E now ps = Inr ps1 \<and> on_report_peer E now p change ps = Inr ps' \<and>
    ps1 = ps\<lparr>latest_time_update := now, data := data ps1\<rparr> \<and>
    (\<forall>i < length configs. \<forall>q. connected ps1 i q \<longleftrightarrow> connected ps i q) \<and>
    (\<forall>q. get_reputation (data ps') q =
      (if q = p then i32_saturate (get_reputation (data ps1) p + change) else get_reputation (data ps1) q)) \<and>
    (\<forall>i < length configs. \<forall>q. membership (data ps') i q =
      (if get_reputation (data ps') p < BANNED_THRESHOLD \<and> q = p \<and> connected ps i p then NotConnected now
       else membership (data ps1) i q)) \<and>
    limits (data ps') = limits (data ps) \<and>
    ps' = ps1\<lparr>data := data ps', message_queue := message_queue ps @
      (if get_reputation (data ps') p < BANNED_THRESHOLD
       then map (\<lambda>i. Drop i p) (filter (\<lambda>i. connected ps i p) [0..<length configs]) else [])\<rparr>"
proof -
  have ok: "peerset_ok ps" "latest_time_update ps \<le> now" and n: "num_sets (data ps) = length configs"
    using reachable_live [OF assms(1-3)] assms(4) by (auto simp: live_def)
  obtain ps1 where ps1: "update_time E now ps = Inr ps1" "decayed (data ps) (data ps1)"
    using update_time_eq [OF ok, of E] by blast
  have "ps1 = ps\<lparr>latest_time_update := now, data := data ps1\<rparr>" by (rule update_time_frame [OF ps1(1)])
  moreover have "\<forall>i < length configs. \<forall>q. connected ps1 i q \<longleftrightarrow> connected ps i q"
    using decayed_connected [OF ps1(2)] n by simp
  ultimately show ?thesis using on_report_peer_eq [OF ok ps1(1), of p change] ps1(1) n
    by (auto simp: kept_def)
qed

text \<open>
  C21: An incoming connection is answered by exactly one message unless the peer is connected
  already: rejected if the set takes reserved nodes only and the peer is not one, accepted if
  the peer is not banned and is reserved or a slot is free, rejected otherwise; after an
  \<open>Accept\<close> the connection counts as incoming, after a \<open>Reject\<close> there is none.
\<close>

theorem incoming_answer:
  assumes "iteration_ok E" "\<forall>c \<in> set configs. finite (cfg_reserved_nodes c)"
    and "reachable E configs t ps" and "t \<le> now" and "i < length configs"
  shows "\<exists>ps1 ps'. update_time E now ps = Inr ps1 \<and> incoming E now i p index ps = Inr ps' \<and>
    (if only_reserved ps i \<and> p \<notin> reserved ps i then message_queue ps' = message_queue ps @ [Reject index]
     else if connected ps i p then message_queue ps' = message_queue ps
     else if get_reputation (data ps1) p \<ge> BANNED_THRESHOLD \<and>
       (num_in (ps_sets (data ps1) ! i) < max_in (ps_sets (data ps1) ! i) \<or> p \<in> reserved ps i)
     then message_queue ps' = message_queue ps @ [Accept index] \<and> membership (data ps') i p = In
     else message_queue ps' = message_queue ps @ [Reject index] \<and> \<not> connected ps' i p)"
proof -
  have ok: "peerset_ok ps" "latest_time_update ps \<le> now" and n: "i < num_sets (data ps)"
    using reachable_live [OF assms(1-3)] assms(4,5) by (auto simp: live_def)
  obtain ps1 where ps1: "update_time E now ps = Inr ps1" using update_time_eq [OF ok, of E] by blast
  show ?thesis using incoming_eq [OF ok n ps1, of p index] ps1 by blast
qed

text \<open>
  C11: Slot allocation finishes, keeps the configuration of the sets, connects to every
  reserved node, and leaves an outgoing slot of an open set free only if every known peer
  that is not connected is banned.
\<close>

theorem alloc_slots_fills:
  assumes "iteration_ok E" "\<forall>c \<in> set configs. finite (cfg_reserved_nodes c)"
    and "reachable E configs t ps" and "t \<le> now"
  shows "\<exists>ps'. alloc_slots E now ps = Inr ps' \<and> limits (data ps') = limits (data ps) \<and>
    (\<forall>i < length configs. (\<forall>p \<in> reserved ps i. connected ps' i p) \<and>
      (\<not> only_reserved ps i \<and> num_out (ps_sets (data ps') ! i) < max_out (ps_sets (data ps') ! i) \<longrightarrow>
        (\<forall>p s. membership (data ps') i p = NotConnected s \<longrightarrow> get_reputation (data ps') p < BANNED_THRESHOLD)))"
proof -
  have ok: "peerset_ok ps" "latest_time_update ps \<le> now" and n: "num_sets (data ps) = length configs"
    using reachable_live [OF assms(1-3)] assms(4) by (auto simp: live_def)
  show ?thesis using alloc_slots_eq [OF assms(1) ok] n by (fastforce simp: kept_def filled_def not_le)
qed

text \<open>
  C29: The handlers that change the reserved nodes set exactly what they are asked to, for one
  set: a node is added and connected to, a node is removed, the list is replaced, the
  reserved-only flag is set.
\<close>

theorem reserved_nodes_updated:
  assumes "iteration_ok E" "\<forall>c \<in> set configs. finite (cfg_reserved_nodes c)"
    and "reachable E configs t ps" and "t \<le> now" and "i < length configs" and "finite ids"
  shows "(\<exists>ps'. on_action E now (AddReservedPeer i p) ps = Inr ps' \<and>
      reserved_nodes ps' = (reserved_nodes ps)[i := (insert p (reserved ps i), only_reserved ps i)] \<and>
      (p \<notin> reserved ps i \<longrightarrow> connected ps' i p)) \<and>
    (\<exists>ps'. on_action E now (RemoveReservedPeer i p) ps = Inr ps' \<and>
      reserved_nodes ps' = (reserved_nodes ps)[i := (reserved ps i - {p}, only_reserved ps i)]) \<and>
    (\<exists>ps'. on_action E now (SetReservedPeers i ids) ps = Inr ps' \<and>
      reserved_nodes ps' = (reserved_nodes ps)[i := (ids, only_reserved ps i)]) \<and>
    (\<exists>ps'. on_action E now (SetReservedOnly i only) ps = Inr ps' \<and>
      reserved_nodes ps' = (reserved_nodes ps)[i := (reserved ps i, only)])"
proof -
  have ok: "peerset_ok ps" "latest_time_update ps \<le> now" and n: "i < num_sets (data ps)"
    using reachable_live [OF assms(1-3)] assms(4,5) by (auto simp: live_def)
  show ?thesis
    using on_add_reserved_peer_eq [OF assms(1) ok n, of p] on_remove_reserved_peer_eq [OF ok n, of p]
      on_set_reserved_peers_eq [OF assms(1) ok n assms(6)] on_set_reserved_only_eq [OF assms(1) ok n, of only]
    by auto
qed

text \<open>
  C30: Polling handles the first \<open>n\<close> actions of the channel, in order and each while no message is
  queued, and the state it leaves is the one these handlers produce. If a message is queued then,
  the oldest one is returned and removed and the other actions stay in the channel; only when
  every action has been handled and none has queued a message does it report that nothing is ready.
\<close>

theorem poll_next_drains:
  assumes "iteration_ok E" "\<forall>c \<in> set configs. finite (cfg_reserved_nodes c)"
    and "reachable E configs t ps" and "t \<le> now"
  shows "\<exists>n ps2. n \<le> length (rx ps) \<and> ofold (on_action E now) (take n (rx ps)) ps = Inr ps2 \<and>
    (\<forall>k < n. \<exists>psk. ofold (on_action E now) (take k (rx ps)) ps = Inr psk \<and> message_queue psk = []) \<and>
    (message_queue ps2 = [] \<longrightarrow> n = length (rx ps)) \<and>
    poll_next E now ps = Inr (case message_queue ps2 of
      [] \<Rightarrow> (None, ps2\<lparr>rx := []\<rparr>) | m # ms \<Rightarrow> (Some m, ps2\<lparr>message_queue := ms, rx := drop n (rx ps)\<rparr>))"
proof -
  have ok: "peerset_ok ps" "latest_time_update ps \<le> now" "\<forall>a \<in> set (rx ps). action_ok (num_sets (data ps)) a"
    using reachable_live [OF assms(1-3)] assms(4) by (auto simp: live_def)
  show ?thesis unfolding poll_next_def using poll_loop_eq [OF assms(1) ok] by blast
qed

text \<open>
  C31: Each second moves a reputation strictly towards zero without passing it, and whatever
  the reputation it is zero after at most 948 seconds.
\<close>

theorem reputation_decays:
  assumes "I32_MIN \<le> r" "r \<le> I32_MAX"
  shows "(r \<noteq> 0 \<longrightarrow> \<bar>reput_tick r\<bar> < \<bar>r\<bar>) \<and> (0 \<le> r \<longrightarrow> 0 \<le> reput_tick r) \<and> (r \<le> 0 \<longrightarrow> reput_tick r \<le> 0) \<and>
    (948 \<le> n \<longrightarrow> (reput_tick ^^ n) r = 0)"
proof -
  have "(fade ^^ 948) \<bar>r\<bar> \<le> 0"
    using fade_funpow_mono [of "\<bar>r\<bar>" 2147483648 948] assms fade_zero by (simp add: I32_MIN_def I32_MAX_def)
  then have z: "(reput_tick ^^ 948) r = 0" using reput_tick_funpow [OF assms, of 948] by linarith
  have "(reput_tick ^^ k) 0 = 0" for k
    using reput_tick_cases [of 0] by (induction k) (simp_all add: I32_MIN_def I32_MAX_def)
  then have "(reput_tick ^^ (k + 948)) r = 0" for k unfolding funpow_add o_apply z .
  from this [of "n - 948"] have "948 \<le> n \<longrightarrow> (reput_tick ^^ n) r = 0" by (auto simp del: funpow.simps)
  moreover have "r \<noteq> 0 \<longrightarrow> \<bar>reput_tick r\<bar> < \<bar>r\<bar>" "0 \<le> r \<longrightarrow> 0 \<le> reput_tick r" "r \<le> 0 \<longrightarrow> reput_tick r \<le> 0"
    using reput_tick_cases [OF assms] by auto
  ultimately show ?thesis by simp
qed


section \<open>An instance\<close>

text \<open>Two peers, visited in a fixed order, and two sets: one open with a single slot each way, one reserved-only.\<close>

definition two_peers :: "(bool, 'n) iteration" where
  "two_peers = \<lparr>map_keys = (\<lambda>m. filter (\<lambda>p. m p \<noteq> None) [False, True]),
     set_elems = (\<lambda>S. filter (\<lambda>p. p \<in> S) [False, True])\<rparr>"

definition two_sets :: "bool SetConfig list" where
  "two_sets = [\<lparr>in_peers = 1, out_peers = 1, bootnodes = [False], cfg_reserved_nodes = {}, reserved_only = False\<rparr>,
     \<lparr>in_peers = 0, out_peers = 0, bootnodes = [False], cfg_reserved_nodes = {True}, reserved_only = True\<rparr>]"

lemma set_filter_bool: "set (filter P [False, True]) = Collect P"
proof (rule set_eqI)
  show "x \<in> set (filter P [False, True]) \<longleftrightarrow> x \<in> Collect P" for x by (cases x) auto
qed

lemma two_peers_ok: "iteration_ok two_peers"
  unfolding iteration_ok_def two_peers_def iteration.simps set_filter_bool by (simp add: dom_def)

lemma two_sets_finite: "\<forall>c \<in> set two_sets. finite (cfg_reserved_nodes c)"
  by (simp add: two_sets_def)

lemma two_sets_length: "length two_sets = 2"
  by (simp add: two_sets_def)

lemmas two_ok = two_peers_ok two_sets_finite

lemma two_reachable: "\<exists>ps. reachable two_peers two_sets 0 ps"
  using from_config_eq [OF two_ok, of 0] reachable.start by blast

theorem peerset_invariant_witness:
  "\<exists>ps. reachable two_peers two_sets 0 ps \<and> no_slot_nodes (ps_sets (data ps) ! 1) = reserved ps 1 \<and>
    num_in (ps_sets (data ps) ! 1) = of_nat (card {p. membership (data ps) 1 p = In \<and> p \<notin> reserved ps 1})"
  using two_reachable peerset_invariant [OF two_ok, of 0 _ 1] two_sets_length by fastforce

theorem peerset_never_fails_witness:
  "\<exists>ps r. from_config two_peers 0 two_sets = Inr ps \<and> handle two_peers 7 (IncomingEvent 1 False 3) ps = Inr r"
proof -
  obtain ps where ps: "from_config two_peers 0 two_sets = Inr ps"
    using peerset_never_fails [OF two_ok, of 0] by blast
  have "event_ok (length two_sets) (IncomingEvent 1 False 3 :: bool Event)" by (simp add: two_sets_length)
  then show ?thesis using peerset_never_fails [OF two_ok, of 0] reachable.start [OF ps] ps by blast
qed

theorem incoming_answer_witness:
  "\<exists>ps ps'. from_config two_peers 0 two_sets = Inr ps \<and> incoming two_peers 0 1 False 9 ps = Inr ps' \<and>
    message_queue ps' = message_queue ps @ [Reject 9]"
proof -
  obtain ps where ps: "from_config two_peers 0 two_sets = Inr ps"
    "reserved_nodes ps = map (\<lambda>c. (cfg_reserved_nodes c, reserved_only c)) two_sets"
    using from_config_eq [OF two_ok, of 0] by blast
  then have "only_reserved ps 1 \<and> False \<notin> reserved ps 1" by (simp add: two_sets_def)
  then show ?thesis
    using incoming_answer [OF two_ok reachable.start [OF ps(1)], of 0 1 False 9] ps(1) two_sets_length by auto
qed

theorem alloc_slots_fills_witness:
  "\<exists>ps ps'. from_config two_peers 0 two_sets = Inr ps \<and> alloc_slots two_peers 3 ps = Inr ps' \<and> connected ps' 1 True"
proof -
  obtain ps where ps: "from_config two_peers 0 two_sets = Inr ps"
    "reserved_nodes ps = map (\<lambda>c. (cfg_reserved_nodes c, reserved_only c)) two_sets"
    using from_config_eq [OF two_ok, of 0] by blast
  then have "True \<in> reserved ps 1" by (simp add: two_sets_def)
  then show ?thesis
    using alloc_slots_fills [OF two_ok reachable.start [OF ps(1)], of 3] ps(1) two_sets_length by auto
qed

theorem reserved_nodes_updated_witness:
  "\<exists>ps ps'. from_config two_peers 0 two_sets = Inr ps \<and> on_action two_peers 3 (SetReservedPeers 1 {False}) ps = Inr ps' \<and>
    reserved ps' 1 = {False}"
proof -
  obtain ps where ps: "from_config two_peers 0 two_sets = Inr ps"
    "reserved_nodes ps = map (\<lambda>c. (cfg_reserved_nodes c, reserved_only c)) two_sets"
    using from_config_eq [OF two_ok, of 0] by blast
  have "length (reserved_nodes ps) = 2" using ps(2) by (simp add: two_sets_length)
  then show ?thesis
    using reserved_nodes_updated [OF two_ok reachable.start [OF ps(1)], of 3 1 "{False}" False False]
      ps(1) two_sets_length
    by (auto simp del: on_action.simps)
qed

text \<open>One set with one reserved peer, from the configuration to a report that bans the peer.\<close>

definition one_set :: "bool SetConfig list" where
  "one_set = [\<lparr>in_peers = 1, out_peers = 1, bootnodes = [], cfg_reserved_nodes = {True}, reserved_only = True\<rparr>]"

definition one_state :: "bool Action list \<Rightarrow> bool Message list \<Rightarrow> bool Peerset" where
  "one_state actions queue =
     \<lparr>data = \<lparr>nodes = [True \<mapsto> \<lparr>node_sets = [Out], reputation = 0\<rparr>],
        ps_sets = [\<lparr>num_in = 0, num_out = 0, max_in = 1, max_out = 1, no_slot_nodes = {True}\<rparr>]\<rparr>,
      reserved_nodes = [({True}, True)], rx = actions, message_queue = queue,
      created = 0, latest_time_update = 0, replies = []\<rparr>"

lemma one_ok: "\<forall>c \<in> set one_set. finite (cfg_reserved_nodes c)"
  by (simp add: one_set_def)

lemma same_instant:
  "latest_time_update ps = now \<Longrightarrow> created ps \<le> now \<Longrightarrow> update_time E now ps = Inr (ps\<lparr>latest_time_update := now\<rparr>)"
  by (simp add: update_time_def instant_secs_def)

lemma one_start: "from_config two_peers 0 one_set = Inr (one_state [] [Connect 0 True])"
proof -
  have elems: "set_elems two_peers {True} = [True]" "set_elems two_peers {} = []" by (simp_all add: two_peers_def)
  show ?thesis
    by (simp add: from_config_def one_set_def one_state_def add_set_def elems enumerate_eq_zip peers_state_new_def
        Let_def add_no_slot_node_def adjust_slots_def alloc_slots_def same_instant connect_reserved_set_def connect_reserved_def
        peer_def discover_def ensure_node_def num_sets_def peer_node_new_def try_outgoing_def set_membership_def
        push_message_def fill_set_def vec_index_def del: obind_eq_Inr)
qed

lemma one_reachable: "reachable two_peers one_set 0 (one_state [ReportPeer True I32_MIN, PeerReputations 0] [])"
proof -
  have p: "reachable two_peers one_set 0 (one_state [] [])"
    by (rule reachable.step [OF reachable.start [OF one_start], of _ PollEvent "Some (Connect 0 True)"])
      (simp_all add: one_state_def poll_next_def poll_loop.simps)
  have q: "reachable two_peers one_set 0 (one_state [ReportPeer True I32_MIN] [])"
    by (rule reachable.step [OF p, of _ "SendEvent (ReportPeer True I32_MIN)" None])
      (simp_all add: one_state_def send_action_def)
  show ?thesis
    by (rule reachable.step [OF q, of _ "SendEvent (PeerReputations 0)" None])
      (simp_all add: one_state_def send_action_def)
qed

lemma one_time: "update_time two_peers 0 (one_state as ms) = Inr (one_state as ms)"
  using same_instant [of "one_state as ms" 0 two_peers] by (simp add: one_state_def)

lemma one_reputation: "get_reputation (data (one_state as ms)) True = 0" "connected (one_state as ms) 0 True"
  by (simp_all add: one_state_def get_reputation_def membership_def)

lemma banned_min: "i32_saturate (0 + I32_MIN) < BANNED_THRESHOLD"
  by (simp add: i32_saturate_def I32_MIN_def I32_MAX_def BANNED_THRESHOLD_def tdiv_def)

theorem report_peer_bans_witness:
  "\<exists>ps'. on_report_peer two_peers 0 True I32_MIN (one_state [ReportPeer True I32_MIN, PeerReputations 0] []) = Inr ps' \<and>
    \<not> connected ps' 0 True \<and> message_queue ps' = [Drop 0 True]"
proof -
  let ?ps = "one_state [ReportPeer True I32_MIN, PeerReputations 0] []"
  obtain ps1 ps' where ps': "update_time two_peers 0 ?ps = Inr ps1" "on_report_peer two_peers 0 True I32_MIN ?ps = Inr ps'"
    "\<forall>q. get_reputation (data ps') q =
      (if q = True then i32_saturate (get_reputation (data ps1) True + I32_MIN) else get_reputation (data ps1) q)"
    "\<forall>i < length one_set. \<forall>q. membership (data ps') i q =
      (if get_reputation (data ps') True < BANNED_THRESHOLD \<and> q = True \<and> connected ?ps i True then NotConnected 0
       else membership (data ps1) i q)"
    "ps' = ps1\<lparr>data := data ps', message_queue := message_queue ?ps @
      (if get_reputation (data ps') True < BANNED_THRESHOLD
       then map (\<lambda>i. Drop i True) (filter (\<lambda>i. connected ?ps i True) [0..<length one_set]) else [])\<rparr>"
    using report_peer_bans [OF two_peers_ok one_ok one_reachable order_refl, of True I32_MIN] by blast
  have "ps1 = ?ps" using ps'(1) by (simp add: one_time)
  then have b: "get_reputation (data ps') True < BANNED_THRESHOLD" and l: "length one_set = 1"
    using ps'(3) banned_min by (simp_all add: one_reputation one_set_def)
  have "message_queue ps' = [Drop 0 True]"
    by (subst ps'(5)) (simp add: b l one_reputation, simp add: one_state_def)
  moreover have "membership (data ps') 0 True = NotConnected 0" using ps'(4) b l one_reputation by simp
  ultimately show ?thesis using ps'(2) by simp
qed

lemma one_report:
  "\<exists>ps'. on_report_peer two_peers 0 True I32_MIN (one_state as []) = Inr ps' \<and> message_queue ps' = [Drop 0 True]"
proof -
  let ?ps = "one_state as []"
  have "peerset_ok ?ps \<longleftrightarrow> peerset_ok (one_state [ReportPeer True I32_MIN, PeerReputations 0] [])"
    by (simp add: one_state_def peerset_ok_def)
  then have ok: "peerset_ok ?ps" "latest_time_update ?ps \<le> 0"
    using reachable_live [OF two_peers_ok one_ok one_reachable] by (simp_all add: live_def one_state_def)
  obtain ps' where ps': "on_report_peer two_peers 0 True I32_MIN ?ps = Inr ps'"
    "\<forall>q. get_reputation (data ps') q =
      (if q = True then i32_saturate (get_reputation (data ?ps) True + I32_MIN) else get_reputation (data ?ps) q)"
    "ps' = ?ps\<lparr>data := data ps', message_queue := message_queue ?ps @
      (if get_reputation (data ps') True < BANNED_THRESHOLD
       then map (\<lambda>i. Drop i True) (filter (\<lambda>i. connected ?ps i True) [0..<num_sets (data ?ps)]) else [])\<rparr>"
    using on_report_peer_eq [OF ok one_time, of True I32_MIN] by blast
  have "get_reputation (data ps') True < BANNED_THRESHOLD" using ps'(2) banned_min by (simp add: one_reputation)
  moreover have "num_sets (data ?ps) = 1" by (simp add: one_state_def num_sets_def)
  ultimately have "message_queue ps' = [Drop 0 True]"
    by (subst ps'(3)) (simp add: one_reputation, simp add: one_state_def)
  then show ?thesis using ps'(1) by blast
qed

theorem poll_next_drains_witness:
  "\<exists>ps'. poll_next two_peers 0 (one_state [ReportPeer True I32_MIN, PeerReputations 0] []) = Inr (Some (Drop 0 True), ps') \<and>
    rx ps' = [PeerReputations 0]"
proof -
  let ?as = "[ReportPeer True I32_MIN, PeerReputations 0]"
  let ?ps = "one_state ?as []"
  obtain ps1 where ps1: "on_report_peer two_peers 0 True I32_MIN ?ps = Inr ps1" "message_queue ps1 = [Drop 0 True]"
    using one_report by blast
  have s: "rx ?ps = ?as" "message_queue ?ps = []" by (simp_all add: one_state_def)
  obtain n ps2 where run: "n \<le> length ?as" "ofold (on_action two_peers 0) (take n ?as) ?ps = Inr ps2"
    "\<forall>k < n. \<exists>psk. ofold (on_action two_peers 0) (take k ?as) ?ps = Inr psk \<and> message_queue psk = []"
    "message_queue ps2 = [] \<longrightarrow> n = length ?as"
    "poll_next two_peers 0 ?ps = Inr (case message_queue ps2 of
      [] \<Rightarrow> (None, ps2\<lparr>rx := []\<rparr>) | m # ms \<Rightarrow> (Some m, ps2\<lparr>message_queue := ms, rx := drop n ?as\<rparr>))"
    using poll_next_drains [OF two_peers_ok one_ok one_reachable order_refl] unfolding s(1) by blast
  have "n \<noteq> 0" using run(2,4) s(2) by (cases n) auto
  moreover have "n \<noteq> 2" using run(3) [rule_format, of 1] ps1 by auto
  ultimately have "n = 1" using run(1) by auto
  then show ?thesis using run(2,5) ps1 by auto
qed

theorem reputation_decays_witness: "\<bar>reput_tick 120\<bar> < 120 \<and> (reput_tick ^^ 1000) 120 = 0"
proof -
  have "I32_MIN \<le> 120" "120 \<le> I32_MAX" by (simp_all add: I32_MIN_def I32_MAX_def)
  from reputation_decays [OF this, of 1000] show ?thesis by (simp del: abs_of_nonneg)
qed

end
