(* ===== verification/Spec2Isabelle.thy ===== *)
theory Spec2Isabelle
  imports Accumulator_Theorems Jellyfish_Theorems Jellyfish_Store Iter_Theorems Peerset_Theorems
begin

text \<open>
  A verification of the data structures that a Starcoin node relies on for agreement and for
  staying connected: the Merkle accumulator, the forkable jellyfish Merkle tree with the
  state tree on it, and the peer set manager.

  \<^bold>\<open>The program.\<close> The blocks and transactions of a chain are leaves of append-only Merkle
  accumulators (\<^verbatim>\<open>commons/accumulator\<close>); headers carry their roots. The world state is a
  sparse Merkle tree over account and resource keys (\<^verbatim>\<open>commons/forkable-jellyfish-merkle\<close>),
  updated in batches and identified by its root hash, so that several forks share one node
  store; the state tree (\<^verbatim>\<open>state/state-tree\<close>) adds pending updates and a cache. The network (\<^verbatim>\<open>network-p2p\<close>) asks the peer set manager (\<^verbatim>\<open>network-p2p/peerset\<close>)
  whom to connect to, whom to accept and whom to drop. Virtual machine, storage engine, network
  transport and services are built on these and are not modelled.

  \<^bold>\<open>Conventions.\<close> Functions of the code are functions of the model with the same names,
  prefixed where the code has one name in several types. A fallible operation returns an
  \<open>outcome\<close> (theory \<open>Prelude\<close>): \<open>Inr v\<close>, an error of the code \<open>Inl (Err e)\<close>, or \<open>Inl Panic\<close> for
  a panic (failed assertion, index out of range, \<^verbatim>\<open>expect\<close>). Arithmetic is that of a release
  build: machine words wrap, debug assertions do nothing. Mutable state is passed and
  returned. Locks, logs and metrics are left out. The assertions of \<^verbatim>\<open>checked_precondition!\<close> on
  children of tree positions and on the length of a path are not branches of the model: the
  statements are for arguments that satisfy them.

  \<^bold>\<open>Parameters.\<close> Hash functions, the LRU cache, the BCS encoding, the bits of a \<^verbatim>\<open>HashValue\<close>
  and the iteration order of hash maps (a fixed function of the content of the map) belong to other crates or to the standard library's
  unspecified behaviour. They are arguments of the definitions; \<open>crypto_ok\<close>, \<open>lru_ok\<close>,
  \<open>bcs_ok\<close>, \<open>bits_ok\<close>, \<open>hash_order_ok\<close> and \<open>iteration_ok\<close> state what is relied upon, and each has an instance that the
  witnesses use. No theorem assumes that a hash function is injective in general: where
  security needs it, the statement names the hashes that must not collide.

  \<^bold>\<open>Accumulator.\<close>
  \<^item> \<open>Node_Index\<close> models \<^verbatim>\<open>node_index.rs\<close>: positions in an infinite binary tree numbered in
    order, on 64-bit words, and the iterators over frozen subtrees. Lemmas: the bit
    manipulations compute level, parent, children and siblings; the iterators cover the leaves.
  \<^item> \<open>Merkle_Spec\<close> is the reference: the tree over a list of leaves, padded with placeholders.
  \<^item> \<open>InMemory\<close> models \<^verbatim>\<open>inmemory/mod.rs\<close>, the accumulator that keeps frozen roots only.
  \<^item> \<open>Acc_Node\<close>, \<open>Acc_Tree\<close>, \<open>Acc_Lookup\<close>, \<open>Acc_Append\<close> model \<^verbatim>\<open>node.rs\<close>, \<^verbatim>\<open>tree_store\<close>,
    \<^verbatim>\<open>accumulator_info.rs\<close> and \<^verbatim>\<open>tree.rs\<close>: nodes addressed by hash in a pending map, a cache and
    a store. Lemmas: lookups find every node whatever the cache has dropped; an append extends
    the reference tree. Loops that walk up or down the tree have as fuel the number of levels;
    the lookup of a node by index stops after 65 rounds with an error of its own,
    \<open>LookupBound\<close>, which no lookup in a tree of at most \<open>2 ^ 63\<close> leaves reaches. Stores are two locales,
    one whose saves may fail half-way and one whose saves succeed.
  \<^item> \<open>Accumulator\<close>, \<open>Accumulator_Theorems\<close> model \<^verbatim>\<open>lib.rs\<close> and \<^verbatim>\<open>proof/mod.rs\<close>: the accumulator
    interface as a locale interpreted by both implementations, their agreement, completeness
    and soundness of proofs, flush and fork, and two defects of the code. The invariant
    \<open>tree_inv\<close> includes \<open>collision_free\<close>: nodes carry their position and are stored by hash, so
    leaves must be distinct and differ from the placeholder hash, besides the hash function
    having no collision in the tree.

  \<^bold>\<open>Jellyfish Merkle tree.\<close>
  \<^item> \<open>Nibble_Path\<close> models \<^verbatim>\<open>nibble.rs\<close> and \<^verbatim>\<open>nibble_path/mod.rs\<close>: a path is its list of
    nibbles, through byte packing, pushing, popping and the iterators.
  \<^item> \<open>Jellyfish_Node\<close> models \<^verbatim>\<open>node_type/mod.rs\<close>: nodes, bitmaps, sixteen-way hashing, siblings,
    and the byte encoding with its round trip and decoding errors.
  \<^item> \<open>Jellyfish_Tree\<close> models \<^verbatim>\<open>lib.rs\<close>, \<^verbatim>\<open>tree_cache/mod.rs\<close>, \<^verbatim>\<open>proof.rs\<close> and the reader of the mock store:
    insertion and deletion in batches, lookups with proofs and their verification.
  \<^item> \<open>Sparse_Spec\<close>, \<open>Sparse_Update\<close>, \<open>Sparse_Path\<close> are the reference: a tree is a finite set of
    leaves, \<open>smt\<close> the root of its binary sparse Merkle tree, \<open>live\<close> the nodes of the sixteen-way
    tree. Lemmas: the hash over bitmaps is the binary hash; what an update changes in the set
    of nodes; the siblings on the path of a key.
  \<^item> \<open>Jellyfish_Rebuild\<close>, \<open>Jellyfish_Insert\<close>, \<open>Jellyfish_Put\<close> show that insertion and deletion compute the
    nodes of the updated set of leaves and record what they add and drop; \<open>Jellyfish_Get\<close>
    that lookups find the leaf of a key with a proof that verifies; \<open>Jellyfish_Sound\<close> that an
    accepted proof is true. Lookups have as fuel one more than the nibbles of a key.
  \<^item> \<open>State_Tree\<close> models \<^verbatim>\<open>state-tree/src/state_tree.rs\<close> and its mock store: pending updates, the
    cache of uncommitted nodes, commit and flush. Node stores are two locales, one whose writes
    may fail half-way and one whose writes succeed. \<open>State_Tree_Spec\<close> gives the two maps it
    refines and the simulation of each operation, also when flushes fail.
  \<^item> \<open>Jellyfish_Iter\<close> models \<^verbatim>\<open>iterator/mod.rs\<close> and the dump of a state tree, \<open>Iter_Spec\<close> shows
    that a stack of half-visited nodes stands for the leaves that remain, and \<open>Iter_Theorems\<close>
    that iterators and dumps list the leaves in the order of key hashes. Loops that the code
    does not bound are partial functions, proved to return.
  \<^item> \<open>Jellyfish_Store\<close> models the writes of \<^verbatim>\<open>mock_tree_store.rs\<close>: an update and a purge lead
    from exactly the nodes of one version to exactly those of the next, and what a purge
    removes.
  \<^item> \<open>Jellyfish_Sample\<close> is a concrete tree for the witnesses; \<open>Jellyfish_Theorems\<close> holds the
    properties: roots and nodes of every version, lookups, soundness, exact batches, the state
    tree as a map, reopening after a flush, failed writes, and a panic on a valid batch.

  \<^bold>\<open>Peer set.\<close>
  \<^item> \<open>Peers_State\<close> models \<^verbatim>\<open>peersstate.rs\<close>: membership, slot counters and reputations.
  \<^item> \<open>Peerset\<close> models \<^verbatim>\<open>lib.rs\<close>: the handlers of all actions, slot allocation, time. An
    operation reads the clock once, where the code may read it several times. The
    slot-filling loop has as fuel one more than the number of known nodes, and each round
    connects one of them; \<open>fill_loop_eq\<close> shows that this is enough.
  \<^item> \<open>Peerset_Theorems\<close>: the events of a peerset as a step relation, its invariant in every
    reachable state, absence of panics, and the behaviour of each handler.

  \<^bold>\<open>Not modelled.\<close> Difficulty adjustment, the block verifier, the transaction
  pool, the state database and block synchronisation. Counters of new and stale leaves are
  modelled but no theorem speaks of them. The remaining crates are the virtual machine and its standard library,
  storage, services, networking and tools, which are input and output or drive external code.
\<close>

end
